(* ===== verification/Pool_Prelude.thy ===== *)
theory Pool_Prelude
  imports Main "HOL-Library.Word" "HOL-Library.Monad_Syntax" "HOL-Library.Multiset"
begin

text \<open>
  Shared vocabulary of the development.

  Every operation of the C code that can run into undefined behaviour (a NULL or dangling
  pointer, an index outside an array, a signed overflow, a lock taken twice, a failed
  \<open>assert\<close>) is a function into \<open>option\<close>: \<^term>\<open>None\<close> is that fault, \<^term>\<open>Some r\<close> a
  regular return. An operation that is proved to return \<^term>\<open>Some r\<close> is therefore proved
  free of these faults. This theory holds the types of machine integers and pointers, the
  checked array and \<^verbatim>\<open>long\<close> operations, the lemmas on words, lists and sums that the
  components share, and the locale of inductive invariants of a step relation.
\<close>

unbundle bit_operations_syntax

section \<open>Machine types\<close>

type_synonym u8 = "8 word"
type_synonym u16 = "16 word"
type_synonym u32 = "32 word"
type_synonym u64 = "64 word"

type_synonym addr = nat

text \<open>A pointer is NULL (\<^term>\<open>None\<close>) or the address of an object.\<close>

type_synonym ptr = "addr option"

named_theorems c_simps \<open>evaluation of the C-level primitives\<close>

section \<open>Arrays of a fixed length\<close>

text \<open>
  \<^verbatim>\<open>a[i]\<close> with \<^verbatim>\<open>int i\<close>: outside the array the access is a fault.
\<close>

definition array_get :: "'a list \<Rightarrow> int \<Rightarrow> 'a option" where
  "array_get xs i = (if 0 \<le> i \<and> nat i < length xs then Some (xs ! nat i) else None)"

definition array_set :: "'a list \<Rightarrow> int \<Rightarrow> 'a \<Rightarrow> 'a list option" where
  "array_set xs i v = (if 0 \<le> i \<and> nat i < length xs then Some (xs[nat i := v]) else None)"

lemma array_get_nat [c_simps, simp]:
  "array_get xs (int n) = (if n < length xs then Some (xs ! n) else None)"
  by (simp add: array_get_def)

lemma array_set_nat [c_simps, simp]:
  "array_set xs (int n) v = (if n < length xs then Some (xs[n := v]) else None)"
  by (simp add: array_set_def)

lemma array_get_None_iff: "array_get xs i = None \<longleftrightarrow> i < 0 \<or> int (length xs) \<le> i"
  by (auto simp: array_get_def)

section \<open>Signed 64-bit arithmetic\<close>

text \<open>
  \<^verbatim>\<open>long\<close> is a 64-bit two's complement integer (LP64); a result outside its range is
  undefined in C.
\<close>

definition long_ok :: "int \<Rightarrow> bool" where
  "long_ok x \<longleftrightarrow> - (2 ^ 63) \<le> x \<and> x < 2 ^ 63"

definition long_of :: "int \<Rightarrow> int option" where
  "long_of x = (if long_ok x then Some x else None)"

definition long_add :: "int \<Rightarrow> int \<Rightarrow> int option" where
  "long_add x y = long_of (x + y)"

definition long_sub :: "int \<Rightarrow> int \<Rightarrow> int option" where
  "long_sub x y = long_of (x - y)"

definition long_mul :: "int \<Rightarrow> int \<Rightarrow> int option" where
  "long_mul x y = long_of (x * y)"

lemma long_of_Some [simp]: "long_of x = Some y \<longleftrightarrow> long_ok x \<and> y = x"
  by (auto simp: long_of_def)

lemma long_of_ok [c_simps]: "long_ok x \<Longrightarrow> long_of x = Some x"
  by (simp add: long_of_def)

text \<open>The same for \<^verbatim>\<open>int\<close>, of 32 bits.\<close>

definition int_ok :: "int \<Rightarrow> bool" where
  "int_ok x \<longleftrightarrow> - (2 ^ 31) \<le> x \<and> x < 2 ^ 31"

definition int_of :: "int \<Rightarrow> int option" where
  "int_of x = (if int_ok x then Some x else None)"

definition int_mul :: "int \<Rightarrow> int \<Rightarrow> int option" where
  "int_mul x y = int_of (x * y)"

lemma int_of_Some [simp]: "int_of x = Some y \<longleftrightarrow> int_ok x \<and> y = x"
  by (auto simp: int_of_def)

lemma int_of_ok [c_simps]: "int_ok x \<Longrightarrow> int_of x = Some x"
  by (simp add: int_of_def)

text \<open>C's division truncates towards zero and its remainder takes the dividend's sign.\<close>

definition c_div :: "int \<Rightarrow> int \<Rightarrow> int" where
  "c_div a b = sgn a * sgn b * (\<bar>a\<bar> div \<bar>b\<bar>)"

definition c_mod :: "int \<Rightarrow> int \<Rightarrow> int" where
  "c_mod a b = a - c_div a b * b"

lemma c_div_nonneg [simp]: "0 \<le> a \<Longrightarrow> 0 < b \<Longrightarrow> c_div a b = a div b"
  by (auto simp: c_div_def sgn_if)

lemma c_mod_nonneg [simp]: "0 \<le> a \<Longrightarrow> 0 < b \<Longrightarrow> c_mod a b = a mod b"
  by (simp add: c_mod_def minus_div_mult_eq_mod)

section \<open>Words\<close>

lemma word_of_nat_inject:
  assumes "a < 2 ^ LENGTH('w)" and "b < 2 ^ LENGTH('w)"
  shows "(of_nat a :: 'w::len word) = of_nat b \<longleftrightarrow> a = b"
  using assms by (metis unat_of_nat mod_less)

lemma word_of_nat_le_iff:
  assumes "a < 2 ^ LENGTH('w)" and "b < 2 ^ LENGTH('w)"
  shows "(of_nat a :: 'w::len word) \<le> of_nat b \<longleftrightarrow> a \<le> b"
  using assms by (simp add: word_le_nat_alt unat_of_nat)

section \<open>Option and list lemmas\<close>

lemma bind_Some_iff: "Option.bind m f = Some y \<longleftrightarrow> (\<exists>x. m = Some x \<and> f x = Some y)"
  by (cases m) auto

lemma distinct_concat_update:
  assumes "distinct (concat ls)" and "p < length ls" and "distinct xs"
    and "set xs \<inter> set (concat ls) \<subseteq> set (ls ! p)"
  shows "distinct (concat (ls[p := xs]))"
proof -
  have ls: "ls = take p ls @ ls ! p # drop (Suc p) ls"
    using assms(2) by (rule id_take_nth_drop)
  have upd: "ls[p := xs] = take p ls @ xs # drop (Suc p) ls"
    using assms(2) by (rule upd_conv_take_nth_drop)
  let ?A = "concat (take p ls)" and ?B = "concat (drop (Suc p) ls)"
  have eq: "concat ls = ?A @ ls ! p @ ?B"
    by (subst ls) simp
  have d: "distinct (?A @ ls ! p @ ?B)" using assms(1) unfolding eq .
  have s: "set xs \<inter> set (?A @ ls ! p @ ?B) \<subseteq> set (ls ! p)" using assms(4) unfolding eq .
  have disj: "set ?A \<inter> set (ls ! p) = {}" "set ?B \<inter> set (ls ! p) = {}"
    "set ?A \<inter> set ?B = {}" "distinct ?A" "distinct ?B"
    using d unfolding distinct_append set_append by blast+
  have "set xs \<inter> set ?A = {}" "set xs \<inter> set ?B = {}"
    using s disj(1,2) unfolding set_append by blast+
  with disj assms(3) have "distinct (?A @ xs @ ?B)"
    unfolding distinct_append set_append by blast
  then show ?thesis unfolding upd by simp
qed

lemma mset_concat_update:
  assumes "p < length ls"
  shows "mset (concat (ls[p := xs])) + mset (ls ! p) = mset (concat ls) + mset xs"
proof -
  have ls: "ls = take p ls @ ls ! p # drop (Suc p) ls"
    using assms by (rule id_take_nth_drop)
  have upd: "ls[p := xs] = take p ls @ xs # drop (Suc p) ls"
    using assms by (rule upd_conv_take_nth_drop)
  have "mset (concat ls) = mset (concat (take p ls @ ls ! p # drop (Suc p) ls))"
    using ls by simp
  then show ?thesis unfolding upd by (simp add: ac_simps)
qed

text \<open>Weighted counts over an array of threads: what one thread's move changes.\<close>

lemma sum_list_map_update:
  fixes f :: "'a \<Rightarrow> nat"
  assumes "i < length xs"
  shows "sum_list (map f (xs[i := x])) + f (xs ! i) = sum_list (map f xs) + f x"
proof -
  have xs: "xs = take i xs @ xs ! i # drop (Suc i) xs"
    using assms by (rule id_take_nth_drop)
  have upd: "xs[i := x] = take i xs @ x # drop (Suc i) xs"
    using assms by (rule upd_conv_take_nth_drop)
  have "sum_list (map f xs) = sum_list (map f (take i xs @ xs ! i # drop (Suc i) xs))"
    using xs by simp
  then show ?thesis unfolding upd by simp
qed

lemma replicate_numeral: "replicate (numeral n) x = x # replicate (pred_numeral n) x"
  by (simp add: numeral_eq_Suc)

lemma member_update: "x \<in> set xs \<Longrightarrow> xs ! i \<noteq> x \<Longrightarrow> x \<in> set (xs[i := y])"
  by (induction xs arbitrary: i) (auto split: nat.split)

lemma member_updateD: "x \<in> set (xs[i := y]) \<Longrightarrow> x = y \<or> x \<in> set xs"
  using set_update_subset_insert by fastforce

definition tally :: "('a \<Rightarrow> 'b::comm_monoid_add) \<Rightarrow> 'a list \<Rightarrow> 'b" where
  "tally f xs = sum_list (map f xs)"

definition others :: "('a \<Rightarrow> 'b::comm_monoid_add) \<Rightarrow> nat \<Rightarrow> 'a list \<Rightarrow> 'b" where
  "others f i xs = tally f (take i xs @ drop (Suc i) xs)"

lemma tally_simps [simp]:
  "tally f [] = 0" "tally f (x # xs) = f x + tally f xs" "tally f (xs @ ys) = tally f xs + tally f ys"
  by (simp_all add: tally_def)

lemma tally_others:
  assumes "i < length xs"
  shows "tally f xs = f (xs ! i) + others f i xs"
    and "tally f (xs[i := x]) = f x + others f i xs"
proof -
  have "tally f xs = tally f (take i xs @ xs ! i # drop (Suc i) xs)"
    using id_take_nth_drop [OF assms] by simp
  then show "tally f xs = f (xs ! i) + others f i xs"
    by (simp add: others_def ac_simps)
  show "tally f (xs[i := x]) = f x + others f i xs"
    using assms by (simp add: upd_conv_take_nth_drop others_def ac_simps)
qed

lemma tally_same:
  assumes "i < length xs" and "f x = f (xs ! i)"
  shows "tally f (xs[i := x]) = tally f xs"
  using tally_others [OF assms(1), of f] assms(2) by simp

lemma tally_map: "(\<And>x. f (g x) = f x) \<Longrightarrow> tally f (map g xs) = tally f xs"
  by (simp add: tally_def o_def)

lemma total_zeroD: "tally f xs = (0 :: nat) \<Longrightarrow> x \<in> set xs \<Longrightarrow> f x = 0"
  by (auto simp: tally_def sum_list_eq_0_iff)

lemma total_zero_other:
  assumes "tally f xs = (0 :: nat)" and "\<And>x. f x = 0 \<Longrightarrow> g x = 0"
  shows "tally g xs = 0"
  using assms by (induction xs) auto

lemma sint_of_nat: "n < 2 ^ 31 \<Longrightarrow> sint (of_nat n :: u32) = int n"
  by (simp add: sint_uint unsigned_of_nat take_bit_nat_eq_self signed_take_bit_int_eq_self)

section \<open>Inductive invariants of a step relation\<close>

inductive reachable :: "('s \<Rightarrow> bool) \<Rightarrow> ('s \<Rightarrow> 's \<Rightarrow> bool) \<Rightarrow> 's \<Rightarrow> bool"
  for init :: "'s \<Rightarrow> bool" and step :: "'s \<Rightarrow> 's \<Rightarrow> bool" where
  start: "init s \<Longrightarrow> reachable init step s"
| advance: "reachable init step s \<Longrightarrow> step s t \<Longrightarrow> reachable init step t"

text \<open>
  The interface between a concurrent component and the properties of its runs: an invariant
  that the initial states have and that every step keeps.
\<close>

locale inductive_invariant =
  fixes init :: "'s \<Rightarrow> bool"
    and step :: "'s \<Rightarrow> 's \<Rightarrow> bool"
    and inv :: "'s \<Rightarrow> bool"
  assumes init_inv: "init s \<Longrightarrow> inv s"
    and step_inv: "inv s \<Longrightarrow> step s t \<Longrightarrow> inv t"
begin

lemma reachable_inv: "reachable init step s \<Longrightarrow> inv s"
  by (induction rule: reachable.induct) (auto intro: init_inv step_inv)

lemma steps_inv: "step\<^sup>*\<^sup>* s t \<Longrightarrow> inv s \<Longrightarrow> inv t"
  by (induction rule: rtranclp_induct) (auto intro: step_inv)

end

end
