(* ===== verification/Linked_Lists.thy ===== *)
theory Linked_Lists
  imports Pool_Prelude
begin

text \<open>
  Singly linked lists in a heap. Both queues of the repository (the lanes of
  \<^verbatim>\<open>src/priority_queue.c\<close> and the FIFO of \<^verbatim>\<open>src/baseline/baseline.c\<close>) are chains of
  \<^verbatim>\<open>next\<close> pointers between a head and a tail pointer. A heap is seen here through its
  \<open>next\<close> field only: \<open>nx a\<close> is \<^term>\<open>None\<close> when \<open>a\<close> is not allocated and
  \<open>Some p\<close> when the node at \<open>a\<close> has the next pointer \<open>p\<close>.
\<close>

type_synonym links = "addr \<Rightarrow> ptr option"

primrec lseg :: "links \<Rightarrow> ptr \<Rightarrow> addr list \<Rightarrow> ptr \<Rightarrow> bool" where
  "lseg nx x [] y \<longleftrightarrow> x = y"
| "lseg nx x (a # as) y \<longleftrightarrow> x = Some a \<and> (case nx a of None \<Rightarrow> False | Some z \<Rightarrow> lseg nx z as y)"

text \<open>A lane: a chain that ends in NULL, with the tail pointer at its last node.\<close>

definition tail_of :: "addr list \<Rightarrow> ptr" where
  "tail_of as = (if as = [] then None else Some (last as))"

definition lane :: "links \<Rightarrow> ptr \<Rightarrow> ptr \<Rightarrow> addr list \<Rightarrow> bool" where
  "lane nx x e as \<longleftrightarrow> lseg nx x as None \<and> e = tail_of as \<and> distinct as"

lemma lseg_append [simp]:
  "lseg nx x (as @ bs) z \<longleftrightarrow> (\<exists>y. lseg nx x as y \<and> lseg nx y bs z)"
  by (induction as arbitrary: x) (auto split: option.splits)

lemma lseg_frame: "(\<And>a. a \<in> set as \<Longrightarrow> nx' a = nx a) \<Longrightarrow> lseg nx' x as y = lseg nx x as y"
  by (induction as arbitrary: x) (auto split: option.splits)

lemma lseg_upd [simp]: "a \<notin> set as \<Longrightarrow> lseg (nx(a := v)) x as y = lseg nx x as y"
  by (rule lseg_frame) auto

lemma lseg_allocated: "lseg nx x as y \<Longrightarrow> a \<in> set as \<Longrightarrow> nx a \<noteq> None"
  by (induction as arbitrary: x) (auto split: option.splits)

lemma lseg_head: "lseg nx x as None \<Longrightarrow> x = None \<longleftrightarrow> as = []"
  by (cases as) auto

lemma lseg_None [simp]: "lseg nx None as None \<longleftrightarrow> as = []"
  by (cases as) auto

lemma lseg_Some_iff:
  "lseg nx (Some a) as None \<longleftrightarrow>
     (\<exists>bs z. as = a # bs \<and> nx a = Some z \<and> lseg nx z bs None)"
  by (cases as) (auto split: option.splits)

lemma lseg_unique: "lseg nx x as None \<Longrightarrow> lseg nx x bs None \<Longrightarrow> as = bs"
proof (induction as arbitrary: x bs)
  case Nil
  then show ?case by simp
next
  case (Cons a as)
  then show ?case by (cases bs) (auto split: option.splits)
qed

lemma tail_of_Nil [simp]: "tail_of [] = None"
  by (simp add: tail_of_def)

lemma tail_of_snoc [simp]: "tail_of (as @ [a]) = Some a"
  by (simp add: tail_of_def)

lemma tail_of_None_iff [simp]: "tail_of as = None \<longleftrightarrow> as = []"
  by (simp add: tail_of_def)

lemma tail_of_append: "tail_of (as @ bs) = (if bs = [] then tail_of as else tail_of bs)"
  by (simp add: tail_of_def)

lemma lane_Nil [simp]: "lane nx x e [] \<longleftrightarrow> x = None \<and> e = None"
  by (auto simp: lane_def)

lemma lane_frame: "(\<And>a. a \<in> set as \<Longrightarrow> nx' a = nx a) \<Longrightarrow> lane nx' x e as = lane nx x e as"
  by (simp add: lane_def lseg_frame [of as nx' nx])

lemma lane_allocated: "lane nx x e as \<Longrightarrow> a \<in> set as \<Longrightarrow> nx a \<noteq> None"
  by (auto simp: lane_def dest: lseg_allocated)

lemma lane_head_None: "lane nx x e as \<Longrightarrow> x = None \<longleftrightarrow> as = []"
  by (auto simp: lane_def dest: lseg_head)

lemma lane_tail_None: "lane nx x e as \<Longrightarrow> e = None \<longleftrightarrow> as = []"
  by (auto simp: lane_def)

lemma lane_Cons_iff:
  "lane nx x e (a # as) \<longleftrightarrow>
     x = Some a \<and> e = Some (last (a # as)) \<and> a \<notin> set as \<and>
     (\<exists>z. nx a = Some z \<and> lane nx z (tail_of as) as)"
  by (auto simp: lane_def tail_of_def split: option.splits)

text \<open>The two ways a queue grows: appending behind the tail, pushing a chain before the head.\<close>

lemma lseg_snoc:
  assumes "lseg nx x (as @ [b]) None" and "distinct (as @ [b])" and "a \<notin> set (as @ [b])"
  shows "lseg (nx(b := Some (Some a), a := Some None)) x (as @ [b] @ [a]) None"
  using assms by (auto split: option.splits)

lemma lane_snoc:
  assumes "lane nx x (Some b) as" and "a \<notin> set as"
  shows "lane (nx(b := Some (Some a), a := Some None)) x (Some a) (as @ [a])"
proof -
  from assms(1) have "as \<noteq> []" and b: "b = last as"
    by (auto simp: lane_def tail_of_def split: if_splits)
  then have as: "as = butlast as @ [b]" by simp
  with assms have "lseg (nx(b := Some (Some a), a := Some None)) x (butlast as @ [b] @ [a]) None"
    by (intro lseg_snoc) (simp_all add: lane_def)
  with as have "lseg (nx(b := Some (Some a), a := Some None)) x (as @ [a]) None"
    by (metis append.assoc)
  with assms show ?thesis by (simp add: lane_def)
qed

end
