(* ===== verification/Task.thy ===== *)
theory Task
  imports Linked_Lists
begin

text \<open>
  \<^verbatim>\<open>include/task.h\<close> and \<^verbatim>\<open>src/task.c\<close>: the task node, its allocation with a fresh
  identifier from the global counter, its release and the printable priority names.
\<close>

section \<open>Data\<close>

text \<open>\<^verbatim>\<open>struct timespec\<close>: two \<^verbatim>\<open>long\<close>s.\<close>

record timespec =
  tv_sec :: int
  tv_nsec :: int

text \<open>
  \<^verbatim>\<open>enum task_priority\<close>. A C enumeration object holds any value of its integer type, and
  \<^verbatim>\<open>task_priority_str\<close> tests for values outside the enumeration, so a priority is an integer.
\<close>

type_synonym task_priority = int

definition PRIORITY_LOW :: task_priority where "PRIORITY_LOW = 0"
definition PRIORITY_MEDIUM :: task_priority where "PRIORITY_MEDIUM = 1"
definition PRIORITY_HIGH :: task_priority where "PRIORITY_HIGH = 2"
definition PRIORITY_COUNT :: task_priority where "PRIORITY_COUNT = 3"
definition NUM_PRIORITIES :: int where "NUM_PRIORITIES = PRIORITY_COUNT"

lemmas priority_defs [c_simps] =
  PRIORITY_LOW_def PRIORITY_MEDIUM_def PRIORITY_HIGH_def PRIORITY_COUNT_def NUM_PRIORITIES_def

record task_t =
  task_id :: u64
  func :: ptr
  arg :: ptr
  priority :: task_priority
  submit_time :: timespec
  task_next :: ptr

text \<open>The part of the C heap that holds task nodes; a freed node is no longer mapped.\<close>

type_synonym task_heap = "addr \<rightharpoonup> task_t"

definition links_of :: "task_heap \<Rightarrow> links" where
  "links_of h = (\<lambda>a. map_option task_next (h a))"

section \<open>Operations\<close>

text \<open>
  \<^verbatim>\<open>task_create\<close>: \<open>m\<close> is what \<^verbatim>\<open>malloc\<close> returns, \<open>cnt\<close> is \<^verbatim>\<open>g_task_id_count\<close>. The result
  is the returned pointer, the heap and the counter. A NULL function or a failed allocation
  returns NULL before the counter is touched.
\<close>

definition task_create ::
  "ptr \<Rightarrow> task_heap \<Rightarrow> u64 \<Rightarrow> ptr \<Rightarrow> ptr \<Rightarrow> task_priority \<Rightarrow> ptr \<times> task_heap \<times> u64" where
  "task_create m h cnt fn a p =
     (if fn = None then (None, h, cnt)
      else case m of
        None \<Rightarrow> (None, h, cnt)
      | Some new_task \<Rightarrow>
          (let new_id = cnt in
           (Some new_task,
            h(new_task \<mapsto> \<lparr>task_id = new_id, func = fn, arg = a, priority = p,
                submit_time = \<lparr>tv_sec = 0, tv_nsec = 0\<rparr>, task_next = None\<rparr>),
            cnt + 1)))"

text \<open>\<^verbatim>\<open>task_destroy\<close> is \<^verbatim>\<open>free\<close>: nothing for NULL, a fault for a pointer that is not live.\<close>

definition task_destroy :: "task_heap \<Rightarrow> ptr \<Rightarrow> task_heap option" where
  "task_destroy h t =
     (case t of None \<Rightarrow> Some h
      | Some a \<Rightarrow> (case h a of None \<Rightarrow> None | Some _ \<Rightarrow> Some (h(a := None))))"

definition g_task_priority_str :: "string list" where
  "g_task_priority_str = [''LOW'', ''MEDIUM'', ''HIGH'']"

definition task_priority_str :: "task_priority \<Rightarrow> string option" where
  "task_priority_str p =
     (if p < 0 \<or> p \<ge> NUM_PRIORITIES then Some ''UNKNOWN''
      else array_get g_task_priority_str p)"

section \<open>Lemmas\<close>

lemma links_of_upd [simp]: "links_of (h(a \<mapsto> t)) = (links_of h)(a := Some (task_next t))"
  by (auto simp: links_of_def)

lemma links_of_delete [simp]: "links_of (h(a := None)) = (links_of h)(a := None)"
  by (auto simp: links_of_def)

lemma links_of_None_iff [simp]: "links_of h a = None \<longleftrightarrow> h a = None"
  by (simp add: links_of_def)

lemma links_of_Some_iff: "links_of h a = Some z \<longleftrightarrow> (\<exists>t. h a = Some t \<and> task_next t = z)"
  by (auto simp: links_of_def)

lemma task_destroy_live [c_simps]: "h a = Some t \<Longrightarrow> task_destroy h (Some a) = Some (h(a := None))"
  by (simp add: task_destroy_def)

text \<open>A run of successful creations: the nodes come from successive allocations.\<close>

fun create_all ::
  "task_heap \<Rightarrow> u64 \<Rightarrow> (addr \<times> ptr \<times> ptr \<times> task_priority) list \<Rightarrow> u64 list" where
  "create_all h cnt [] = []"
| "create_all h cnt ((new, fn, a, p) # rs) =
     (case task_create (Some new) h cnt fn a p of
        (t, h', cnt') \<Rightarrow>
          (case Option.bind t h' of
             None \<Rightarrow> create_all h' cnt' rs
           | Some node \<Rightarrow> task_id node # create_all h' cnt' rs))"

abbreviation callable :: "(addr \<times> ptr \<times> ptr \<times> task_priority) \<Rightarrow> bool" where
  "callable r \<equiv> fst (snd r) \<noteq> None"

lemma create_all_ids:
  "create_all h cnt rs = map (\<lambda>i. cnt + of_nat i) [0 ..< length (filter callable rs)]"
proof (induction rs arbitrary: h cnt)
  case Nil
  then show ?case by simp
next
  case (Cons r rs)
  obtain new fn a p where r: "r = (new, fn, a, p)" by (cases r)
  show ?case
  proof (cases fn)
    case None
    with Cons r show ?thesis by (simp add: task_create_def)
  next
    case (Some f)
    have "map (\<lambda>i. cnt + of_nat i) [0 ..< Suc n] = cnt # map (\<lambda>i. (cnt + 1) + of_nat i) [0 ..< n]" for n
      by (simp add: upt_conv_Cons map_Suc_upt [symmetric] del: upt_Suc)
    moreover have "create_all h cnt (r # rs) =
        cnt # map (\<lambda>i. (cnt + 1) + of_nat i) [0 ..< length (filter callable rs)]"
      using Some r Cons by (simp add: task_create_def)
    ultimately show ?thesis using Some r by (simp del: upt_Suc create_all.simps)
  qed
qed

text \<open>
  The ids that \<^verbatim>\<open>task_create\<close> takes from \<^verbatim>\<open>g_task_id_count\<close> are pairwise distinct for any
  sequence of at most \<open>2 ^ 64\<close> calls, whatever value the counter starts with; calls without a
  function create no task and use no id.
\<close>

theorem task_ids_distinct:
  assumes "length rs \<le> 2 ^ 64"
  shows "distinct (create_all h cnt rs)"
proof -
  let ?n = "length (filter callable rs)"
  have n: "?n \<le> 2 ^ 64" using assms length_filter_le order_trans by blast
  have "inj_on (\<lambda>i. cnt + of_nat i :: u64) {0 ..< ?n}"
  proof (rule inj_onI)
    fix i j assume "i \<in> {0 ..< ?n}" "j \<in> {0 ..< ?n}" and eq: "cnt + of_nat i = cnt + of_nat j"
    then have "i < 2 ^ LENGTH(64)" "j < 2 ^ LENGTH(64)" using n by auto
    with eq show "i = j" by (simp add: word_of_nat_inject)
  qed
  then show ?thesis by (simp add: create_all_ids distinct_map)
qed

theorem task_ids_distinct_witness:
  "distinct (create_all Map.empty (- 1) [(1, Some 7, None, 0), (2, None, None, 1), (3, Some 7, None, 2)])"
  by (rule task_ids_distinct) simp

end
