(* ===== verification/Pthread.thy ===== *)
theory Pthread
  imports Pool_Prelude
begin

text \<open>
  The part of POSIX threads that one call of the code can observe on its own: a mutex is
  uninitialised, free or held, a condition variable is uninitialised or live. Locking a held
  mutex, unlocking a free one, destroying a held one and using an uninitialised object are
  faults; a live condition variable records the wakeups sent to it, the latest first, so that
  a missing \<^verbatim>\<open>pthread_cond_signal\<close> shows in the state. Blocking, which needs a second thread,
  belongs to the step relations of the pools.
\<close>

datatype mutex = MUninit | MFree | MHeld

datatype wake = Signal | Broadcast

datatype cond = CUninit | CLive "wake list"

definition mutex_lock :: "mutex \<Rightarrow> mutex option" where
  "mutex_lock m = (case m of MFree \<Rightarrow> Some MHeld | _ \<Rightarrow> None)"

definition mutex_unlock :: "mutex \<Rightarrow> mutex option" where
  "mutex_unlock m = (case m of MHeld \<Rightarrow> Some MFree | _ \<Rightarrow> None)"

definition mutex_destroy :: "mutex \<Rightarrow> mutex option" where
  "mutex_destroy m = (case m of MFree \<Rightarrow> Some MUninit | _ \<Rightarrow> None)"

definition cond_signal :: "cond \<Rightarrow> cond option" where
  "cond_signal c = (case c of CLive ws \<Rightarrow> Some (CLive (Signal # ws)) | CUninit \<Rightarrow> None)"

definition cond_broadcast :: "cond \<Rightarrow> cond option" where
  "cond_broadcast c = (case c of CLive ws \<Rightarrow> Some (CLive (Broadcast # ws)) | CUninit \<Rightarrow> None)"

definition cond_destroy :: "cond \<Rightarrow> cond option" where
  "cond_destroy c = (case c of CLive _ \<Rightarrow> Some CUninit | CUninit \<Rightarrow> None)"

lemma mutex_simps [c_simps, simp]:
  "mutex_lock MFree = Some MHeld"
  "mutex_lock MHeld = None"
  "mutex_lock MUninit = None"
  "mutex_unlock MHeld = Some MFree"
  "mutex_unlock MFree = None"
  "mutex_unlock MUninit = None"
  "mutex_destroy MFree = Some MUninit"
  "mutex_destroy MHeld = None"
  "mutex_destroy MUninit = None"
  by (simp_all add: mutex_lock_def mutex_unlock_def mutex_destroy_def)

lemma cond_simps [c_simps, simp]:
  "cond_signal (CLive ws) = Some (CLive (Signal # ws))"
  "cond_signal CUninit = None"
  "cond_broadcast (CLive ws) = Some (CLive (Broadcast # ws))"
  "cond_broadcast CUninit = None"
  "cond_destroy (CLive ws) = Some CUninit"
  "cond_destroy CUninit = None"
  by (simp_all add: cond_signal_def cond_broadcast_def cond_destroy_def)

end
