(* ===== verification/Lanes_Spec.thy ===== *)
theory Lanes_Spec
  imports Pool_Prelude
begin

text \<open>
  What a task queue promises, without pointers: an array of FIFO lanes, the lane of the
  highest index first. A plain FIFO queue is the case of one lane. The locale
  \<open>priority_lanes\<close> is the interface that the clients of a queue (the worker loops of both
  pools) rely on; \<open>Priority_Queue\<close> and \<open>Baseline_Queue\<close> interpret it on the code's queues.
\<close>

type_synonym 'n lanes = "'n list list"

fun top_below :: "nat \<Rightarrow> 'n lanes \<Rightarrow> nat option" where
  "top_below 0 L = None"
| "top_below (Suc n) L = (if L ! n \<noteq> [] then Some n else top_below n L)"

definition top_lane :: "'n lanes \<Rightarrow> nat option" where
  "top_lane L = top_below (length L) L"

definition lanes_push :: "nat \<Rightarrow> 'n \<Rightarrow> 'n lanes \<Rightarrow> 'n lanes" where
  "lanes_push p x L = L[p := L ! p @ [x]]"

definition lanes_pop :: "'n lanes \<Rightarrow> ('n \<times> 'n lanes) option" where
  "lanes_pop L =
     (case top_lane L of None \<Rightarrow> None | Some p \<Rightarrow> Some (hd (L ! p), L[p := tl (L ! p)]))"

definition lanes_promote :: "nat \<Rightarrow> nat \<Rightarrow> ('n \<Rightarrow> bool) \<Rightarrow> 'n lanes \<Rightarrow> 'n lanes" where
  "lanes_promote src dst P L =
     L[src := dropWhile P (L ! src), dst := takeWhile P (L ! src) @ L ! dst]"

text \<open>The order in which a queue that gets no more pushes is served.\<close>

definition serve_order :: "'n lanes \<Rightarrow> 'n list" where
  "serve_order L = concat (rev L)"

lemma top_below_None: "top_below n L = None \<longleftrightarrow> (\<forall>p < n. L ! p = [])"
  by (induction n) (auto simp: less_Suc_eq)

lemma top_below_Some:
  "top_below n L = Some p \<longleftrightarrow> p < n \<and> L ! p \<noteq> [] \<and> (\<forall>q. p < q \<and> q < n \<longrightarrow> L ! q = [])"
  by (induction n) (auto simp: less_Suc_eq)

lemma top_lane_None: "top_lane L = None \<longleftrightarrow> concat L = []"
  by (simp add: top_lane_def top_below_None concat_eq_Nil_conv all_set_conv_all_nth)

lemma top_lane_Some:
  "top_lane L = Some p \<longleftrightarrow>
     p < length L \<and> L ! p \<noteq> [] \<and> (\<forall>q. p < q \<and> q < length L \<longrightarrow> L ! q = [])"
  by (simp add: top_lane_def top_below_Some)

lemma length_lanes_push [simp]: "length (lanes_push p x L) = length L"
  by (simp add: lanes_push_def)

lemma lanes_pop_None: "lanes_pop L = None \<longleftrightarrow> concat L = []"
  using top_lane_None [of L] by (cases "top_lane L") (simp_all add: lanes_pop_def)

lemma lanes_pop_Some:
  "lanes_pop L = Some (x, L') \<longleftrightarrow>
     (\<exists>p xs. top_lane L = Some p \<and> L ! p = x # xs \<and> L' = L[p := xs])"
proof (cases "top_lane L")
  case None
  then show ?thesis by (simp add: lanes_pop_def)
next
  case (Some p)
  then have "L ! p \<noteq> []" by (simp add: top_lane_Some)
  with Some show ?thesis by (cases "L ! p") (auto simp: lanes_pop_def)
qed

lemma mset_serve_order [simp]: "mset (serve_order L) = mset (concat L)"
  by (induction L) (auto simp: serve_order_def)

lemma length_serve_order: "length (serve_order L) = length (concat L)"
  using mset_serve_order [of L] by (metis size_mset)

lemma serve_order_Nil: "serve_order L = [] \<longleftrightarrow> concat L = []"
  by (metis mset_serve_order mset_zero_iff)

lemma serve_order_top:
  assumes "top_lane L = Some p"
  shows "serve_order (L[p := xs]) = xs @ serve_order (take p L)"
proof -
  from assms have p: "p < length L" and empty: "\<And>q. p < q \<Longrightarrow> q < length L \<Longrightarrow> L ! q = []"
    by (auto simp: top_lane_Some)
  have "concat (rev (drop (Suc p) L)) = []"
    using empty by (auto simp: in_set_conv_nth)
  with p show ?thesis
    by (simp add: serve_order_def upd_conv_take_nth_drop)
qed

text \<open>A pop takes the head of the serving order.\<close>

lemma serve_order_pop:
  assumes "lanes_pop L = Some (x, L')"
  shows "serve_order L = x # serve_order L'"
proof -
  from assms obtain p xs where p: "top_lane L = Some p" "L ! p = x # xs" "L' = L[p := xs]"
    by (auto simp: lanes_pop_Some)
  have "serve_order L = serve_order (L[p := L ! p])" by simp
  with p serve_order_top [OF p(1)] show ?thesis by simp
qed

lemma mset_lanes_push: "p < length L \<Longrightarrow> mset (concat (lanes_push p x L)) = add_mset x (mset (concat L))"
  using mset_concat_update [of p L "L ! p @ [x]"] by (simp add: lanes_push_def)

lemma mset_lanes_pop: "lanes_pop L = Some (x, L') \<Longrightarrow> mset (concat L) = add_mset x (mset (concat L'))"
  by (metis mset_serve_order serve_order_pop mset.simps(2))

lemma length_lanes_pop: "lanes_pop L = Some (x, L') \<Longrightarrow> length L' = length L"
  by (auto simp: lanes_pop_Some)

lemma mset_lanes_promote:
  assumes "src < length L" and "dst < length L" and "src \<noteq> dst"
  shows "mset (concat (lanes_promote src dst P L)) = mset (concat L)"
proof -
  let ?L = "L[src := dropWhile P (L ! src)]"
  have "mset (concat ?L) + mset (L ! src) = mset (concat L) + mset (dropWhile P (L ! src))"
    using assms(1) by (rule mset_concat_update)
  moreover have "mset (concat (?L[dst := takeWhile P (L ! src) @ L ! dst])) + mset (?L ! dst) =
      mset (concat ?L) + mset (takeWhile P (L ! src) @ L ! dst)"
    using assms(2) by (intro mset_concat_update) simp
  moreover have "mset (L ! src) = mset (takeWhile P (L ! src)) + mset (dropWhile P (L ! src))"
    by (metis mset_append takeWhile_dropWhile_id)
  ultimately show ?thesis using assms(3)
    by (simp add: lanes_promote_def ac_simps)
qed

lemma size_concat_mset: "mset (concat L) = mset (concat L') \<Longrightarrow> length (concat L) = length (concat L')"
  by (metis size_mset)

text \<open>Pushing a batch appends to every lane the elements meant for it, in the order pushed.\<close>

lemma foldl_lanes_push:
  "(\<forall>x \<in> set xs. f x < length L) \<Longrightarrow>
     foldl (\<lambda>L x. lanes_push (f x) x L) L xs =
     map (\<lambda>p. L ! p @ filter (\<lambda>x. f x = p) xs) [0 ..< length L]"
proof (induction xs arbitrary: L)
  case Nil
  then show ?case by (simp add: map_nth)
next
  case (Cons x xs)
  have "foldl (\<lambda>L x. lanes_push (f x) x L) L (x # xs) =
      map (\<lambda>p. lanes_push (f x) x L ! p @ filter (\<lambda>x. f x = p) xs) [0 ..< length L]"
    using Cons by simp
  also have "\<dots> = map (\<lambda>p. L ! p @ filter (\<lambda>x. f x = p) (x # xs)) [0 ..< length L]"
    using Cons.prems by (auto simp: lanes_push_def nth_list_update)
  finally show ?case .
qed

section \<open>The queue interface\<close>

text \<open>Pop until the queue reports empty, at most \<open>n\<close> times; \<^term>\<open>None\<close> is a fault of a pop.\<close>

fun drain_with :: "('q \<Rightarrow> ('n option \<times> 'q) option) \<Rightarrow> nat \<Rightarrow> 'q \<Rightarrow> ('n list \<times> 'q) option" where
  "drain_with pop 0 q = Some ([], q)"
| "drain_with pop (Suc n) q =
     (case pop q of
        None \<Rightarrow> None
      | Some (None, q') \<Rightarrow> Some ([], q')
      | Some (Some x, q') \<Rightarrow>
          (case drain_with pop n q' of None \<Rightarrow> None | Some (xs, q'') \<Rightarrow> Some (x # xs, q'')))"

fun push_with :: "('q \<Rightarrow> 'n \<Rightarrow> 'q option) \<Rightarrow> 'q \<Rightarrow> 'n list \<Rightarrow> 'q option" where
  "push_with push q [] = Some q"
| "push_with push q (x # xs) = Option.bind (push q x) (\<lambda>q'. push_with push q' xs)"

text \<open>A batch for one lane of an empty queue is served in the order of its pushes.\<close>

lemma serve_order_one_lane:
  assumes "concat L = []" and "p < length L"
  shows "serve_order (foldl (\<lambda>L x. lanes_push p x L) (L[p := ys]) xs) = ys @ xs"
  using assms
proof (induction xs arbitrary: ys)
  case Nil
  then have "concat (rev (take p L)) = []" "concat (rev (drop (Suc p) L)) = []"
    by (auto dest: in_set_takeD in_set_dropD)
  then show ?case using Nil(2) by (simp add: serve_order_def upd_conv_take_nth_drop del: concat_eq_Nil_conv)
next
  case (Cons x xs)
  then have "lanes_push p x (L[p := ys]) = L[p := ys @ [x]]" by (simp add: lanes_push_def)
  with Cons show ?case by simp
qed

locale priority_lanes =
  fixes rep :: "'q \<Rightarrow> 'n lanes \<Rightarrow> bool"
    and lane_of :: "'q \<Rightarrow> 'n \<Rightarrow> nat option"
    and push :: "'q \<Rightarrow> 'n \<Rightarrow> 'q option"
    and pop :: "'q \<Rightarrow> ('n option \<times> 'q) option"
  assumes rep_distinct: "rep q L \<Longrightarrow> distinct (concat L)"
    and lane_bound: "rep q L \<Longrightarrow> lane_of q x = Some p \<Longrightarrow> p < length L"
    and push_law: "rep q L \<Longrightarrow> lane_of q x = Some p \<Longrightarrow> x \<notin> set (concat L) \<Longrightarrow>
      \<exists>q'. push q x = Some q' \<and> rep q' (lanes_push p x L) \<and> lane_of q' = lane_of q"
    and pop_empty_law: "rep q L \<Longrightarrow> lanes_pop L = None \<Longrightarrow>
      \<exists>q'. pop q = Some (None, q') \<and> rep q' L \<and> lane_of q' = lane_of q"
    and pop_law: "rep q L \<Longrightarrow> lanes_pop L = Some (x, L') \<Longrightarrow>
      \<exists>q'. pop q = Some (Some x, q') \<and> rep q' L' \<and> lane_of q' = lane_of q"
begin

text \<open>Draining serves every queued element once, high lanes first, in FIFO order per lane.\<close>

lemma drain_serves:
  "rep q L \<Longrightarrow> length (concat L) < n \<Longrightarrow>
     \<exists>q' L'. drain_with pop n q = Some (serve_order L, q') \<and> rep q' L' \<and> concat L' = []"
proof (induction n arbitrary: q L)
  case 0
  then show ?case by simp
next
  case (Suc n)
  show ?case
  proof (cases "lanes_pop L")
    case None
    with Suc.prems(1) obtain q' where "pop q = Some (None, q')" "rep q' L"
      using pop_empty_law by blast
    moreover have "concat L = []" using None by (simp only: lanes_pop_None)
    moreover from this have "serve_order L = []" by (simp only: serve_order_Nil)
    ultimately show ?thesis by auto
  next
    case (Some xL)
    then obtain x L' where xL: "lanes_pop L = Some (x, L')" by (cases xL) auto
    with Suc.prems(1) obtain q' where q': "pop q = Some (Some x, q')" "rep q' L'"
      using pop_law by blast
    from xL have "length (concat L) = Suc (length (concat L'))"
      by (metis mset_lanes_pop size_mset size_add_mset)
    with Suc.prems(2) have "length (concat L') < n" by simp
    with Suc.IH [OF q'(2)] q'(1) xL show ?thesis
      by (fastforce simp: serve_order_pop)
  qed
qed

text \<open>Pushing a batch of new elements appends each to its lane, in order.\<close>

lemma push_batch:
  "rep q L \<Longrightarrow> distinct xs \<Longrightarrow> set xs \<inter> set (concat L) = {} \<Longrightarrow>
   (\<forall>x \<in> set xs. lane_of q x \<noteq> None) \<Longrightarrow>
   \<exists>q'. push_with push q xs = Some q' \<and>
     rep q' (foldl (\<lambda>L x. lanes_push (the (lane_of q x)) x L) L xs) \<and> lane_of q' = lane_of q"
proof (induction xs arbitrary: q L)
  case Nil
  then show ?case by simp
next
  case (Cons x xs)
  then obtain p where p: "lane_of q x = Some p" by auto
  with Cons.prems obtain q1 where q1: "push q x = Some q1" "rep q1 (lanes_push p x L)"
    "lane_of q1 = lane_of q"
    using push_law [of q L x p] by auto
  have "p < length L" using lane_bound Cons.prems(1) p .
  then have "set (concat (lanes_push p x L)) = insert x (set (concat L))"
    by (metis mset_lanes_push set_mset_add_mset_insert set_mset_mset)
  with Cons.prems have "set xs \<inter> set (concat (lanes_push p x L)) = {}" by auto
  with Cons.IH [OF q1(2)] Cons.prems q1 p show ?case by auto
qed

text \<open>First in, first out, for a batch that goes to one lane of an empty queue.\<close>

lemma one_lane_fifo:
  assumes rep: "rep q L" and empty: "concat L = []" and xs: "distinct xs" "\<forall>x \<in> set xs. lane_of q x = Some p"
  shows "\<exists>q1 q2. push_with push q xs = Some q1 \<and> drain_with pop (Suc (length xs)) q1 = Some (xs, q2)"
proof -
  let ?L = "foldl (\<lambda>L x. lanes_push (the (lane_of q x)) x L) L xs"
  obtain q1 where q1: "push_with push q xs = Some q1" "rep q1 ?L"
    using push_batch [OF rep xs(1)] empty xs(2) by auto
  have "?L = foldl (\<lambda>L x. lanes_push p x L) L xs" using xs(2) by (intro foldl_cong) simp_all
  moreover have "serve_order (foldl (\<lambda>L x. lanes_push p x L) L xs) = xs"
  proof (cases "p < length L")
    case True
    then have "L ! p = []" using empty by simp
    then have "L[p := []] = L" by (metis list_update_id)
    with serve_order_one_lane [OF empty True, of "[]" xs] show ?thesis by simp
  next
    case False
    then have "xs = []" using xs(2) lane_bound [OF rep] by (cases xs) auto
    then show ?thesis using empty by (simp only: serve_order_Nil foldl_Nil)
  qed
  ultimately have order: "serve_order ?L = xs" by simp
  then have "length (concat ?L) < Suc (length xs)" using length_serve_order [of ?L] by simp
  from drain_serves [OF q1(2) this] q1(1) order show ?thesis by auto
qed

end

end
