(* ===== verification/Priority_Queue.thy ===== *)
theory Priority_Queue
  imports Task Pthread Lanes_Spec
begin

text \<open>
  \<^verbatim>\<open>include/priority_queue.h\<close> and \<^verbatim>\<open>src/priority_queue.c\<close> without the aging scan (theory
  \<open>Aging\<close>): three FIFO lanes of task nodes with head and tail pointers, a bit mask of the
  non-empty lanes, the element count, its lock-free mirror and the capacity.

  Each function of the C file is one definition over the task heap and the queue object. A
  pointer argument is an \<open>option\<close>, so the NULL guards of the source are branches here. The
  queue mutex and condition variable are part of the object: a path that leaves the function
  without releasing the lock, or that forgets the wakeup, ends in a different state. Between
  \<^verbatim>\<open>pthread_mutex_lock\<close> and \<^verbatim>\<open>pthread_mutex_unlock\<close> no other thread runs on the object, so a
  function is one transition of the queue.
\<close>

section \<open>Data\<close>

definition PQ_BITMASK_BITS :: int where "PQ_BITMASK_BITS = 32"

record priority_queue_t =
  heads :: "ptr list"
  tails :: "ptr list"
  ready_mask :: u32
  pq_count :: u64
  depth :: u64
  max_tasks :: u64
  pq_mutex :: mutex
  not_empty :: cond

section \<open>The ready mask\<close>

text \<open>
  \<^verbatim>\<open>ready_mask |= 1UL << p\<close> and \<^verbatim>\<open>ready_mask &= ~(1UL << p)\<close>: the shift is a 64-bit one and
  the result is stored in 32 bits. A shift by a negative or too large amount is a fault.
\<close>

definition shift_1UL :: "int \<Rightarrow> u64 option" where
  "shift_1UL p = (if 0 \<le> p \<and> p < 64 then Some (push_bit (nat p) 1) else None)"

definition mask_set :: "u32 \<Rightarrow> int \<Rightarrow> u32 option" where
  "mask_set m p = do { b \<leftarrow> shift_1UL p; Some (ucast (ucast m OR b)) }"

definition mask_clear :: "u32 \<Rightarrow> int \<Rightarrow> u32 option" where
  "mask_clear m p = do { b \<leftarrow> shift_1UL p; Some (ucast (ucast m AND NOT b)) }"

text \<open>\<^verbatim>\<open>__builtin_clz\<close> counts the zero bits above the highest set bit.\<close>

primrec clz_below :: "nat \<Rightarrow> u32 \<Rightarrow> nat" where
  "clz_below 0 m = 0"
| "clz_below (Suc n) m = (if bit m n then 0 else Suc (clz_below n m))"

definition builtin_clz :: "u32 \<Rightarrow> int" where
  "builtin_clz m = int (clz_below 32 m)"

definition get_highest_priority :: "u32 \<Rightarrow> int option" where
  "get_highest_priority m =
     (if m = 0 then None else Some (PQ_BITMASK_BITS - builtin_clz m - 1))"

definition shutdown_requested :: "bool option \<Rightarrow> bool" where
  "shutdown_requested flag = (case flag of None \<Rightarrow> False | Some b \<Rightarrow> b)"

section \<open>Operations\<close>

definition pq_lock :: "priority_queue_t \<Rightarrow> priority_queue_t option" where
  "pq_lock pq = do { m \<leftarrow> mutex_lock (pq_mutex pq); Some (pq\<lparr>pq_mutex := m\<rparr>) }"

definition pq_unlock :: "priority_queue_t \<Rightarrow> priority_queue_t option" where
  "pq_unlock pq = do { m \<leftarrow> mutex_unlock (pq_mutex pq); Some (pq\<lparr>pq_mutex := m\<rparr>) }"

definition pq_signal :: "priority_queue_t \<Rightarrow> priority_queue_t option" where
  "pq_signal pq = do { c \<leftarrow> cond_signal (not_empty pq); Some (pq\<lparr>not_empty := c\<rparr>) }"

definition pq_broadcast :: "priority_queue_t \<Rightarrow> priority_queue_t option" where
  "pq_broadcast pq = do { c \<leftarrow> cond_broadcast (not_empty pq); Some (pq\<lparr>not_empty := c\<rparr>) }"

text \<open>The zeroed object after \<^verbatim>\<open>memset\<close>.\<close>

definition pq_zero :: priority_queue_t where
  "pq_zero = \<lparr>heads = [None, None, None], tails = [None, None, None], ready_mask = 0,
     pq_count = 0, depth = 0, max_tasks = 0, pq_mutex = MUninit, not_empty = CUninit\<rparr>"

text \<open>\<open>mutex_rc\<close> and \<open>cond_rc\<close> are the return codes of the two \<^verbatim>\<open>pthread\<close> initialisers.\<close>

definition pq_init ::
  "int \<Rightarrow> int \<Rightarrow> priority_queue_t option \<Rightarrow> (int \<times> priority_queue_t option) option" where
  "pq_init mutex_rc cond_rc pqp =
     (case pqp of
        None \<Rightarrow> Some (-1, None)
      | Some _ \<Rightarrow>
          if mutex_rc \<noteq> 0 then Some (-1, Some pq_zero)
          else (let pq = pq_zero\<lparr>pq_mutex := MFree\<rparr> in
            if cond_rc \<noteq> 0 then do {
              m \<leftarrow> mutex_destroy (pq_mutex pq);
              Some (-1, Some (pq\<lparr>pq_mutex := m\<rparr>)) }
            else Some (0, Some (pq\<lparr>not_empty := CLive []\<rparr>))))"

text \<open>The inner loop of \<^verbatim>\<open>pq_destroy\<close>: read the next pointer, free the node, go on.\<close>

partial_function (option) free_lane :: "task_heap \<Rightarrow> ptr \<Rightarrow> task_heap option" where
  "free_lane h cur =
     (case cur of
        None \<Rightarrow> Some h
      | Some a \<Rightarrow> Option.bind (h a) (\<lambda>t.
          Option.bind (task_destroy h (Some a)) (\<lambda>h'. free_lane h' (task_next t))))"

text \<open>Its outer loop, over the priorities \<open>p, p + 1, \<dots>\<close> below \<^verbatim>\<open>NUM_PRIORITIES\<close>.\<close>

fun free_lanes ::
  "nat \<Rightarrow> task_heap \<Rightarrow> priority_queue_t \<Rightarrow> int \<Rightarrow> (task_heap \<times> priority_queue_t) option" where
  "free_lanes 0 h pq p = Some (h, pq)"
| "free_lanes (Suc n) h pq p = do {
     cur \<leftarrow> array_get (heads pq) p;
     h \<leftarrow> free_lane h cur;
     tls \<leftarrow> array_set (tails pq) p None;
     hds \<leftarrow> array_set (heads pq) p None;
     free_lanes n h (pq\<lparr>tails := tls, heads := hds\<rparr>) (p + 1) }"

definition pq_destroy ::
  "task_heap \<Rightarrow> priority_queue_t option \<Rightarrow> (task_heap \<times> priority_queue_t option) option" where
  "pq_destroy h pqp =
     (case pqp of
        None \<Rightarrow> Some (h, None)
      | Some pq \<Rightarrow> do {
          pq \<leftarrow> pq_lock pq;
          (h, pq) \<leftarrow> free_lanes (nat NUM_PRIORITIES) h pq 0;
          let pq = pq\<lparr>pq_count := 0, ready_mask := 0\<rparr>;
          let pq = pq\<lparr>depth := 0\<rparr>;
          pq \<leftarrow> pq_unlock pq;
          c \<leftarrow> cond_destroy (not_empty pq);
          m \<leftarrow> mutex_destroy (pq_mutex pq);
          Some (h, Some (pq\<lparr>not_empty := c, pq_mutex := m\<rparr>)) })"

text \<open>\<^verbatim>\<open>_pq_insert_locked\<close>.\<close>

definition pq_insert_locked ::
  "task_heap \<Rightarrow> priority_queue_t \<Rightarrow> addr \<Rightarrow> (task_heap \<times> priority_queue_t) option" where
  "pq_insert_locked h pq task = do {
     t \<leftarrow> h task;
     let p = priority t;
     let h = h(task \<mapsto> t\<lparr>task_next := None\<rparr>);
     tl \<leftarrow> array_get (tails pq) p;
     (h, pq) \<leftarrow>
       (case tl of
          None \<Rightarrow> do {
            tls \<leftarrow> array_set (tails pq) p (Some task);
            hds \<leftarrow> array_set (heads pq) p (Some task);
            Some (h, pq\<lparr>tails := tls, heads := hds\<rparr>) }
        | Some b \<Rightarrow> do {
            last_node \<leftarrow> h b;
            let h = h(b \<mapsto> last_node\<lparr>task_next := Some task\<rparr>);
            tls \<leftarrow> array_set (tails pq) p (Some task);
            Some (h, pq\<lparr>tails := tls\<rparr>) });
     m \<leftarrow> mask_set (ready_mask pq) p;
     let pq = pq\<lparr>ready_mask := m\<rparr>;
     let pq = pq\<lparr>pq_count := pq_count pq + 1\<rparr>;
     let pq = pq\<lparr>depth := depth pq + 1\<rparr>;
     Some (h, pq) }"

definition pq_push ::
  "task_heap \<Rightarrow> priority_queue_t option \<Rightarrow> ptr \<Rightarrow> (task_heap \<times> priority_queue_t option) option"
where
  "pq_push h pqp task =
     (case (pqp, task) of
        (Some pq, Some t) \<Rightarrow> do {
          pq \<leftarrow> pq_lock pq;
          (h, pq) \<leftarrow> pq_insert_locked h pq t;
          pq \<leftarrow> pq_unlock pq;
          pq \<leftarrow> pq_signal pq;
          Some (h, Some pq) }
      | _ \<Rightarrow> Some (h, pqp))"

definition pq_try_push ::
  "task_heap \<Rightarrow> priority_queue_t option \<Rightarrow> ptr \<Rightarrow> (bool \<times> task_heap \<times> priority_queue_t option) option"
where
  "pq_try_push h pqp task =
     (case (pqp, task) of
        (Some pq, Some t) \<Rightarrow> do {
          pq \<leftarrow> pq_lock pq;
          let cap = max_tasks pq;
          if cap \<noteq> 0 \<and> pq_count pq \<ge> cap
          then do {
            pq \<leftarrow> pq_unlock pq;
            Some (False, h, Some pq) }
          else do {
            (h, pq) \<leftarrow> pq_insert_locked h pq t;
            pq \<leftarrow> pq_unlock pq;
            pq \<leftarrow> pq_signal pq;
            Some (True, h, Some pq) } }
      | _ \<Rightarrow> Some (False, h, pqp))"

definition pq_set_max_tasks :: "priority_queue_t option \<Rightarrow> u64 \<Rightarrow> priority_queue_t option" where
  "pq_set_max_tasks pqp n = (case pqp of None \<Rightarrow> None | Some pq \<Rightarrow> Some (pq\<lparr>max_tasks := n\<rparr>))"

definition pq_is_full_approx :: "priority_queue_t option \<Rightarrow> bool" where
  "pq_is_full_approx pqp =
     (case pqp of
        None \<Rightarrow> False
      | Some pq \<Rightarrow>
          (let cap = max_tasks pq in if cap = 0 then False else depth pq \<ge> cap))"

text \<open>\<^verbatim>\<open>_pq_pop_locked\<close>.\<close>

definition pq_pop_locked ::
  "task_heap \<Rightarrow> priority_queue_t \<Rightarrow> int \<Rightarrow> (addr \<times> task_heap \<times> priority_queue_t) option" where
  "pq_pop_locked h pq p = do {
     hd0 \<leftarrow> array_get (heads pq) p;
     task \<leftarrow> hd0;
     t \<leftarrow> h task;
     hds \<leftarrow> array_set (heads pq) p (task_next t);
     let pq = pq\<lparr>heads := hds\<rparr>;
     hd1 \<leftarrow> array_get (heads pq) p;
     pq \<leftarrow>
       (if hd1 = None then do {
          tls \<leftarrow> array_set (tails pq) p None;
          m \<leftarrow> mask_clear (ready_mask pq) p;
          Some (pq\<lparr>tails := tls, ready_mask := m\<rparr>) }
        else Some pq);
     let h = h(task \<mapsto> t\<lparr>task_next := None\<rparr>);
     let pq = pq\<lparr>pq_count := pq_count pq - 1\<rparr>;
     let pq = pq\<lparr>depth := depth pq - 1\<rparr>;
     Some (task, h, pq) }"

text \<open>
  The blocking pop. One call runs the loop body once with the lock held: it returns a task,
  returns NULL because shutdown was requested on an empty queue, or blocks in
  \<^verbatim>\<open>pthread_cond_wait\<close>, which gives the lock back. A woken thread takes the lock and runs the
  same body again, so the loop is the repetition of this definition.
\<close>

datatype pop_result = PopTask addr | PopNull | PopWait

definition pq_pop_until_shutdown ::
  "task_heap \<Rightarrow> priority_queue_t option \<Rightarrow> bool option \<Rightarrow>
     (pop_result \<times> task_heap \<times> priority_queue_t option) option" where
  "pq_pop_until_shutdown h pqp flag =
     (case pqp of
        None \<Rightarrow> Some (PopNull, h, None)
      | Some pq \<Rightarrow> do {
          pq \<leftarrow> pq_lock pq;
          if ready_mask pq = 0
          then (if shutdown_requested flag
            then do { pq \<leftarrow> pq_unlock pq; Some (PopNull, h, Some pq) }
            else do { pq \<leftarrow> pq_unlock pq; Some (PopWait, h, Some pq) })
          else do {
            p \<leftarrow> get_highest_priority (ready_mask pq);
            (task, h, pq) \<leftarrow> pq_pop_locked h pq p;
            pq \<leftarrow> pq_unlock pq;
            Some (PopTask task, h, Some pq) } })"

definition pq_pop ::
  "task_heap \<Rightarrow> priority_queue_t option \<Rightarrow>
     (pop_result \<times> task_heap \<times> priority_queue_t option) option" where
  "pq_pop h pqp = pq_pop_until_shutdown h pqp None"

definition pq_wake_all :: "priority_queue_t option \<Rightarrow> priority_queue_t option option" where
  "pq_wake_all pqp =
     (case pqp of
        None \<Rightarrow> Some None
      | Some pq \<Rightarrow> do {
          pq \<leftarrow> pq_lock pq;
          pq \<leftarrow> pq_broadcast pq;
          pq \<leftarrow> pq_unlock pq;
          Some (Some pq) })"

definition pq_pop_nonblock ::
  "task_heap \<Rightarrow> priority_queue_t option \<Rightarrow> (ptr \<times> task_heap \<times> priority_queue_t option) option"
where
  "pq_pop_nonblock h pqp =
     (case pqp of
        None \<Rightarrow> Some (None, h, None)
      | Some pq \<Rightarrow> do {
          pq \<leftarrow> pq_lock pq;
          if ready_mask pq = 0
          then do { pq \<leftarrow> pq_unlock pq; Some (None, h, Some pq) }
          else do {
            p \<leftarrow> get_highest_priority (ready_mask pq);
            (task, h, pq) \<leftarrow> pq_pop_locked h pq p;
            pq \<leftarrow> pq_unlock pq;
            Some (Some task, h, Some pq) } })"

text \<open>\<^verbatim>\<open>pq_size\<close> stores the 64-bit count in an \<^verbatim>\<open>int\<close>.\<close>

definition pq_size :: "priority_queue_t option \<Rightarrow> (int \<times> priority_queue_t option) option" where
  "pq_size pqp =
     (case pqp of
        None \<Rightarrow> Some (0, None)
      | Some pq \<Rightarrow> do {
          pq \<leftarrow> pq_lock pq;
          let size_int = sint (ucast (pq_count pq) :: u32);
          pq \<leftarrow> pq_unlock pq;
          Some (size_int, Some pq) })"

definition pq_is_empty :: "priority_queue_t option \<Rightarrow> (int \<times> priority_queue_t option) option" where
  "pq_is_empty pqp =
     (case pqp of
        None \<Rightarrow> Some (0, None)
      | Some pq \<Rightarrow> do {
          pq \<leftarrow> pq_lock pq;
          let empty_int = (if ready_mask pq = 0 then 1 else 0);
          pq \<leftarrow> pq_unlock pq;
          Some (empty_int, Some pq) })"

section \<open>The mask lemmas\<close>

lemma mask_set_nat [c_simps]: "p < 32 \<Longrightarrow> mask_set m (int p) = Some (set_bit p m)"
  by (auto simp: mask_set_def shift_1UL_def bit_simps intro!: bit_word_eqI)

lemma mask_clear_nat [c_simps]: "p < 32 \<Longrightarrow> mask_clear m (int p) = Some (unset_bit p m)"
  by (auto simp: mask_clear_def shift_1UL_def bit_simps intro!: bit_word_eqI)

lemma clz_below_spec:
  "\<exists>q < n. bit m q \<Longrightarrow>
     clz_below n m < n \<and> bit m (n - 1 - clz_below n m) \<and>
     (\<forall>q < n. bit m q \<longrightarrow> q \<le> n - 1 - clz_below n m)"
proof (induction n)
  case 0
  then show ?case by simp
next
  case (Suc n)
  show ?case
  proof (cases "bit m n")
    case True
    then show ?thesis by (auto simp: less_Suc_eq_le)
  next
    case False
    with Suc.prems have "\<exists>q < n. bit m q" by (auto simp: less_Suc_eq)
    with Suc.IH False show ?thesis by (auto simp: less_Suc_eq)
  qed
qed

lemma bit_u32_less: "bit (m :: u32) q \<Longrightarrow> q < 32"
  using bit_imp_le_length [of m q] by simp

text \<open>\<^verbatim>\<open>_get_highest_priority\<close> is the index of the highest set bit.\<close>

lemma get_highest_priority_spec:
  assumes "m \<noteq> 0"
  shows "\<exists>p < 32. get_highest_priority m = Some (int p) \<and> bit m p \<and> (\<forall>q. bit m q \<longrightarrow> q \<le> p)"
proof -
  from assms obtain q where "bit m q" using bit_word_eqI [of m 0] by auto
  then have "\<exists>q < 32. bit m q" using bit_u32_less by blast
  note spec = clz_below_spec [OF this]
  let ?p = "31 - clz_below 32 m"
  have "get_highest_priority m = Some (int ?p)"
    using spec assms by (simp add: get_highest_priority_def builtin_clz_def PQ_BITMASK_BITS_def)
  moreover have "\<forall>q. bit m q \<longrightarrow> q \<le> ?p"
    using spec bit_u32_less by auto
  ultimately show ?thesis using spec by (intro exI [of _ ?p]) auto
qed

section \<open>The invariant\<close>

text \<open>
  \<open>pq_core h pq ls\<close>: lane \<open>p\<close> of the object is the chain of the nodes \<open>ls ! p\<close>, no node is in
  two lanes, every node carries the priority of its lane, the mask has exactly the bits of the
  non-empty lanes and both counters count the nodes. \<open>pq_inv\<close> adds that the lock is free and
  the condition variable live, which is the state between two calls.
\<close>

definition lane_prio_ok :: "task_heap \<Rightarrow> nat \<Rightarrow> addr \<Rightarrow> bool" where
  "lane_prio_ok h p a = (case h a of None \<Rightarrow> False | Some t \<Rightarrow> priority t = int p)"

definition mask_ok :: "u32 \<Rightarrow> addr list list \<Rightarrow> bool" where
  "mask_ok m ls \<longleftrightarrow> (\<forall>n < 32. bit m n \<longleftrightarrow> n < length ls \<and> ls ! n \<noteq> [])"

definition pq_core :: "task_heap \<Rightarrow> priority_queue_t \<Rightarrow> addr list list \<Rightarrow> bool" where
  "pq_core h pq ls \<longleftrightarrow>
     length ls = 3 \<and> length (heads pq) = 3 \<and> length (tails pq) = 3 \<and>
     (\<forall>p < 3. lane (links_of h) (heads pq ! p) (tails pq ! p) (ls ! p)) \<and>
     (\<forall>p < 3. list_all (lane_prio_ok h p) (ls ! p)) \<and>
     distinct (concat ls) \<and> mask_ok (ready_mask pq) ls \<and>
     pq_count pq = of_nat (length (concat ls)) \<and> depth pq = pq_count pq"

definition pq_inv :: "task_heap \<Rightarrow> priority_queue_t \<Rightarrow> addr list list \<Rightarrow> bool" where
  "pq_inv h pq ls \<longleftrightarrow> pq_core h pq ls \<and> pq_mutex pq = MFree \<and> not_empty pq \<noteq> CUninit"

text \<open>What a queue operation leaves alone: the nodes up to their \<^verbatim>\<open>next\<close> pointers, the
  capacity, the lock and the condition variable.\<close>

definition payload :: "task_t \<Rightarrow> task_t" where
  "payload t = t\<lparr>task_next := None\<rparr>"

definition same_nodes :: "task_heap \<Rightarrow> task_heap \<Rightarrow> bool" where
  "same_nodes h h' \<longleftrightarrow> (\<forall>a. map_option payload (h' a) = map_option payload (h a))"

definition same_sync :: "priority_queue_t \<Rightarrow> priority_queue_t \<Rightarrow> bool" where
  "same_sync pq pq' \<longleftrightarrow>
     max_tasks pq' = max_tasks pq \<and> pq_mutex pq' = pq_mutex pq \<and> not_empty pq' = not_empty pq"

lemma pq_core_sync [simp]:
  "pq_core h (pq\<lparr>pq_mutex := m\<rparr>) ls = pq_core h pq ls"
  "pq_core h (pq\<lparr>not_empty := c\<rparr>) ls = pq_core h pq ls"
  "pq_core h (pq\<lparr>max_tasks := n\<rparr>) ls = pq_core h pq ls"
  by (simp_all add: pq_core_def)

lemma same_nodes_refl [simp]: "same_nodes h h"
  by (simp add: same_nodes_def)

lemma same_nodes_trans [trans]: "same_nodes h h' \<Longrightarrow> same_nodes h' h'' \<Longrightarrow> same_nodes h h''"
  by (simp add: same_nodes_def)

lemma same_nodes_upd_next: "h a = Some t \<Longrightarrow> same_nodes h (h(a \<mapsto> t\<lparr>task_next := x\<rparr>))"
  by (simp add: same_nodes_def payload_def)

lemma same_nodesD:
  "same_nodes h h' \<Longrightarrow> h a = Some t \<Longrightarrow> \<exists>t'. h' a = Some t' \<and> payload t' = payload t"
  by (auto simp: same_nodes_def dest: spec [of _ a])

lemma same_nodes_None: "same_nodes h h' \<Longrightarrow> h' a = None \<longleftrightarrow> h a = None"
  by (simp add: same_nodes_def) (metis option.map_disc_iff)

lemma payload_eqD:
  "payload t' = payload t \<Longrightarrow>
     task_id t' = task_id t \<and> func t' = func t \<and> arg t' = arg t \<and>
     priority t' = priority t \<and> submit_time t' = submit_time t"
  by (cases t, cases t') (simp add: payload_def)

lemma same_nodes_prio: "same_nodes h h' \<Longrightarrow> lane_prio_ok h' p a = lane_prio_ok h p a"
proof -
  assume "same_nodes h h'"
  then have "map_option payload (h' a) = map_option payload (h a)"
    by (simp add: same_nodes_def)
  then show ?thesis
    by (cases "h a"; cases "h' a") (auto simp: lane_prio_ok_def dest!: payload_eqD)
qed

lemma lane_disjoint:
  "distinct (concat ls) \<Longrightarrow> p < length ls \<Longrightarrow> q < length ls \<Longrightarrow> p \<noteq> q \<Longrightarrow>
     set (ls ! p) \<inter> set (ls ! q) = {}"
proof (induction ls arbitrary: p q)
  case Nil
  then show ?case by simp
next
  case (Cons l ls)
  have sub: "set (ls ! i) \<subseteq> set (concat ls)" if "i < length ls" for i
    using nth_mem [OF that] by auto
  from Cons.prems(1) have l: "set l \<inter> set (concat ls) = {}" and d: "distinct (concat ls)"
    by auto
  show ?case
  proof (cases p)
    case 0
    with Cons.prems obtain q' where "q = Suc q'" "q' < length ls" by (cases q) auto
    with 0 l sub [of q'] show ?thesis by auto
  next
    case (Suc p')
    show ?thesis
    proof (cases q)
      case 0
      with Suc Cons.prems l sub [of p'] show ?thesis by auto
    next
      case (Suc q')
      with \<open>p = Suc p'\<close> Cons.IH [OF d, of p' q'] Cons.prems show ?thesis by simp
    qed
  qed
qed

lemma pq_core_lane: "pq_core h pq ls \<Longrightarrow> p < 3 \<Longrightarrow> lane (links_of h) (heads pq ! p) (tails pq ! p) (ls ! p)"
  by (simp add: pq_core_def)

lemma pq_core_live:
  assumes "pq_core h pq ls" and "a \<in> set (concat ls)"
  shows "\<exists>t. h a = Some t"
proof -
  from assms obtain l where "l \<in> set ls" "a \<in> set l" and len: "length ls = 3"
    by (auto simp: pq_core_def)
  then obtain p where "p < 3" "a \<in> set (ls ! p)"
    by (metis in_set_conv_nth)
  with assms(1) have "links_of h a \<noteq> None"
    by (metis pq_core_lane lane_allocated)
  then show ?thesis by (simp add: links_of_def)
qed

lemma pq_inv_length: "pq_inv h pq ls \<Longrightarrow> length ls = 3"
  by (simp add: pq_inv_def pq_core_def)

section \<open>Insertion\<close>

lemma mask_ok_update:
  assumes "mask_ok m ls" and "p < length ls" and "length ls \<le> 32"
  shows "xs \<noteq> [] \<Longrightarrow> mask_ok (set_bit p m) (ls[p := xs])"
    and "mask_ok (unset_bit p m) (ls[p := []])"
  using assms by (auto simp: mask_ok_def bit_simps nth_list_update)

lemma mask_ok_same:
  assumes "mask_ok m ls" and "p < length ls" and "ls ! p \<noteq> []" and "xs \<noteq> []"
  shows "mask_ok m (ls[p := xs])"
  using assms by (auto simp: mask_ok_def nth_list_update)

lemma mask_ok_zero: "mask_ok m ls \<Longrightarrow> length ls \<le> 32 \<Longrightarrow> m = 0 \<longleftrightarrow> concat ls = []"
proof -
  assume ok: "mask_ok m ls" and len: "length ls \<le> 32"
  have "m = 0" if "\<forall>n < 32. \<not> bit m n"
    using that by (intro bit_word_eqI) simp
  then have "m = 0 \<longleftrightarrow> (\<forall>n < 32. \<not> bit m n)" by auto
  also have "\<dots> \<longleftrightarrow> (\<forall>n < length ls. ls ! n = [])"
    using ok len by (auto simp: mask_ok_def)
  finally show ?thesis by (simp add: concat_eq_Nil_conv all_set_conv_all_nth)
qed

text \<open>Only the links of the node and of the lane's last node change.\<close>

lemma pq_core_other_lane:
  assumes core: "pq_core h pq ls" and p: "p < 3" "q < 3" "q \<noteq> p"
    and same: "\<And>x. x \<notin> insert a (set (ls ! p)) \<Longrightarrow> links_of h' x = links_of h x"
    and a: "a \<notin> set (ls ! q)"
  shows "lane (links_of h') (heads pq ! q) (tails pq ! q) (ls ! q)"
proof -
  have disj: "set (ls ! q) \<inter> set (ls ! p) = {}"
    using core p by (intro lane_disjoint) (auto simp: pq_core_def)
  have "links_of h' x = links_of h x" if "x \<in> set (ls ! q)" for x
    using that a disj by (intro same) auto
  then have "lane (links_of h') (heads pq ! q) (tails pq ! q) (ls ! q) =
      lane (links_of h) (heads pq ! q) (tails pq ! q) (ls ! q)"
    by (rule lane_frame)
  with pq_core_lane [OF core p(2)] show ?thesis by blast
qed

text \<open>Rebuilding the invariant after a change of one lane.\<close>

lemma pq_core_update_lane:
  assumes core: "pq_core h pq ls" and p: "p < 3" and nodes: "same_nodes h h'"
    and same: "\<And>x. x \<notin> insert a (set (ls ! p)) \<Longrightarrow> links_of h' x = links_of h x"
    and a: "\<And>q. q < 3 \<Longrightarrow> q \<noteq> p \<Longrightarrow> a \<notin> set (ls ! q)"
    and lane: "lane (links_of h') x e xs"
    and prio: "list_all (lane_prio_ok h p) xs"
    and dist: "distinct (concat (ls[p := xs]))"
    and m: "mask_ok m (ls[p := xs])"
    and cnt: "c = of_nat (length (concat (ls[p := xs])))"
    and hds: "heads pq' = (heads pq)[p := x]" and tls: "tails pq' = (tails pq)[p := e]"
    and rest: "ready_mask pq' = m" "pq_count pq' = c" "depth pq' = c"
  shows "pq_core h' pq' (ls[p := xs])"
proof -
  have len: "length ls = 3" "length (heads pq) = 3" "length (tails pq) = 3"
    using core by (simp_all add: pq_core_def)
  have "lane (links_of h') (heads pq' ! q) (tails pq' ! q) (ls[p := xs] ! q)" if q: "q < 3" for q
  proof (cases "q = p")
    case True
    with lane p len show ?thesis by (simp add: hds tls)
  next
    case False
    from pq_core_other_lane [OF core p q False same] a q False
    have "lane (links_of h') (heads pq ! q) (tails pq ! q) (ls ! q)" by blast
    with False show ?thesis by (simp add: hds tls)
  qed
  moreover have "list_all (lane_prio_ok h' q) (ls[p := xs] ! q)" if q: "q < 3" for q
  proof -
    have "list_all (lane_prio_ok h q) (ls[p := xs] ! q)"
      using core prio p q len by (cases "q = p") (auto simp: pq_core_def)
    then show ?thesis using nodes by (simp add: same_nodes_prio list_all_iff)
  qed
  ultimately show ?thesis
    using len dist m cnt rest by (simp add: pq_core_def hds tls)
qed

text \<open>
  \<^verbatim>\<open>_pq_insert_locked\<close> on a node with a valid priority that is in no lane: it cannot fault,
  it appends the node to its lane and it changes nothing else.
\<close>

lemma pq_insert_locked_core:
  assumes core: "pq_core h pq ls" and t: "h a = Some t" and prio: "priority t = int p" and p: "p < 3"
    and fresh: "a \<notin> set (concat ls)"
  shows "\<exists>h' pq'. pq_insert_locked h pq a = Some (h', pq') \<and> pq_core h' pq' (lanes_push p a ls) \<and>
    same_nodes h h' \<and> same_sync pq pq'"
proof -
  have len: "length ls = 3" "length (heads pq) = 3" "length (tails pq) = 3"
    using core by (simp_all add: pq_core_def)
  have lane_p: "lane (links_of h) (heads pq ! p) (tails pq ! p) (ls ! p)"
    using core p by (rule pq_core_lane)
  have dep: "depth pq = pq_count pq" using core by (simp add: pq_core_def)
  have fresh_lane: "a \<notin> set (ls ! q)" if "q < 3" for q
    using that fresh len by auto
  let ?h1 = "h(a \<mapsto> t\<lparr>task_next := None\<rparr>)"
  let ?m = "set_bit p (ready_mask pq)"
  have mask: "mask_set (ready_mask pq) (int p) = Some ?m"
    using p by (simp add: mask_set_nat)
  have mask_ok: "mask_ok ?m (ls[p := ls ! p @ [a]])"
    using core p len by (intro mask_ok_update) (auto simp: pq_core_def)
  have prio_ok: "list_all (lane_prio_ok h p) (ls ! p @ [a])"
    using core p t prio by (auto simp: pq_core_def lane_prio_ok_def)
  have dist: "distinct (concat (ls[p := ls ! p @ [a]]))"
    using core p fresh len fresh_lane [OF p]
    by (intro distinct_concat_update) (auto simp: pq_core_def lane_def)
  have "length (concat (ls[p := ls ! p @ [a]])) = Suc (length (concat ls))"
    using mset_lanes_push [of p ls a] p len by (metis lanes_push_def size_mset size_add_mset)
  then have cnt: "pq_count pq + 1 = of_nat (length (concat (ls[p := ls ! p @ [a]])))"
    using core by (simp add: pq_core_def)
  show ?thesis
  proof (cases "tails pq ! p")
    case None
    then have empty: "ls ! p = []" using lane_p by (simp add: lane_tail_None [OF lane_p, symmetric])
    let ?pq = "pq\<lparr>tails := (tails pq)[p := Some a], heads := (heads pq)[p := Some a],
      ready_mask := ?m, pq_count := pq_count pq + 1, depth := depth pq + 1\<rparr>"
    have "pq_insert_locked h pq a = Some (?h1, ?pq)"
      using t prio p len None mask by (simp add: pq_insert_locked_def)
    moreover have "pq_core ?h1 ?pq (ls[p := ls ! p @ [a]])"
      by (rule pq_core_update_lane [OF core p same_nodes_upd_next [of h a t, OF t], where a = a,
            OF _ fresh_lane _ prio_ok dist mask_ok cnt])
        (simp_all add: empty dep lane_Cons_iff)
    ultimately show ?thesis
      using t by (auto simp: lanes_push_def same_sync_def intro: same_nodes_upd_next)
  next
    case (Some b)
    then have b: "b \<in> set (ls ! p)" and ab: "a \<noteq> b"
      using lane_p fresh_lane [OF p] by (auto simp: lane_def tail_of_def split: if_splits)
    then have "b \<in> set (concat ls)" using p len by (auto intro!: bexI [of _ "ls ! p"])
    then obtain tb where tb: "h b = Some tb" using pq_core_live [OF core] by blast
    let ?h2 = "?h1(b \<mapsto> tb\<lparr>task_next := Some a\<rparr>)"
    let ?pq = "pq\<lparr>tails := (tails pq)[p := Some a],
      ready_mask := ?m, pq_count := pq_count pq + 1, depth := depth pq + 1\<rparr>"
    have "pq_insert_locked h pq a = Some (?h2, ?pq)"
      using t prio p len Some tb ab mask by (simp add: pq_insert_locked_def)
    moreover have nodes: "same_nodes h ?h2"
      using t tb ab by (intro same_nodes_trans [OF same_nodes_upd_next same_nodes_upd_next]) auto
    moreover have "lane (links_of ?h2) (heads pq ! p) (Some a) (ls ! p @ [a])"
      using lane_snoc [OF lane_p [unfolded Some] fresh_lane [OF p]] ab
      by (simp add: fun_upd_twist)
    then have "pq_core ?h2 ?pq (ls[p := ls ! p @ [a]])"
      by (intro pq_core_update_lane [OF core p nodes, where a = a, OF _ fresh_lane _ prio_ok dist mask_ok cnt])
        (use b in \<open>auto simp: dep\<close>)
    ultimately show ?thesis by (auto simp: lanes_push_def same_sync_def)
  qed
qed

section \<open>Removal\<close>

text \<open>\<^verbatim>\<open>_pq_pop_locked\<close> on a non-empty lane takes the lane's oldest node.\<close>

lemma pq_pop_locked_core:
  assumes core: "pq_core h pq ls" and p: "p < 3" and cons: "ls ! p = a # as"
  shows "\<exists>h' pq'. pq_pop_locked h pq (int p) = Some (a, h', pq') \<and> pq_core h' pq' (ls[p := as]) \<and>
    same_nodes h h' \<and> same_sync pq pq'"
proof -
  have len: "length ls = 3" "length (heads pq) = 3" "length (tails pq) = 3"
    using core by (simp_all add: pq_core_def)
  have dep: "depth pq = pq_count pq" using core by (simp add: pq_core_def)
  have lane_p: "lane (links_of h) (heads pq ! p) (tails pq ! p) (a # as)"
    using pq_core_lane [OF core p] by (simp add: cons)
  then obtain t where hd: "heads pq ! p = Some a" and t: "h a = Some t" and a: "a \<notin> set as"
    and tl: "tails pq ! p = Some (last (a # as))"
    and rest: "lane (links_of h) (task_next t) (tail_of as) as"
    by (auto simp: lane_Cons_iff links_of_Some_iff)
  let ?h = "h(a \<mapsto> t\<lparr>task_next := None\<rparr>)"
  let ?m = "if as = [] then unset_bit p (ready_mask pq) else ready_mask pq"
  let ?e = "if as = [] then None else tails pq ! p"
  let ?pq = "pq\<lparr>heads := (heads pq)[p := task_next t], tails := (tails pq)[p := ?e],
    ready_mask := ?m, pq_count := pq_count pq - 1, depth := depth pq - 1\<rparr>"
  have nil: "task_next t = None \<longleftrightarrow> as = []" using rest by (rule lane_head_None)
  have clear: "mask_clear (ready_mask pq) (int p) = Some (unset_bit p (ready_mask pq))"
    using p by (simp add: mask_clear_nat)
  have pop: "pq_pop_locked h pq (int p) = Some (a, ?h, ?pq)"
    using p len hd t nil clear by (simp add: pq_pop_locked_def)
  have ms: "mset (concat ls) = add_mset a (mset (concat (ls[p := as])))"
    using mset_concat_update [of p ls as] p len cons by simp
  have lane': "lane (links_of ?h) (task_next t) ?e as"
  proof -
    have "lane (links_of ?h) (task_next t) (tail_of as) as = lane (links_of h) (task_next t) (tail_of as) as"
      using a by (intro lane_frame) auto
    moreover have "?e = tail_of as" using tl by (simp add: tail_of_def)
    ultimately show ?thesis using rest by simp
  qed
  have prio: "list_all (lane_prio_ok h p) as"
    using core p cons by (auto simp: pq_core_def)
  have dls: "distinct (concat ls)" using core by (simp add: pq_core_def)
  have dist: "distinct (concat (ls[p := as]))"
    using dls p len lane_p cons by (intro distinct_concat_update) (auto simp: lane_def)
  have other: "a \<notin> set (ls ! q)" if "q < 3" "q \<noteq> p" for q
    using lane_disjoint [OF dls, of p q] that p len cons by auto
  have mask: "mask_ok ?m (ls[p := as])"
  proof (cases "as = []")
    case True
    then show ?thesis using core p len mask_ok_update(2) [of "ready_mask pq" ls p]
      by (simp add: pq_core_def)
  next
    case False
    then show ?thesis using core p len cons mask_ok_same [of "ready_mask pq" ls p as]
      by (simp add: pq_core_def)
  qed
  have "length (concat ls) = Suc (length (concat (ls[p := as])))"
    using ms by (metis size_mset size_add_mset)
  then have cnt: "pq_count pq - 1 = of_nat (length (concat (ls[p := as])))"
    using core by (simp add: pq_core_def)
  have "pq_core ?h ?pq (ls[p := as])"
    by (rule pq_core_update_lane [OF core p same_nodes_upd_next [of h a t, OF t], where a = a,
            OF _ other lane' prio dist mask cnt])
      (auto simp: dep)
  with pop t show ?thesis
    by (auto simp: same_sync_def intro: same_nodes_upd_next)
qed

text \<open>The lane that \<^verbatim>\<open>_get_highest_priority\<close> picks from the mask is the top lane.\<close>

lemma highest_is_top:
  assumes "mask_ok m ls" and "length ls = 3" and "m \<noteq> 0"
  shows "\<exists>p < 3. get_highest_priority m = Some (int p) \<and> top_lane ls = Some p"
proof -
  obtain p where p: "p < 32" "get_highest_priority m = Some (int p)" "bit m p" "\<forall>q. bit m q \<longrightarrow> q \<le> p"
    using get_highest_priority_spec [OF assms(3)] by blast
  then have "p < 3" "ls ! p \<noteq> []"
    using assms(1,2) by (auto simp: mask_ok_def)
  moreover have "ls ! q = []" if "p < q" "q < 3" for q
  proof (rule ccontr)
    assume "ls ! q \<noteq> []"
    then have "bit m q" using assms(1,2) that by (simp add: mask_ok_def)
    with p(4) that show False by auto
  qed
  ultimately show ?thesis using p(2) assms(2) by (auto simp: top_lane_Some)
qed

section \<open>The public operations\<close>

lemma pq_lock_free [c_simps]: "pq_mutex pq = MFree \<Longrightarrow> pq_lock pq = Some (pq\<lparr>pq_mutex := MHeld\<rparr>)"
  by (simp add: pq_lock_def)

lemma pq_unlock_held [c_simps]: "pq_mutex pq = MHeld \<Longrightarrow> pq_unlock pq = Some (pq\<lparr>pq_mutex := MFree\<rparr>)"
  by (simp add: pq_unlock_def)

lemma pq_mutex_same [simp]: "pq_mutex pq = m \<Longrightarrow> pq\<lparr>pq_mutex := m\<rparr> = pq"
  by (cases pq) simp

lemma pq_signal_live:
  "not_empty pq \<noteq> CUninit \<Longrightarrow> \<exists>ws. not_empty pq = CLive ws \<and> pq_signal pq = Some (pq\<lparr>not_empty := CLive (Signal # ws)\<rparr>)"
  by (cases "not_empty pq") (auto simp: pq_signal_def)

lemma pq_broadcast_live:
  "not_empty pq \<noteq> CUninit \<Longrightarrow>
     \<exists>ws. not_empty pq = CLive ws \<and> pq_broadcast pq = Some (pq\<lparr>not_empty := CLive (Broadcast # ws)\<rparr>)"
  by (cases "not_empty pq") (auto simp: pq_broadcast_def)

text \<open>The wakeup that an operation sent last.\<close>

definition sent :: "wake \<Rightarrow> priority_queue_t \<Rightarrow> priority_queue_t \<Rightarrow> bool" where
  "sent w pq pq' \<longleftrightarrow>
     (case not_empty pq of CUninit \<Rightarrow> False | CLive ws \<Rightarrow> not_empty pq' = CLive (w # ws))"

text \<open>The object that a successful \<^verbatim>\<open>pq_init\<close> leaves.\<close>

abbreviation pq_fresh :: priority_queue_t where
  "pq_fresh \<equiv> pq_zero\<lparr>pq_mutex := MFree, not_empty := CLive []\<rparr>"

lemma pq_init_fresh: "pq_init 0 0 (Some pq) = Some (0, Some pq_fresh)"
  by (simp add: pq_init_def)

lemma pq_fresh_inv: "pq_inv h pq_fresh [[], [], []]"
  by (auto simp: pq_inv_def pq_core_def pq_zero_def mask_ok_def lane_def
      less_Suc_eq numeral_3_eq_3 nth_Cons')

lemma pq_init_error:
  assumes "mutex_rc \<noteq> 0 \<or> cond_rc \<noteq> 0"
  shows "pq_init mutex_rc cond_rc (Some pq) = Some (-1, Some pq_zero)"
  using assms by (auto simp: pq_init_def pq_zero_def)

lemma pq_push_ok:
  assumes inv: "pq_inv h pq ls" and t: "h a = Some t" "priority t = int p" "p < 3"
    and fresh: "a \<notin> set (concat ls)"
  shows "\<exists>h' pq'. pq_push h (Some pq) (Some a) = Some (h', Some pq') \<and>
    pq_inv h' pq' (lanes_push p a ls) \<and> same_nodes h h' \<and>
    max_tasks pq' = max_tasks pq \<and> sent Signal pq pq'"
proof -
  let ?pq = "pq\<lparr>pq_mutex := MHeld\<rparr>"
  from inv have core: "pq_core h ?pq ls" and m: "pq_mutex pq = MFree" and c: "not_empty pq \<noteq> CUninit"
    by (auto simp: pq_inv_def)
  obtain h' pq1 where ins: "pq_insert_locked h ?pq a = Some (h', pq1)"
    "pq_core h' pq1 (lanes_push p a ls)" "same_nodes h h'" "same_sync ?pq pq1"
    using pq_insert_locked_core [OF core t fresh] by blast
  let ?pq2 = "pq1\<lparr>pq_mutex := MFree\<rparr>"
  from ins(4) have sync: "max_tasks pq1 = max_tasks pq" "pq_mutex pq1 = MHeld" "not_empty pq1 = not_empty pq"
    by (simp_all add: same_sync_def)
  with c obtain ws where ws: "not_empty pq = CLive ws"
    "pq_signal ?pq2 = Some (?pq2\<lparr>not_empty := CLive (Signal # ws)\<rparr>)"
    using pq_signal_live [of ?pq2] by auto
  have "pq_push h (Some pq) (Some a) = Some (h', Some (?pq2\<lparr>not_empty := CLive (Signal # ws)\<rparr>))"
    using ins(1) sync(2) ws(2) m by (simp add: pq_push_def pq_lock_free pq_unlock_held)
  moreover have "pq_inv h' (?pq2\<lparr>not_empty := CLive (Signal # ws)\<rparr>) (lanes_push p a ls)"
    using ins(2) by (simp add: pq_inv_def)
  ultimately show ?thesis using ins(3) sync(1) ws(1) by (simp add: sent_def)
qed

text \<open>\<^verbatim>\<open>pq_try_push\<close>: the capacity test decides, under the lock, between rejection and insertion.\<close>

definition pq_full :: "priority_queue_t \<Rightarrow> bool" where
  "pq_full pq \<longleftrightarrow> max_tasks pq \<noteq> 0 \<and> max_tasks pq \<le> pq_count pq"

lemma pq_try_push_full:
  assumes "pq_inv h pq ls" and "pq_full pq"
  shows "pq_try_push h (Some pq) (Some a) = Some (False, h, Some pq)"
  using assms by (simp add: pq_try_push_def pq_inv_def pq_lock_free pq_unlock_held pq_full_def)

lemma pq_try_push_room:
  assumes inv: "pq_inv h pq ls" and room: "\<not> pq_full pq"
    and t: "h a = Some t" "priority t = int p" "p < 3" and fresh: "a \<notin> set (concat ls)"
  shows "\<exists>h' pq'. pq_try_push h (Some pq) (Some a) = Some (True, h', Some pq') \<and>
    pq_inv h' pq' (lanes_push p a ls) \<and> same_nodes h h' \<and>
    max_tasks pq' = max_tasks pq \<and> sent Signal pq pq'"
proof -
  obtain h' pq' where push: "pq_push h (Some pq) (Some a) = Some (h', Some pq')"
    and rest: "pq_inv h' pq' (lanes_push p a ls)" "same_nodes h h'"
      "max_tasks pq' = max_tasks pq" "sent Signal pq pq'"
    using pq_push_ok [OF inv t fresh] by blast
  from push room inv have "pq_try_push h (Some pq) (Some a) = Some (True, h', Some pq')"
    by (auto simp: pq_try_push_def pq_push_def pq_inv_def pq_lock_free pq_unlock_held pq_full_def bind_Some_iff
        split: prod.splits)
  with rest show ?thesis by blast
qed

lemma pq_ready_iff: "pq_inv h pq ls \<Longrightarrow> ready_mask pq = 0 \<longleftrightarrow> concat ls = []"
  by (rule mask_ok_zero) (auto simp: pq_inv_def pq_core_def)

text \<open>The common part of the three pops on a non-empty queue.\<close>

lemma pq_pop_core:
  assumes inv: "pq_inv h pq ls" and pop: "lanes_pop ls = Some (a, ls')"
  shows "\<exists>p h' pq'. get_highest_priority (ready_mask pq) = Some (int p) \<and>
    pq_pop_locked h (pq\<lparr>pq_mutex := MHeld\<rparr>) (int p) = Some (a, h', pq') \<and>
    pq_mutex pq' = MHeld \<and> pq_inv h' (pq'\<lparr>pq_mutex := MFree\<rparr>) ls' \<and> same_nodes h h' \<and>
    max_tasks pq' = max_tasks pq \<and> not_empty pq' = not_empty pq"
proof -
  let ?pq = "pq\<lparr>pq_mutex := MHeld\<rparr>"
  from inv have core: "pq_core h ?pq ls" and ok: "mask_ok (ready_mask pq) ls" and len: "length ls = 3"
    by (auto simp: pq_inv_def pq_core_def)
  from pop have "concat ls \<noteq> []" using lanes_pop_None [of ls] by fastforce
  then have "ready_mask pq \<noteq> 0" using pq_ready_iff [OF inv] by blast
  then obtain p where p: "p < 3" "get_highest_priority (ready_mask pq) = Some (int p)" "top_lane ls = Some p"
    using highest_is_top [OF ok len] by blast
  from pop p(3) obtain as where as: "ls ! p = a # as" "ls' = ls[p := as]"
    by (auto simp: lanes_pop_Some)
  obtain h' pq' where "pq_pop_locked h ?pq (int p) = Some (a, h', pq')" "pq_core h' pq' (ls[p := as])"
    "same_nodes h h'" "same_sync ?pq pq'"
    using pq_pop_locked_core [OF core p(1) as(1)] by blast
  with p(2) as(2) inv show ?thesis
    by (auto simp: same_sync_def pq_inv_def)
qed

lemma pq_pop_until_shutdown_task:
  assumes inv: "pq_inv h pq ls" and pop: "lanes_pop ls = Some (a, ls')"
  shows "\<exists>h' pq'. pq_pop_until_shutdown h (Some pq) flag = Some (PopTask a, h', Some pq') \<and>
    pq_inv h' pq' ls' \<and> same_nodes h h' \<and> max_tasks pq' = max_tasks pq \<and> not_empty pq' = not_empty pq"
proof -
  from pop have "concat ls \<noteq> []" using lanes_pop_None [of ls] by fastforce
  then have "ready_mask pq \<noteq> 0" using pq_ready_iff [OF inv] by blast
  with pq_pop_core [OF inv pop] inv show ?thesis
    by (auto simp: pq_pop_until_shutdown_def pq_inv_def pq_lock_free pq_unlock_held)
qed

lemma pq_pop_until_shutdown_empty:
  assumes inv: "pq_inv h pq ls" and "concat ls = []"
  shows "pq_pop_until_shutdown h (Some pq) flag =
    Some (if shutdown_requested flag then PopNull else PopWait, h, Some pq)"
proof -
  have "ready_mask pq = 0" using assms pq_ready_iff by blast
  with inv show ?thesis by (simp add: pq_pop_until_shutdown_def pq_inv_def pq_lock_free pq_unlock_held)
qed

lemma pq_pop_nonblock_task:
  assumes inv: "pq_inv h pq ls" and pop: "lanes_pop ls = Some (a, ls')"
  shows "\<exists>h' pq'. pq_pop_nonblock h (Some pq) = Some (Some a, h', Some pq') \<and>
    pq_inv h' pq' ls' \<and> same_nodes h h' \<and> max_tasks pq' = max_tasks pq \<and> not_empty pq' = not_empty pq"
proof -
  from pop have "concat ls \<noteq> []" using lanes_pop_None [of ls] by fastforce
  then have "ready_mask pq \<noteq> 0" using pq_ready_iff [OF inv] by blast
  with pq_pop_core [OF inv pop] inv show ?thesis
    by (auto simp: pq_pop_nonblock_def pq_inv_def pq_lock_free pq_unlock_held)
qed

lemma pq_pop_nonblock_empty:
  assumes inv: "pq_inv h pq ls" and "concat ls = []"
  shows "pq_pop_nonblock h (Some pq) = Some (None, h, Some pq)"
proof -
  have "ready_mask pq = 0" using assms pq_ready_iff by blast
  with inv show ?thesis by (simp add: pq_pop_nonblock_def pq_inv_def pq_lock_free pq_unlock_held)
qed

lemma pq_wake_all_ok:
  assumes "pq_inv h pq ls"
  shows "\<exists>pq'. pq_wake_all (Some pq) = Some (Some pq') \<and> pq_inv h pq' ls \<and>
    max_tasks pq' = max_tasks pq \<and> sent Broadcast pq pq'"
proof -
  have "not_empty (pq\<lparr>pq_mutex := MHeld\<rparr>) \<noteq> CUninit" using assms by (simp add: pq_inv_def)
  from pq_broadcast_live [OF this] assms show ?thesis
    by (auto simp: pq_wake_all_def pq_inv_def pq_lock_free pq_unlock_held sent_def)
qed

lemma pq_size_ok:
  assumes "pq_inv h pq ls" and "length (concat ls) < 2 ^ 31"
  shows "pq_size (Some pq) = Some (int (length (concat ls)), Some pq)"
proof -
  have "sint (ucast (of_nat (length (concat ls)) :: u64) :: u32) = int (length (concat ls))"
    using assms(2) by (simp add: sint_uint unsigned_ucast_eq unsigned_of_nat
        take_bit_nat_eq_self take_bit_nat_eq_self_iff signed_take_bit_int_eq_self)
  with assms(1) show ?thesis
    by (simp add: pq_size_def pq_inv_def pq_core_def pq_lock_free pq_unlock_held)
qed

lemma pq_is_empty_ok:
  assumes "pq_inv h pq ls"
  shows "pq_is_empty (Some pq) = Some (if concat ls = [] then 1 else 0, Some pq)"
  using assms pq_ready_iff [OF assms]
  by (simp add: pq_is_empty_def pq_inv_def pq_lock_free pq_unlock_held Let_def)

lemma pq_is_full_approx_exact: "pq_inv h pq ls \<Longrightarrow> pq_is_full_approx (Some pq) = pq_full pq"
  by (auto simp: pq_is_full_approx_def pq_full_def pq_inv_def pq_core_def Let_def)

lemma pq_full_iff:
  assumes "pq_inv h pq ls" and "length (concat ls) < 2 ^ 64"
  shows "pq_full pq \<longleftrightarrow> max_tasks pq \<noteq> 0 \<and> unat (max_tasks pq) \<le> length (concat ls)"
  using assms by (auto simp: pq_full_def pq_inv_def pq_core_def word_le_nat_alt unat_of_nat)

section \<open>Destruction\<close>

lemma free_lane_ok:
  "lseg (links_of h) x as None \<Longrightarrow> distinct as \<Longrightarrow> free_lane h x = Some (h |` (- set as))"
proof (induction as arbitrary: h x)
  case Nil
  then show ?case by (simp add: free_lane.simps)
next
  case (Cons a as)
  then obtain t where x: "x = Some a" and t: "h a = Some t" and rest: "lseg (links_of h) (task_next t) as None"
    by (auto simp: links_of_Some_iff split: option.splits)
  have "lseg (links_of (h(a := None))) (task_next t) as None"
    using rest Cons.prems(2) by simp
  then have "free_lane (h(a := None)) (task_next t) = Some ((h(a := None)) |` (- set as))"
    by (rule Cons.IH) (use Cons.prems(2) in simp)
  moreover have "(h(a := None)) |` (- set as) = h |` (- set (a # as))"
    by (auto simp: restrict_map_def fun_eq_iff)
  ultimately show ?case
    using x t by (subst free_lane.simps) (simp add: task_destroy_live)
qed

text \<open>
  One iteration of the outer loop frees lane \<open>p\<close> and empties it; the remaining lanes are as
  before, because their nodes are different ones.
\<close>

lemma lane_restrict:
  assumes "lane (links_of h) x e as" and "set as \<inter> A = {}"
  shows "lane (links_of (h |` (- A))) x e as"
proof -
  have "lane (links_of (h |` (- A))) x e as = lane (links_of h) x e as"
    using assms(2) by (intro lane_frame) (auto simp: links_of_def restrict_map_def)
  with assms(1) show ?thesis by simp
qed

lemma free_lanes_ok:
  assumes "length ls = 3" and "length (heads pq) = 3" and "length (tails pq) = 3"
    and "\<forall>q < 3. p \<le> q \<longrightarrow> lane (links_of h) (heads pq ! q) (tails pq ! q) (ls ! q)"
    and "distinct (concat ls)" and "p + n = 3"
  shows "\<exists>hs es. free_lanes n h pq (int p) =
      Some (h |` (- \<Union> (set ` set (drop p ls))), pq\<lparr>heads := hs, tails := es\<rparr>) \<and>
    hs = take p (heads pq) @ replicate n None \<and> es = take p (tails pq) @ replicate n None"
  using assms
proof (induction n arbitrary: h pq p)
  case 0
  then show ?case by simp
next
  case (Suc n)
  then have p: "p < 3" by simp
  let ?h = "h |` (- set (ls ! p))"
  let ?pq = "pq\<lparr>tails := (tails pq)[p := None], heads := (heads pq)[p := None]\<rparr>"
  have "free_lane h (heads pq ! p) = Some ?h"
    using Suc.prems(4) p by (intro free_lane_ok) (auto simp: lane_def)
  then have step: "free_lanes (Suc n) h pq (int p) = free_lanes n ?h ?pq (int (Suc p))"
    using Suc.prems(2,3) p by (simp add: add.commute)
  have lanes: "\<forall>q < 3. Suc p \<le> q \<longrightarrow> lane (links_of ?h) (heads ?pq ! q) (tails ?pq ! q) (ls ! q)"
  proof (intro allI impI)
    fix q assume q: "q < 3" "Suc p \<le> q"
    have "set (ls ! q) \<inter> set (ls ! p) = {}"
      using Suc.prems(1,5) p q by (intro lane_disjoint) auto
    with Suc.prems(4) q show "lane (links_of ?h) (heads ?pq ! q) (tails ?pq ! q) (ls ! q)"
      by (auto intro: lane_restrict)
  qed
  have "\<exists>hs es. free_lanes n ?h ?pq (int (Suc p)) =
      Some (?h |` (- \<Union> (set ` set (drop (Suc p) ls))), ?pq\<lparr>heads := hs, tails := es\<rparr>) \<and>
    hs = take (Suc p) (heads ?pq) @ replicate n None \<and> es = take (Suc p) (tails ?pq) @ replicate n None"
    using Suc.prems lanes by (intro Suc.IH) auto
  moreover have "?h |` (- \<Union> (set ` set (drop (Suc p) ls))) = h |` (- \<Union> (set ` set (drop p ls)))"
    using p Suc.prems(1) by (auto simp: Cons_nth_drop_Suc [symmetric] restrict_map_def fun_eq_iff)
  moreover have "take (Suc p) (xs[p := None]) @ replicate n None = take p xs @ replicate (Suc n) None"
    if "length xs = 3" for xs :: "ptr list"
    using p that by (simp add: take_Suc_conv_app_nth)
  ultimately show ?case using step Suc.prems(2,3) by simp
qed

text \<open>\<^verbatim>\<open>pq_destroy\<close> frees exactly the queued nodes and ends with an empty, uninitialised object.\<close>

lemma pq_destroy_ok:
  assumes inv: "pq_inv h pq ls"
  shows "\<exists>pq'. pq_destroy h (Some pq) = Some (h |` (- set (concat ls)), Some pq') \<and>
    heads pq' = [None, None, None] \<and> tails pq' = [None, None, None] \<and> ready_mask pq' = 0 \<and>
    pq_count pq' = 0 \<and> depth pq' = 0 \<and> pq_mutex pq' = MUninit \<and> not_empty pq' = CUninit"
proof -
  let ?pq = "pq\<lparr>pq_mutex := MHeld\<rparr>"
  have core: "pq_core h ?pq ls" and m: "pq_mutex pq = MFree" and c: "not_empty pq \<noteq> CUninit"
    using inv by (auto simp: pq_inv_def)
  from core have "\<exists>hs es. free_lanes 3 h ?pq (int 0) =
      Some (h |` (- \<Union> (set ` set (drop 0 ls))), ?pq\<lparr>heads := hs, tails := es\<rparr>) \<and>
    hs = take 0 (heads ?pq) @ replicate 3 None \<and> es = take 0 (tails ?pq) @ replicate 3 None"
    by (intro free_lanes_ok) (auto simp: pq_core_def)
  then have "free_lanes 3 h ?pq 0 = Some (h |` (- set (concat ls)),
      ?pq\<lparr>heads := [None, None, None], tails := [None, None, None]\<rparr>)"
    by (simp add: numeral_3_eq_3)
  moreover obtain ws where "not_empty pq = CLive ws" using c by (cases "not_empty pq") auto
  ultimately show ?thesis
    using m by (simp add: pq_destroy_def pq_lock_free pq_unlock_def priority_defs)
qed

section \<open>The queue interface\<close>

definition pq_rep :: "task_heap \<times> priority_queue_t \<Rightarrow> addr lanes \<Rightarrow> bool" where
  "pq_rep q ls = pq_inv (fst q) (snd q) ls"

definition pq_lane_of :: "task_heap \<times> priority_queue_t \<Rightarrow> addr \<Rightarrow> nat option" where
  "pq_lane_of q a =
     (case fst q a of None \<Rightarrow> None
      | Some t \<Rightarrow> if 0 \<le> priority t \<and> priority t < NUM_PRIORITIES then Some (nat (priority t)) else None)"

definition pq_enqueue :: "task_heap \<times> priority_queue_t \<Rightarrow> addr \<Rightarrow> (task_heap \<times> priority_queue_t) option" where
  "pq_enqueue q a = do {
     (h, pqp) \<leftarrow> pq_push (fst q) (Some (snd q)) (Some a);
     pq \<leftarrow> pqp;
     Some (h, pq) }"

definition pq_dequeue :: "task_heap \<times> priority_queue_t \<Rightarrow> (ptr \<times> task_heap \<times> priority_queue_t) option" where
  "pq_dequeue q = do {
     (t, h, pqp) \<leftarrow> pq_pop_nonblock (fst q) (Some (snd q));
     pq \<leftarrow> pqp;
     Some (t, h, pq) }"

lemma same_nodes_lane_of: "same_nodes h h' \<Longrightarrow> pq_lane_of (h', pq') = pq_lane_of (h, pq)"
proof
  fix a assume "same_nodes h h'"
  then have "map_option payload (h' a) = map_option payload (h a)"
    by (simp add: same_nodes_def)
  then show "pq_lane_of (h', pq') a = pq_lane_of (h, pq) a"
    by (cases "h a"; cases "h' a") (auto simp: pq_lane_of_def dest!: payload_eqD)
qed

lemma pq_lane_of_Some:
  "pq_lane_of (h, pq) a = Some p \<Longrightarrow> \<exists>t. h a = Some t \<and> priority t = int p \<and> p < 3"
  by (auto simp: pq_lane_of_def priority_defs split: option.splits if_splits)

interpretation task_queue: priority_lanes pq_rep pq_lane_of pq_enqueue pq_dequeue
proof unfold_locales
  fix q :: "task_heap \<times> priority_queue_t" and L x p
  obtain h pq where q: "q = (h, pq)" by (cases q)
  assume rep: "pq_rep q L"
  then have inv: "pq_inv h pq L" by (simp add: q pq_rep_def)
  then show "distinct (concat L)" by (simp add: pq_inv_def pq_core_def)
  {
    assume lane: "pq_lane_of q x = Some p"
    then obtain t where t: "h x = Some t" "priority t = int p" "p < 3"
      using pq_lane_of_Some q by blast
    with inv show "p < length L" by (simp add: pq_inv_def pq_core_def)
    assume "x \<notin> set (concat L)"
    from pq_push_ok [OF inv t this]
    show "\<exists>q'. pq_enqueue q x = Some q' \<and> pq_rep q' (lanes_push p x L) \<and> pq_lane_of q' = pq_lane_of q"
      by (auto simp: pq_enqueue_def pq_rep_def q intro: same_nodes_lane_of)
  }
  {
    assume "lanes_pop L = None"
    then have "concat L = []" by (simp only: lanes_pop_None)
    from pq_pop_nonblock_empty [OF inv this] rep
    show "\<exists>q'. pq_dequeue q = Some (None, q') \<and> pq_rep q' L \<and> pq_lane_of q' = pq_lane_of q"
      by (simp add: pq_dequeue_def q)
  }
  {
    fix L' assume "lanes_pop L = Some (x, L')"
    from pq_pop_nonblock_task [OF inv this]
    show "\<exists>q'. pq_dequeue q = Some (Some x, q') \<and> pq_rep q' L' \<and> pq_lane_of q' = pq_lane_of q"
      by (auto simp: pq_dequeue_def pq_rep_def q intro: same_nodes_lane_of)
  }
qed

section \<open>Properties\<close>

text \<open>A small heap for the concrete instances.\<close>

definition sample_task :: "u64 \<Rightarrow> task_priority \<Rightarrow> task_t" where
  "sample_task i p = \<lparr>task_id = i, func = Some 7, arg = None, priority = p,
     submit_time = \<lparr>tv_sec = 0, tv_nsec = 0\<rparr>, task_next = None\<rparr>"

definition sample_heap :: task_heap where
  "sample_heap = [1 \<mapsto> sample_task 0 0, 2 \<mapsto> sample_task 1 2, 3 \<mapsto> sample_task 2 1, 4 \<mapsto> sample_task 3 2]"

lemmas sample_defs = sample_heap_def sample_task_def

lemma batch_lanes:
  assumes "\<forall>a \<in> set xs. pq_lane_of (h, pq) a \<noteq> None"
  shows "serve_order (foldl (\<lambda>L x. lanes_push (the (pq_lane_of (h, pq) x)) x L) [[], [], []] xs) =
    filter (lane_prio_ok h 2) xs @ filter (lane_prio_ok h 1) xs @ filter (lane_prio_ok h 0) xs"
proof -
  let ?f = "\<lambda>x. the (pq_lane_of (h, pq) x)"
  have lane: "?f x < 3 \<and> (\<forall>p. ?f x = p \<longleftrightarrow> lane_prio_ok h p x)" if x: "x \<in> set xs" for x
  proof -
    obtain p where "pq_lane_of (h, pq) x = Some p" using assms x by auto
    with pq_lane_of_Some [OF this] show ?thesis by (auto simp: lane_prio_ok_def)
  qed
  then have "foldl (\<lambda>L x. lanes_push (?f x) x L) [[], [], []] xs =
      map (\<lambda>p. [[], [], []] ! p @ filter (\<lambda>x. ?f x = p) xs) [0 ..< length [[], [], [] :: addr list]]"
    by (intro foldl_lanes_push) (auto simp: numeral_3_eq_3)
  also have "\<dots> = [filter (\<lambda>x. ?f x = 0) xs, filter (\<lambda>x. ?f x = 1) xs, filter (\<lambda>x. ?f x = 2) xs]"
    by (simp add: upt_rec numeral_2_eq_2)
  also have "\<dots> = [filter (lane_prio_ok h 0) xs, filter (lane_prio_ok h 1) xs, filter (lane_prio_ok h 2) xs]"
  proof -
    have "filter (\<lambda>x. ?f x = p) xs = filter (lane_prio_ok h p) xs" for p
      using lane by (intro filter_cong refl) blast
    then show ?thesis by (simp only:)
  qed
  finally show ?thesis by (simp add: serve_order_def)
qed

text \<open>
  C7: After \<^verbatim>\<open>pq_init\<close>, pushing any batch of distinct live tasks with valid priorities and then
  popping until the queue reports empty returns every task exactly once: all high ones first,
  then the medium ones, then the low ones, and within one priority in the order of the pushes.
  No call faults.
\<close>

theorem pq_serves_by_priority:
  assumes "distinct xs" and "\<forall>a \<in> set xs. pq_lane_of (h, pq_zero) a \<noteq> None"
  shows "\<exists>pq q q'. pq_init 0 0 (Some pq0) = Some (0, Some pq) \<and>
    push_with pq_enqueue (h, pq) xs = Some q \<and>
    drain_with pq_dequeue (Suc (length xs)) q =
      Some (filter (lane_prio_ok h 2) xs @ filter (lane_prio_ok h 1) xs @ filter (lane_prio_ok h 0) xs, q')"
proof -
  let ?q = "(h, pq_fresh)"
  let ?L = "foldl (\<lambda>L x. lanes_push (the (pq_lane_of ?q x)) x L) [[], [], []] xs"
  have lanes: "\<forall>a \<in> set xs. pq_lane_of ?q a \<noteq> None" using assms(2) by (simp add: pq_lane_of_def)
  have "pq_rep ?q [[], [], []]" by (simp add: pq_rep_def pq_fresh_inv)
  then obtain q where q: "push_with pq_enqueue ?q xs = Some q" "pq_rep q ?L"
    using task_queue.push_batch [of ?q "[[], [], []]" xs] assms(1) lanes by auto
  have order: "serve_order ?L =
      filter (lane_prio_ok h 2) xs @ filter (lane_prio_ok h 1) xs @ filter (lane_prio_ok h 0) xs"
    using lanes by (rule batch_lanes)
  have "length (concat ?L) = length (serve_order ?L)"
    by (rule length_serve_order [symmetric])
  also have "\<dots> \<le> length xs"
    unfolding order by (induction xs) (auto simp: lane_prio_ok_def split: option.splits)
  finally have "length (concat ?L) < Suc (length xs)" by simp
  from task_queue.drain_serves [OF q(2) this] obtain q' where
    "drain_with pq_dequeue (Suc (length xs)) q = Some (serve_order ?L, q')" by blast
  with q(1) pq_init_fresh [of pq0] show ?thesis unfolding order by blast
qed

theorem pq_serves_by_priority_witness:
  "\<exists>pq q q'. pq_init 0 0 (Some pq_zero) = Some (0, Some pq) \<and>
    push_with pq_enqueue (sample_heap, pq) [1, 2, 3, 4] = Some q \<and>
    drain_with pq_dequeue (Suc (length [1, 2, 3, 4 :: addr])) q = Some ([2, 4, 3, 1], q')"
proof -
  have d: "distinct [1, 2, 3, 4 :: addr]" by simp
  have l: "\<forall>a \<in> set [1, 2, 3, 4]. pq_lane_of (sample_heap, pq_zero) a \<noteq> None"
    by (simp add: sample_defs pq_lane_of_def priority_defs)
  have f: "filter (lane_prio_ok sample_heap 2) [1, 2, 3, 4] @
      filter (lane_prio_ok sample_heap 1) [1, 2, 3, 4] @
      filter (lane_prio_ok sample_heap 0) [1, 2, 3, 4] = [2, 4, 3, 1]"
    by (simp add: sample_defs lane_prio_ok_def)
  show ?thesis using pq_serves_by_priority [OF d l, of pq_zero] unfolding f .
qed

text \<open>A queue object with one low and one high task, for the concrete instances.\<close>

definition sample_pq :: priority_queue_t where
  "sample_pq = \<lparr>heads = [Some 1, None, Some 2], tails = [Some 1, None, Some 2], ready_mask = 5,
     pq_count = 2, depth = 2, max_tasks = 3, pq_mutex = MFree, not_empty = CLive []\<rparr>"

lemma all_less_3: "(\<forall>p < (3::nat). P p) \<longleftrightarrow> P 0 \<and> P 1 \<and> P 2"
  by (auto simp: less_Suc_eq numeral_3_eq_3 numeral_2_eq_2)

lemma mask_ok_5: "x \<noteq> [] \<Longrightarrow> y \<noteq> [] \<Longrightarrow> mask_ok 5 [x, [], y]"
proof -
  assume "x \<noteq> []" "y \<noteq> []"
  have "mask_ok 0 [[], [], []]" by (auto simp: mask_ok_def nth_Cons')
  from mask_ok_update(1) [OF this, of 0 x] \<open>x \<noteq> []\<close> have "mask_ok (set_bit 0 0) [x, [], []]" by simp
  from mask_ok_update(1) [OF this, of 2 y] \<open>y \<noteq> []\<close> have "mask_ok (set_bit 2 (set_bit 0 0)) [x, [], y]" by simp
  moreover have "set_bit 2 (set_bit 0 0) = (5 :: u32)" by (simp add: set_bit_eq_or)
  ultimately show ?thesis by simp
qed

lemma sample_pq_inv: "pq_inv sample_heap sample_pq [[1], [], [2]]"
  unfolding pq_inv_def pq_core_def all_less_3
  by (simp add: sample_pq_def sample_defs lane_def links_of_def tail_of_def lane_prio_ok_def mask_ok_5)

text \<open>
  C8: \<^verbatim>\<open>pq_push\<close> of a live task with a valid priority that is not queued yet: it returns
  without a fault, appends the task at the end of the lane of its priority, keeps the queue
  invariant (chains, tails, mask, both counters, lock released), changes no other field of any
  task, and signals the condition variable.
\<close>

theorem pq_push_refines:
  assumes "pq_inv h pq ls" and "h a = Some t" and "priority t = int p" and "p < 3"
    and "a \<notin> set (concat ls)"
  shows "\<exists>h' pq'. pq_push h (Some pq) (Some a) = Some (h', Some pq') \<and>
    pq_inv h' pq' (lanes_push p a ls) \<and> same_nodes h h' \<and>
    max_tasks pq' = max_tasks pq \<and> sent Signal pq pq'"
  using assms by (rule pq_push_ok)

theorem pq_push_refines_witness:
  "\<exists>h' pq'. pq_push sample_heap (Some sample_pq) (Some 4) = Some (h', Some pq') \<and>
    pq_inv h' pq' [[1], [], [2, 4]] \<and> sent Signal sample_pq pq'"
proof -
  have "sample_heap 4 = Some (sample_task 3 2)" "priority (sample_task 3 2) = int 2"
    by (simp_all add: sample_defs)
  from pq_push_refines [OF sample_pq_inv this] show ?thesis by (auto simp: lanes_push_def)
qed

text \<open>
  C9: One run of the loop body of \<^verbatim>\<open>pq_pop_until_shutdown\<close> (and so of \<^verbatim>\<open>pq_pop\<close>): on a
  non-empty queue it returns the oldest task of the highest non-empty priority, whatever the
  shutdown flag says, and keeps the invariant; on an empty queue it returns NULL when shutdown
  was requested and otherwise blocks, with the queue unchanged in both cases.
\<close>

theorem pq_pop_highest_oldest:
  assumes "pq_inv h pq ls"
  shows "case lanes_pop ls of
      Some (a, ls') \<Rightarrow> \<exists>h' pq'. pq_pop_until_shutdown h (Some pq) flag = Some (PopTask a, h', Some pq') \<and>
        pq_inv h' pq' ls' \<and> same_nodes h h' \<and> max_tasks pq' = max_tasks pq
    | None \<Rightarrow> pq_pop_until_shutdown h (Some pq) flag =
        Some (if shutdown_requested flag then PopNull else PopWait, h, Some pq)"
proof (cases "lanes_pop ls")
  case None
  then have "concat ls = []" by (simp only: lanes_pop_None)
  with None pq_pop_until_shutdown_empty [OF assms] show ?thesis by simp
next
  case (Some x)
  then obtain a ls' where "lanes_pop ls = Some (a, ls')" by (cases x) auto
  with pq_pop_until_shutdown_task [OF assms this, of flag] show ?thesis by auto
qed

theorem pq_pop_highest_oldest_witness:
  "\<exists>h' pq'. pq_pop_until_shutdown sample_heap (Some sample_pq) (Some True) = Some (PopTask 2, h', Some pq') \<and>
    pq_inv h' pq' [[1], [], []]"
proof -
  have "lanes_pop [[1], [], [2 :: addr]] = Some (2, [[1], [], []])"
    by (simp add: lanes_pop_def top_lane_def numeral_2_eq_2)
  with pq_pop_highest_oldest [OF sample_pq_inv, of "Some True"] show ?thesis by auto
qed

text \<open>
  C10: \<^verbatim>\<open>pq_try_push\<close> enforces the capacity under the lock: it accepts the task exactly when no
  cap is set or fewer tasks than the cap are queued, it then inserts like \<^verbatim>\<open>pq_push\<close>, and a
  rejected call changes nothing. A queue within its cap is within it afterwards, and the
  lock-free \<^verbatim>\<open>pq_is_full_approx\<close> agrees with the decision whenever no call is in progress.
\<close>

theorem pq_try_push_capacity:
  assumes inv: "pq_inv h pq ls" and t: "h a = Some t" "priority t = int p" "p < 3"
    and fresh: "a \<notin> set (concat ls)" and small: "length (concat ls) < 2 ^ 64 - 1"
  shows "\<exists>ok h' pq' ls'. pq_try_push h (Some pq) (Some a) = Some (ok, h', Some pq') \<and>
    ok = (max_tasks pq = 0 \<or> length (concat ls) < unat (max_tasks pq)) \<and>
    ok = (\<not> pq_is_full_approx (Some pq)) \<and>
    ls' = (if ok then lanes_push p a ls else ls) \<and> pq_inv h' pq' ls' \<and> same_nodes h h' \<and>
    (\<not> ok \<longrightarrow> h' = h \<and> pq' = pq) \<and>
    (max_tasks pq \<noteq> 0 \<and> length (concat ls) \<le> unat (max_tasks pq) \<longrightarrow>
       length (concat ls') \<le> unat (max_tasks pq'))"
proof -
  have full: "pq_full pq \<longleftrightarrow> max_tasks pq \<noteq> 0 \<and> unat (max_tasks pq) \<le> length (concat ls)"
    using small by (intro pq_full_iff [OF inv]) simp
  show ?thesis
  proof (cases "pq_full pq")
    case True
    with full pq_try_push_full [OF inv True, of a] inv show ?thesis
      by (auto simp: pq_is_full_approx_exact [OF inv])
  next
    case False
    have "length (concat (lanes_push p a ls)) = Suc (length (concat ls))"
      using mset_lanes_push [of p ls a] t(3) pq_inv_length [OF inv] by (metis size_mset size_add_mset)
    with False full pq_try_push_room [OF inv False t fresh] show ?thesis
      by (fastforce simp: pq_is_full_approx_exact [OF inv])
  qed
qed

theorem pq_try_push_capacity_witness:
  "\<exists>h' pq'. pq_try_push sample_heap (Some sample_pq) (Some 4) = Some (True, h', Some pq') \<and>
    pq_inv h' pq' [[1], [], [2, 4]]"
proof -
  have t: "sample_heap 4 = Some (sample_task 3 2)" "priority (sample_task 3 2) = int 2"
    by (simp_all add: sample_defs)
  have "max_tasks sample_pq = 0 \<or> length (concat [[1], [], [2 :: addr]]) < unat (max_tasks sample_pq)"
    by (simp add: sample_pq_def)
  with pq_try_push_capacity [OF sample_pq_inv t] show ?thesis by (auto simp: lanes_push_def)
qed

text \<open>
  C13: \<^verbatim>\<open>pq_destroy\<close> terminates without a fault, frees exactly the queued tasks, each once, keeps
  every other task node, and leaves an empty object whose lock and condition variable are
  destroyed.
\<close>

theorem pq_destroy_frees_exactly_the_queue:
  assumes "pq_inv h pq ls"
  shows "\<exists>h' pq'. pq_destroy h (Some pq) = Some (h', Some pq') \<and>
    (\<forall>a. h' a = (if a \<in> set (concat ls) then None else h a)) \<and>
    heads pq' = [None, None, None] \<and> tails pq' = [None, None, None] \<and> ready_mask pq' = 0 \<and>
    pq_count pq' = 0 \<and> depth pq' = 0 \<and> pq_mutex pq' = MUninit \<and> not_empty pq' = CUninit"
  using pq_destroy_ok [OF assms] by (fastforce simp: restrict_map_def)

theorem pq_destroy_frees_exactly_the_queue_witness:
  "\<exists>h' pq'. pq_destroy sample_heap (Some sample_pq) = Some (h', Some pq') \<and> h' 1 = None \<and> h' 2 = None \<and>
    h' 3 = sample_heap 3"
  using pq_destroy_frees_exactly_the_queue [OF sample_pq_inv] by fastforce

text \<open>
  \<^verbatim>\<open>_get_highest_priority\<close>, computed with \<^verbatim>\<open>__builtin_clz\<close>, is the greatest index of a set
  bit; on an empty mask its \<^verbatim>\<open>assert\<close> fails.
\<close>

theorem get_highest_priority_max:
  "get_highest_priority m = (if m = 0 then None else Some (int (Max {p. bit m p})))"
proof (cases "m = 0")
  case True
  then show ?thesis by (simp add: get_highest_priority_def)
next
  case False
  from get_highest_priority_spec [OF False] obtain p where
    p: "get_highest_priority m = Some (int p)" "bit m p" "\<forall>q. bit m q \<longrightarrow> q \<le> p" by blast
  have "finite {p. bit m p}" by (rule finite_subset [of _ "{..p}"]) (use p(3) in auto)
  with p have "Max {p. bit m p} = p" by (intro Max_eqI) auto
  with p(1) False show ?thesis by simp
qed

text \<open>
  A priority outside the enumeration (for instance \<^verbatim>\<open>PRIORITY_COUNT\<close>, which the enumeration
  itself declares) is not checked anywhere on the way into the queue: \<^verbatim>\<open>pq_push\<close> and an
  accepting \<^verbatim>\<open>pq_try_push\<close> then access the lane arrays out of bounds.
\<close>

theorem invalid_priority_faults:
  assumes inv: "pq_inv h pq ls" and t: "h a = Some t" and bad: "priority t < 0 \<or> NUM_PRIORITIES \<le> priority t"
  shows "pq_push h (Some pq) (Some a) = None \<and>
    (\<not> pq_full pq \<longrightarrow> pq_try_push h (Some pq) (Some a) = None)"
proof -
  have len: "length (tails pq) = 3" and m: "pq_mutex pq = MFree"
    using inv by (simp_all add: pq_inv_def pq_core_def)
  then have "array_get (tails pq) (priority t) = None"
    using bad by (auto simp: array_get_None_iff priority_defs)
  then have "pq_insert_locked h (pq\<lparr>pq_mutex := MHeld\<rparr>) a = None"
    using t by (simp add: pq_insert_locked_def)
  with m show ?thesis
    by (auto simp: pq_push_def pq_try_push_def pq_lock_free pq_full_def Let_def)
qed

theorem invalid_priority_faults_witness:
  "pq_push (sample_heap(9 \<mapsto> sample_task 9 PRIORITY_COUNT)) (Some pq_fresh) (Some 9) = None"
  using invalid_priority_faults [OF pq_fresh_inv, of "sample_heap(9 \<mapsto> sample_task 9 PRIORITY_COUNT)" 9]
  by (simp add: sample_task_def priority_defs)

end
