(* ===== verification/Aging.thy ===== *)
theory Aging
  imports Priority_Queue
begin

text \<open>
  The aging scan of \<^verbatim>\<open>src/priority_queue.c\<close> (\<^verbatim>\<open>has_passed_ms\<close>, \<^verbatim>\<open>pq_aging_promote_prefix\<close>,
  \<^verbatim>\<open>pq_aging\<close>): the longest prefix of a lane whose nodes waited long enough moves, as one
  chain, to the front of the next higher lane. Times are \<^verbatim>\<open>long\<close>s, so every arithmetic step
  is checked for overflow.
\<close>

section \<open>Operations\<close>

definition has_passed_ms :: "timespec \<Rightarrow> timespec \<Rightarrow> int \<Rightarrow> bool option" where
  "has_passed_ms start fin target_ms =
     (if tv_sec start = 0 \<and> tv_nsec start = 0 then Some False
      else do {
        sec_diff \<leftarrow> long_sub (tv_sec fin) (tv_sec start);
        nsec_diff \<leftarrow> long_sub (tv_nsec fin) (tv_nsec start);
        (sec_diff, nsec_diff) \<leftarrow>
          (if nsec_diff < 0 then do {
             s \<leftarrow> long_sub sec_diff 1;
             n \<leftarrow> long_add nsec_diff 1000000000;
             Some (s, n) }
           else Some (sec_diff, nsec_diff));
        sec_ns \<leftarrow> long_mul sec_diff 1000000000;
        total_ns \<leftarrow> long_add sec_ns nsec_diff;
        target_ns \<leftarrow> long_mul target_ms 1000000;
        Some (total_ns \<ge> target_ns) })"

text \<open>\<^verbatim>\<open>while (prefix_tail->next && has_passed_ms(...)) prefix_tail = prefix_tail->next;\<close>\<close>

partial_function (option) prefix_tail_loop :: "task_heap \<Rightarrow> timespec \<Rightarrow> int \<Rightarrow> addr \<Rightarrow> addr option" where
  "prefix_tail_loop h now ms cur = do {
     node \<leftarrow> h cur;
     (case task_next node of
        None \<Rightarrow> Some cur
      | Some n \<Rightarrow> do {
          nn \<leftarrow> h n;
          passed \<leftarrow> has_passed_ms (submit_time nn) now ms;
          if passed then prefix_tail_loop h now ms n else Some cur }) }"

text \<open>\<^verbatim>\<open>for (node = prefix_head;; node = node->next) { node->priority = dst; if (node == prefix_tail) break; }\<close>\<close>

partial_function (option) retag_loop :: "task_heap \<Rightarrow> task_priority \<Rightarrow> addr \<Rightarrow> addr \<Rightarrow> task_heap option" where
  "retag_loop h dst node cur = do {
     t \<leftarrow> h node;
     let h' = h(node \<mapsto> t\<lparr>priority := dst\<rparr>);
     if node = cur then Some h'
     else do {
       n \<leftarrow> task_next t;
       retag_loop h' dst n cur } }"

text \<open>
  \<open>now\<close> is what \<^verbatim>\<open>clock_gettime\<close> stored, \<open>flag\<close> the shutdown flag as loaded after it.
\<close>

definition pq_aging_promote_prefix ::
  "task_heap \<Rightarrow> priority_queue_t \<Rightarrow> task_priority \<Rightarrow> task_priority \<Rightarrow> bool option \<Rightarrow> timespec \<Rightarrow> int \<Rightarrow>
     (bool \<times> task_heap \<times> priority_queue_t) option" where
  "pq_aging_promote_prefix h pq src dst flag now promote_time_ms =
     (if shutdown_requested flag then Some (False, h, pq)
      else do {
        pq \<leftarrow> pq_lock pq;
        prefix_head \<leftarrow> array_get (heads pq) src;
        passed \<leftarrow>
          (case prefix_head of
             None \<Rightarrow> Some False
           | Some a \<Rightarrow> do { t \<leftarrow> h a; has_passed_ms (submit_time t) now promote_time_ms });
        if \<not> passed
        then do { pq \<leftarrow> pq_unlock pq; Some (False, h, pq) }
        else do {
          first \<leftarrow> prefix_head;
          prefix_tail \<leftarrow> prefix_tail_loop h now promote_time_ms first;
          tail_node \<leftarrow> h prefix_tail;
          let next_after = task_next tail_node;
          hds \<leftarrow> array_set (heads pq) src next_after;
          let pq = pq\<lparr>heads := hds\<rparr>;
          src_head \<leftarrow> array_get (heads pq) src;
          pq \<leftarrow>
            (if src_head = None then do {
               tls \<leftarrow> array_set (tails pq) src None;
               m \<leftarrow> mask_clear (ready_mask pq) src;
               Some (pq\<lparr>tails := tls, ready_mask := m\<rparr>) }
             else Some pq);
          h \<leftarrow> retag_loop h dst first prefix_tail;
          dst_head \<leftarrow> array_get (heads pq) dst;
          tail_node \<leftarrow> h prefix_tail;
          let h = h(prefix_tail \<mapsto> tail_node\<lparr>task_next := dst_head\<rparr>);
          hds \<leftarrow> array_set (heads pq) dst (Some first);
          let pq = pq\<lparr>heads := hds\<rparr>;
          dst_tail \<leftarrow> array_get (tails pq) dst;
          pq \<leftarrow>
            (if dst_tail = None then do {
               tls \<leftarrow> array_set (tails pq) dst (Some prefix_tail);
               Some (pq\<lparr>tails := tls\<rparr>) }
             else Some pq);
          m \<leftarrow> mask_set (ready_mask pq) dst;
          let pq = pq\<lparr>ready_mask := m\<rparr>;
          pq \<leftarrow> pq_unlock pq;
          pq \<leftarrow> pq_broadcast pq;
          Some (True, h, pq) } })"

text \<open>
  \<^verbatim>\<open>pq_aging\<close> loads the shutdown flag three times (in each scan and between the two) and reads
  the clock in each scan.
\<close>

definition pq_aging ::
  "task_heap \<Rightarrow> priority_queue_t option \<Rightarrow> bool option \<Rightarrow> bool option \<Rightarrow> bool option \<Rightarrow>
     timespec \<Rightarrow> timespec \<Rightarrow> int \<Rightarrow> (task_heap \<times> priority_queue_t option) option" where
  "pq_aging h pqp flag1 flag2 flag3 now1 now2 promote_time_ms =
     (case pqp of
        None \<Rightarrow> Some (h, None)
      | Some pq \<Rightarrow> do {
          (_, h, pq) \<leftarrow> pq_aging_promote_prefix h pq PRIORITY_MEDIUM PRIORITY_HIGH flag1 now1 promote_time_ms;
          if shutdown_requested flag2 then Some (h, Some pq)
          else do {
            (_, h, pq) \<leftarrow> pq_aging_promote_prefix h pq PRIORITY_LOW PRIORITY_MEDIUM flag3 now2 promote_time_ms;
            Some (h, Some pq) } })"

section \<open>Elapsed time\<close>

text \<open>
  A normalised time below 9 billion seconds (the monotonic clock counts from boot), and a
  promotion time below 9 billion seconds in milliseconds: then no step overflows.
\<close>

definition time_ok :: "timespec \<Rightarrow> bool" where
  "time_ok ts \<longleftrightarrow> 0 \<le> tv_sec ts \<and> tv_sec ts \<le> 9000000000 \<and> 0 \<le> tv_nsec ts \<and> tv_nsec ts < 1000000000"

definition ns_of :: "timespec \<Rightarrow> int" where
  "ns_of ts = tv_sec ts * 1000000000 + tv_nsec ts"

definition stamped :: "timespec \<Rightarrow> bool" where
  "stamped ts \<longleftrightarrow> \<not> (tv_sec ts = 0 \<and> tv_nsec ts = 0)"

lemma has_passed_ms_spec:
  assumes "time_ok start" and "time_ok fin" and "0 \<le> ms" and "ms \<le> 9000000000000"
  shows "has_passed_ms start fin ms =
    Some (stamped start \<and> ms * 1000000 \<le> ns_of fin - ns_of start)"
  using assms
  by (auto simp: has_passed_ms_def long_sub_def long_add_def long_mul_def long_of_def long_ok_def
      time_ok_def stamped_def ns_of_def)

section \<open>The two loops\<close>

text \<open>Whether a node has waited long enough at time \<open>now\<close>, as the scan decides it.\<close>

definition aged :: "task_heap \<Rightarrow> timespec \<Rightarrow> int \<Rightarrow> addr \<Rightarrow> bool" where
  "aged h now ms a =
     (case h a of None \<Rightarrow> False
      | Some t \<Rightarrow> stamped (submit_time t) \<and> ms * 1000000 \<le> ns_of now - ns_of (submit_time t))"

text \<open>The clock value, the promotion time and the stamps of the queued nodes are in range.\<close>

definition scan_ok :: "task_heap \<Rightarrow> timespec \<Rightarrow> int \<Rightarrow> addr list \<Rightarrow> bool" where
  "scan_ok h now ms as \<longleftrightarrow>
     time_ok now \<and> 0 \<le> ms \<and> ms \<le> 9000000000000 \<and>
     list_all (\<lambda>a. case h a of None \<Rightarrow> True | Some t \<Rightarrow> time_ok (submit_time t)) as"

lemma scan_ok_passed:
  assumes "scan_ok h now ms as" and "a \<in> set as" and "h a = Some t"
  shows "has_passed_ms (submit_time t) now ms = Some (aged h now ms a)"
proof -
  from assms have "time_ok (submit_time t)" "time_ok now" "0 \<le> ms" "ms \<le> 9000000000000"
    by (auto simp: scan_ok_def list_all_iff)
  with assms(3) show ?thesis by (simp add: has_passed_ms_spec aged_def)
qed

text \<open>The first loop ends at the last node of the aged prefix.\<close>

lemma prefix_tail_loop_ok:
  "lseg (links_of h) (Some a) (a # as) None \<Longrightarrow> scan_ok h now ms as \<Longrightarrow>
     prefix_tail_loop h now ms a = Some (last (a # takeWhile (aged h now ms) as))"
proof (induction as arbitrary: a)
  case Nil
  then obtain t where "h a = Some t" "task_next t = None"
    by (auto simp: links_of_Some_iff split: option.splits)
  then show ?case by (subst prefix_tail_loop.simps) simp
next
  case (Cons b as)
  from Cons.prems(1) obtain t where t: "h a = Some t" "task_next t = Some b"
    and rest: "lseg (links_of h) (Some b) (b # as) None"
    by (auto simp: links_of_Some_iff split: option.splits)
  from rest obtain tb where tb: "h b = Some tb"
    by (auto simp: links_of_Some_iff split: option.splits)
  have passed: "has_passed_ms (submit_time tb) now ms = Some (aged h now ms b)"
    using scan_ok_passed [OF Cons.prems(2) _ tb] by simp
  have "prefix_tail_loop h now ms a =
      (if aged h now ms b then prefix_tail_loop h now ms b else Some a)"
    using t tb passed by (subst prefix_tail_loop.simps) simp
  moreover have "scan_ok h now ms as" using Cons.prems(2) by (simp add: scan_ok_def)
  ultimately show ?case using Cons.IH [OF rest] by simp
qed

definition retag :: "task_heap \<Rightarrow> task_priority \<Rightarrow> addr set \<Rightarrow> task_heap" where
  "retag h dst A = (\<lambda>x. if x \<in> A then map_option (\<lambda>t. t\<lparr>priority := dst\<rparr>) (h x) else h x)"

lemma links_of_retag [simp]: "links_of (retag h dst A) = links_of h"
  by (auto simp: links_of_def retag_def option.map_comp o_def)

lemma retag_loop_ok:
  "lseg (links_of h) (Some a) (a # as) y \<Longrightarrow> distinct (a # as) \<Longrightarrow>
     retag_loop h dst a (last (a # as)) = Some (retag h dst (set (a # as)))"
proof (induction as arbitrary: a h)
  case Nil
  then obtain t where "h a = Some t"
    by (auto simp: links_of_Some_iff split: option.splits)
  then show ?case
    by (subst retag_loop.simps) (auto simp: retag_def fun_eq_iff)
next
  case (Cons b as)
  from Cons.prems(1) obtain t where t: "h a = Some t" "task_next t = Some b"
    and rest: "lseg (links_of h) (Some b) (b # as) y"
    by (auto simp: links_of_Some_iff split: option.splits)
  let ?h = "h(a \<mapsto> t\<lparr>priority := dst\<rparr>)"
  have "links_of ?h = links_of h" using t by (auto simp: links_of_def)
  with rest have "lseg (links_of ?h) (Some b) (b # as) y" by simp
  then have "retag_loop ?h dst b (last (b # as)) = Some (retag ?h dst (set (b # as)))"
    by (rule Cons.IH) (use Cons.prems(2) in simp)
  moreover have "retag ?h dst (set (b # as)) = retag h dst (set (a # b # as))"
    using t by (auto simp: retag_def fun_eq_iff)
  moreover have "a \<noteq> last (b # as)" using Cons.prems(2) by (metis distinct.simps(2) last_in_set list.discI)
  ultimately show ?case using t by (subst retag_loop.simps) simp
qed

section \<open>Promotion of a prefix\<close>

text \<open>What aging keeps of a node: everything but its priority and its link.\<close>

definition job :: "task_t \<Rightarrow> u64 \<times> ptr \<times> ptr \<times> timespec" where
  "job t = (task_id t, func t, arg t, submit_time t)"

definition same_jobs :: "task_heap \<Rightarrow> task_heap \<Rightarrow> bool" where
  "same_jobs h h' \<longleftrightarrow> (\<forall>a. map_option job (h' a) = map_option job (h a))"

lemma same_jobs_refl [simp]: "same_jobs h h"
  by (simp add: same_jobs_def)

lemma same_jobs_trans [trans]: "same_jobs h h' \<Longrightarrow> same_jobs h' h'' \<Longrightarrow> same_jobs h h''"
  by (simp add: same_jobs_def)

lemma same_nodes_jobs: "same_nodes h h' \<Longrightarrow> same_jobs h h'"
  unfolding same_jobs_def
proof
  fix a assume "same_nodes h h'"
  then have "map_option payload (h' a) = map_option payload (h a)" by (simp add: same_nodes_def)
  then show "map_option job (h' a) = map_option job (h a)"
    by (cases "h a"; cases "h' a") (auto simp: job_def dest!: payload_eqD)
qed

lemma same_jobs_retag: "same_jobs h (retag h dst A)"
  by (auto simp: same_jobs_def retag_def option.map_comp o_def job_def [abs_def])

lemma same_jobs_relink: "h a = Some t \<Longrightarrow> same_jobs h (h(a \<mapsto> t\<lparr>task_next := x\<rparr>))"
  by (simp add: same_jobs_def job_def)

lemma same_jobs_cases:
  "same_jobs h h' \<Longrightarrow>
     (h a = None \<and> h' a = None) \<or> (\<exists>t t'. h a = Some t \<and> h' a = Some t' \<and> job t' = job t)"
  by (cases "h a"; cases "h' a") (auto simp: same_jobs_def dest: spec [of _ a])

lemma same_jobs_aged: "same_jobs h h' \<Longrightarrow> aged h' now ms a = aged h now ms a"
  using same_jobs_cases [of h h' a] by (auto simp: aged_def job_def)

lemma same_jobs_scan_ok: "same_jobs h h' \<Longrightarrow> scan_ok h' now ms as = scan_ok h now ms as"
proof -
  assume jobs: "same_jobs h h'"
  have "(case h' a of None \<Rightarrow> True | Some t \<Rightarrow> time_ok (submit_time t)) =
      (case h a of None \<Rightarrow> True | Some t \<Rightarrow> time_ok (submit_time t))" for a
    using same_jobs_cases [OF jobs, of a] by (auto simp: job_def)
  then show ?thesis by (simp add: scan_ok_def)
qed

text \<open>Redirecting the last link of a chain.\<close>

lemma lseg_relink:
  assumes "lseg nx x (as @ [b]) y" and "distinct (as @ [b])"
  shows "lseg (nx(b := Some z)) x (as @ [b]) z" and "nx b = Some y"
  using assms by (auto split: option.splits)

text \<open>A queue whose head of the lane has not aged is left as it is.\<close>

lemma promote_prefix_none:
  assumes inv: "pq_inv h pq ls" and src: "src < 3"
    and scan: "scan_ok h now ms (ls ! src)" and flag: "\<not> shutdown_requested flag"
    and none: "takeWhile (aged h now ms) (ls ! src) = []"
  shows "pq_aging_promote_prefix h pq (int src) dst flag now ms = Some (False, h, pq)"
proof -
  have m: "pq_mutex pq = MFree" and len: "length (heads pq) = 3"
    and lane: "lane (links_of h) (heads pq ! src) (tails pq ! src) (ls ! src)"
    using inv src by (auto simp: pq_inv_def pq_core_def)
  show ?thesis
  proof (cases "ls ! src")
    case Nil
    then have "heads pq ! src = None" using lane by simp
    with m len src flag show ?thesis
      by (simp add: pq_aging_promote_prefix_def pq_lock_free pq_unlock_held)
  next
    case (Cons a as)
    with lane obtain t where t: "heads pq ! src = Some a" "h a = Some t"
      by (auto simp: lane_Cons_iff links_of_Some_iff)
    have "has_passed_ms (submit_time t) now ms = Some False"
      using scan_ok_passed [OF scan _ t(2)] none Cons by (auto split: if_splits)
    with m len src flag t show ?thesis
      by (simp add: pq_aging_promote_prefix_def pq_lock_free pq_unlock_held)
  qed
qed

text \<open>
  The new lanes after a promotion, as one statement about the rewired heap: \<open>b\<close> is the last
  node of the prefix, whose link now leads to the old head of the destination lane.
\<close>

lemma promote_lanes:
  assumes inv: "pq_inv h pq ls" and sd: "src < 3" "dst < 3" "src \<noteq> dst"
    and split: "ls ! src = pre @ post" and pre: "pre \<noteq> []"
    and links: "links_of h' = (links_of h)(last pre := Some (heads pq ! dst))"
  shows "\<exists>y. links_of h (last pre) = Some y \<and> (y = None \<longleftrightarrow> post = []) \<and>
    lseg (links_of h) (Some (hd pre)) pre y \<and> heads pq ! src = Some (hd pre) \<and>
    lane (links_of h') y (if post = [] then None else tails pq ! src) post \<and>
    lane (links_of h') (Some (hd pre))
      (if tails pq ! dst = None then Some (last pre) else tails pq ! dst) (pre @ ls ! dst) \<and>
    (\<forall>q < 3. q \<noteq> src \<and> q \<noteq> dst \<longrightarrow> lane (links_of h') (heads pq ! q) (tails pq ! q) (ls ! q))"
proof -
  have len: "length ls = 3" and dist: "distinct (concat ls)"
    and lanes: "\<And>q. q < 3 \<Longrightarrow> lane (links_of h) (heads pq ! q) (tails pq ! q) (ls ! q)"
    using inv by (auto simp: pq_inv_def pq_core_def)
  have disj: "set (ls ! q) \<inter> set (ls ! r) = {}" if "q < 3" "r < 3" "q \<noteq> r" for q r
    using lane_disjoint [OF dist] that len by simp
  obtain pre' b where b: "pre = pre' @ [b]" using pre by (metis rev_exhaust)
  have src_lane: "lseg (links_of h) (heads pq ! src) (pre @ post) None" "distinct (pre @ post)"
    "tails pq ! src = tail_of (pre @ post)"
    using lanes [OF sd(1)] split by (simp_all add: lane_def)
  then obtain y where y: "lseg (links_of h) (heads pq ! src) pre y" "lseg (links_of h) y post None"
    by auto
  have hd: "heads pq ! src = Some (hd pre)" using y(1) pre by (cases pre) auto
  have frame: "lseg (links_of h') x as z = lseg (links_of h) x as z" if "b \<notin> set as" for x as z
    using that b links by simp
  have relink: "lseg (links_of h') (Some (hd pre)) pre (heads pq ! dst)" "links_of h (last pre) = Some y"
  proof -
    have seg: "lseg (links_of h) (Some (hd pre)) (pre' @ [b]) y" using y(1) unfolding hd b .
    have "distinct (pre' @ [b])" using src_lane(2) b by simp
    from lseg_relink [OF seg this] b links
    show "lseg (links_of h') (Some (hd pre)) pre (heads pq ! dst)" "links_of h (last pre) = Some y"
      by simp_all
  qed
  have "b \<notin> set post" using src_lane(2) b by auto
  then have post: "lane (links_of h') y (if post = [] then None else tails pq ! src) post"
    using y(2) src_lane(2,3) frame [of post] by (simp add: lane_def tail_of_append)
  have bq: "b \<notin> set (ls ! q)" if "q < 3" "q \<noteq> src" for q
    using disj [OF that(1) sd(1) that(2)] split b by auto
  have dst_lane: "lseg (links_of h) (heads pq ! dst) (ls ! dst) None" "distinct (ls ! dst)"
    "tails pq ! dst = tail_of (ls ! dst)"
    using lanes [OF sd(2)] by (simp_all add: lane_def)
  have "lseg (links_of h') (Some (hd pre)) (pre @ ls ! dst) None"
    using relink(1) dst_lane(1) frame [of "ls ! dst"] bq sd by auto
  moreover have "distinct (pre @ ls ! dst)"
    using src_lane(2) dst_lane(2) disj [OF sd] split by auto
  moreover have "(if tails pq ! dst = None then Some (last pre) else tails pq ! dst) = tail_of (pre @ ls ! dst)"
    using pre dst_lane(3) by (simp add: tail_of_append tail_of_def)
  ultimately have dst: "lane (links_of h') (Some (hd pre))
      (if tails pq ! dst = None then Some (last pre) else tails pq ! dst) (pre @ ls ! dst)"
    by (simp add: lane_def)
  have "lane (links_of h') (heads pq ! q) (tails pq ! q) (ls ! q)" if "q < 3" "q \<noteq> src" for q
    using lanes [OF that(1)] frame [OF bq [OF that]] by (simp add: lane_def)
  with post dst relink(2) y hd show ?thesis
    using lseg_head [OF y(2)] by auto
qed

text \<open>The mask, the priorities and the counters after a promotion.\<close>

lemma promote_core:
  assumes inv: "pq_inv h pq ls" and sd: "src < 3" "dst < 3" "src \<noteq> dst"
    and split: "ls ! src = pre @ post" and pre: "pre \<noteq> []"
    and lanes: "lane (links_of h') y es post" "lane (links_of h') (Some (hd pre)) ed (pre @ ls ! dst)"
      "\<And>q. q < 3 \<Longrightarrow> q \<noteq> src \<Longrightarrow> q \<noteq> dst \<Longrightarrow>
        lane (links_of h') (heads pq ! q) (tails pq ! q) (ls ! q)"
    and nodes: "\<And>x. x \<notin> set pre \<Longrightarrow> h' x = h x"
      "\<And>x. x \<in> set pre \<Longrightarrow> lane_prio_ok h' dst x"
    and pq': "heads pq' = (heads pq)[src := y, dst := Some (hd pre)]"
      "tails pq' = (tails pq)[src := es, dst := ed]"
      "ready_mask pq' = set_bit dst (if post = [] then unset_bit src (ready_mask pq) else ready_mask pq)"
      "pq_count pq' = pq_count pq" "depth pq' = depth pq"
  shows "pq_core h' pq' (ls[src := post, dst := pre @ ls ! dst])"
proof -
  let ?ls = "ls[src := post, dst := pre @ ls ! dst]"
  have core: "pq_core h pq ls" using inv by (simp add: pq_inv_def)
  then have len: "length ls = 3" "length (heads pq) = 3" "length (tails pq) = 3"
    and dist: "distinct (concat ls)" and mask: "mask_ok (ready_mask pq) ls"
    and prio: "\<And>q. q < 3 \<Longrightarrow> list_all (lane_prio_ok h q) (ls ! q)"
    by (auto simp: pq_core_def)
  have ms: "mset (concat ?ls) = mset (concat ls)"
  proof -
    have "mset (concat (ls[src := post])) + mset (ls ! src) = mset (concat ls) + mset post"
      using sd(1) len(1) by (intro mset_concat_update) simp
    moreover have "mset (concat ((ls[src := post])[dst := pre @ ls ! dst])) + mset (ls[src := post] ! dst) =
        mset (concat (ls[src := post])) + mset (pre @ ls ! dst)"
      using sd(2) len(1) by (intro mset_concat_update) simp
    ultimately show ?thesis using sd(3) split by simp
  qed
  have "lane (links_of h') (heads pq' ! q) (tails pq' ! q) (?ls ! q)" if "q < 3" for q
    using lanes sd that len by (cases "q = dst"; cases "q = src") (auto simp: pq')
  moreover have "list_all (lane_prio_ok h' q) (?ls ! q)" if q: "q < 3" for q
  proof -
    have keep: "lane_prio_ok h' q x = lane_prio_ok h q x" if "x \<notin> set pre" for x
      using nodes(1) [OF that] by (simp add: lane_prio_ok_def)
    have out: "x \<notin> set pre" if "x \<in> set (ls ! q)" "q \<noteq> src" for x
      using lane_disjoint [OF dist, of q src] that q sd len split by auto
    have "distinct (ls ! src)" using pq_core_lane [OF core sd(1)] by (simp add: lane_def)
    then have post: "x \<notin> set pre" if "x \<in> set post" for x using that split by auto
    show ?thesis
      using prio [OF q] keep out post nodes(2) sd len split
      by (cases "q = dst"; cases "q = src") (auto simp: list_all_iff)
  qed
  moreover have "mask_ok (ready_mask pq') ?ls"
  proof -
    have "mask_ok (if post = [] then unset_bit src (ready_mask pq) else ready_mask pq) (ls[src := post])"
      using mask_ok_update(2) [OF mask, of src] mask_ok_same [OF mask, of src post] sd len split pre
      by auto
    then show ?thesis
      using mask_ok_update(1) [of _ "ls[src := post]" dst "pre @ ls ! dst"] sd len pre by (simp add: pq')
  qed
  moreover have "distinct (concat ?ls)"
    using dist mset_eq_imp_distinct_iff [OF ms] by blast
  moreover have "length (concat ?ls) = length (concat ls)" using ms by (metis size_mset)
  ultimately show ?thesis using core len by (simp add: pq_core_def pq')
qed

text \<open>The straight-line part of the scan, once its two loops have returned.\<close>

lemma promote_exec:
  assumes flag: "\<not> shutdown_requested flag" and m: "pq_mutex pq = MFree"
    and len: "length (heads pq) = 3" "length (tails pq) = 3" and sd: "src < 3" "dst < 3" "src \<noteq> dst"
    and first: "heads pq ! src = Some a" "h a = Some t" "has_passed_ms (submit_time t) now ms = Some True"
    and loop1: "prefix_tail_loop h now ms a = Some b" "h b = Some tb" "task_next tb = y"
    and loop2: "retag_loop h (int dst) a b = Some h1" "h1 b = Some tb1"
    and ws: "not_empty pq = CLive ws"
  shows "pq_aging_promote_prefix h pq (int src) (int dst) flag now ms =
    Some (True, h1(b \<mapsto> tb1\<lparr>task_next := heads pq ! dst\<rparr>),
      pq\<lparr>heads := (heads pq)[src := y, dst := Some a],
        tails := (tails pq)[src := (if y = None then None else tails pq ! src),
          dst := (if tails pq ! dst = None then Some b else tails pq ! dst)],
        ready_mask := set_bit dst (if y = None then unset_bit src (ready_mask pq) else ready_mask pq),
        not_empty := CLive (Broadcast # ws)\<rparr>)"
proof -
  have upd: "(tails pq)[src := x, dst := tails pq ! dst] = (tails pq)[src := x]"
    "(tails pq)[dst := tails pq ! dst] = tails pq" for x
    using sd(3) by (metis list_update_id nth_list_update_neq)+
  show ?thesis
    by (cases pq; cases y; cases "tails pq ! dst")
      (use assms upd in \<open>simp_all add: pq_aging_promote_prefix_def pq_lock_free pq_unlock_held
        mask_set_nat mask_clear_nat pq_broadcast_def Let_def\<close>)
qed

text \<open>
  \<^verbatim>\<open>pq_aging_promote_prefix\<close> when the head of the source lane has aged: the whole aged prefix
  moves to the front of the destination lane, in order, and nothing else changes.
\<close>

lemma promote_prefix_some:
  assumes inv: "pq_inv h pq ls" and sd: "src < 3" "dst < 3" "src \<noteq> dst"
    and scan: "scan_ok h now ms (ls ! src)" and flag: "\<not> shutdown_requested flag"
    and some: "takeWhile (aged h now ms) (ls ! src) \<noteq> []"
  shows "\<exists>h' pq'. pq_aging_promote_prefix h pq (int src) (int dst) flag now ms = Some (True, h', pq') \<and>
    pq_inv h' pq' (lanes_promote src dst (aged h now ms) ls) \<and> same_jobs h h' \<and>
    max_tasks pq' = max_tasks pq \<and> sent Broadcast pq pq' \<and> (\<forall>x. x \<notin> set (ls ! src) \<longrightarrow> h' x = h x)"
proof -
  let ?pre = "takeWhile (aged h now ms) (ls ! src)" and ?post = "dropWhile (aged h now ms) (ls ! src)"
  have split: "ls ! src = ?pre @ ?post" by simp
  obtain a as where as: "ls ! src = a # as" and aged: "aged h now ms a"
    using some by (cases "ls ! src") (auto split: if_splits)
  then have pre: "?pre = a # takeWhile (aged h now ms) as" by simp
  let ?b = "last ?pre"
  let ?h1 = "retag h (int dst) (set ?pre)"
  have m: "pq_mutex pq = MFree" and cond: "not_empty pq \<noteq> CUninit" and core: "pq_core h pq ls"
    and len: "length (heads pq) = 3" "length (tails pq) = 3"
    using inv by (auto simp: pq_inv_def pq_core_def)
  have lane: "lane (links_of h) (heads pq ! src) (tails pq ! src) (ls ! src)"
    using pq_core_lane [OF core sd(1)] .
  then have seg: "lseg (links_of h) (Some a) (a # as) None" and dist: "distinct (ls ! src)"
    by (auto simp: as lane_def)
  obtain t where t: "h a = Some t" "heads pq ! src = Some a"
    using lane by (auto simp: as lane_Cons_iff links_of_Some_iff)
  have passed: "has_passed_ms (submit_time t) now ms = Some True"
    using scan_ok_passed [OF scan _ t(1)] as aged by simp
  have loop1: "prefix_tail_loop h now ms a = Some ?b"
    using prefix_tail_loop_ok [OF seg] scan pre by (simp add: as scan_ok_def)
  have bpre: "?b \<in> set ?pre" using some by (rule last_in_set)
  have "?b \<in> set (ls ! src)" using bpre set_takeWhileD by metis
  then have "links_of h ?b \<noteq> None" using lane lane_allocated by blast
  then obtain tb where tb: "h ?b = Some tb" by (auto simp: links_of_def)
  let ?h2 = "?h1(?b \<mapsto> tb\<lparr>priority := int dst, task_next := heads pq ! dst\<rparr>)"
  have links: "links_of ?h2 = (links_of h)(?b := Some (heads pq ! dst))" by simp
  obtain y where y: "links_of h ?b = Some y" "y = None \<longleftrightarrow> ?post = []"
    and pre_seg: "lseg (links_of h) (Some (hd ?pre)) ?pre y"
    and src_lane: "lane (links_of ?h2) y (if ?post = [] then None else tails pq ! src) ?post"
    and dst_lane: "lane (links_of ?h2) (Some (hd ?pre))
      (if tails pq ! dst = None then Some ?b else tails pq ! dst) (?pre @ ls ! dst)"
    and others: "\<forall>q < 3. q \<noteq> src \<and> q \<noteq> dst \<longrightarrow>
      lane (links_of ?h2) (heads pq ! q) (tails pq ! q) (ls ! q)"
    using promote_lanes [OF inv sd split some links] by blast
  have next_b: "task_next tb = y" using y(1) tb by (simp add: links_of_def)
  have loop2: "retag_loop h (int dst) a ?b = Some ?h1"
  proof -
    have "lseg (links_of h) (Some a) (a # takeWhile (aged h now ms) as) y"
      using pre_seg unfolding pre by simp
    moreover have "distinct (a # takeWhile (aged h now ms) as)"
      using distinct_takeWhile [OF dist, of "aged h now ms"] unfolding pre .
    ultimately show ?thesis unfolding pre by (rule retag_loop_ok)
  qed
  have h1b: "?h1 ?b = Some (tb\<lparr>priority := int dst\<rparr>)"
    using tb bpre by (simp add: retag_def)
  let ?es = "if ?post = [] then None else tails pq ! src"
  let ?ed = "if tails pq ! dst = None then Some ?b else tails pq ! dst"
  let ?m = "set_bit dst (if ?post = [] then unset_bit src (ready_mask pq) else ready_mask pq)"
  let ?pq1 = "pq\<lparr>heads := (heads pq)[src := y, dst := Some (hd ?pre)],
    tails := (tails pq)[src := ?es, dst := ?ed], ready_mask := ?m\<rparr>"
  obtain ws where ws: "not_empty pq = CLive ws" using cond by (cases "not_empty pq") auto
  let ?pq2 = "?pq1\<lparr>not_empty := CLive (Broadcast # ws)\<rparr>"
  have "pq_aging_promote_prefix h pq (int src) (int dst) flag now ms = Some (True, ?h2, ?pq2)"
    using promote_exec [OF flag m len sd t(2,1) passed loop1 tb next_b loop2 h1b ws] y(2) pre by simp
  moreover have frame: "?h2 x = h x" if "x \<notin> set ?pre" for x
    using that bpre by (auto simp: retag_def)
  moreover have "pq_core ?h2 ?pq1 (ls[src := ?post, dst := ?pre @ ls ! dst])"
  proof (rule promote_core [OF inv sd split some src_lane dst_lane])
    show "lane_prio_ok ?h2 dst x" if "x \<in> set ?pre" for x
    proof -
      have "x \<in> set (ls ! src)" using that set_takeWhileD by metis
      then have "links_of h x \<noteq> None" using lane lane_allocated by blast
      then show ?thesis using that by (auto simp: lane_prio_ok_def retag_def links_of_def)
    qed
    show "?h2 x = h x" if "x \<notin> set ?pre" for x using frame that .
  qed (use others in auto)
  moreover have "same_jobs h ?h2"
    using same_jobs_trans [OF same_jobs_retag same_jobs_relink [of ?h1 ?b, OF h1b]] by simp
  moreover have "x \<notin> set (ls ! src) \<Longrightarrow> x \<notin> set ?pre" for x using set_takeWhileD by metis
  ultimately show ?thesis
    using m ws by (auto simp: pq_inv_def lanes_promote_def sent_def)
qed

lemma lanes_promote_none:
  "takeWhile P (L ! src) = [] \<Longrightarrow> lanes_promote src dst P L = L"
  using takeWhile_dropWhile_id [of P "L ! src"] by (simp add: lanes_promote_def)

text \<open>Both outcomes in one statement, for any value of the shutdown flag.\<close>

lemma promote_prefix_ok:
  assumes inv: "pq_inv h pq ls" and sd: "src < 3" "dst < 3" "src \<noteq> dst"
    and scan: "scan_ok h now ms (ls ! src)"
  shows "\<exists>b h' pq'. pq_aging_promote_prefix h pq (int src) (int dst) flag now ms = Some (b, h', pq') \<and>
    pq_inv h' pq' (if shutdown_requested flag then ls else lanes_promote src dst (aged h now ms) ls) \<and>
    same_jobs h h' \<and> max_tasks pq' = max_tasks pq \<and> (\<forall>x. x \<notin> set (ls ! src) \<longrightarrow> h' x = h x)"
proof (cases "shutdown_requested flag")
  case True
  with inv show ?thesis by (auto simp: pq_aging_promote_prefix_def)
next
  case flag: False
  show ?thesis
  proof (cases "takeWhile (aged h now ms) (ls ! src) = []")
    case True
    with promote_prefix_none [OF inv sd(1) scan flag True] inv flag show ?thesis
      by (auto simp: lanes_promote_none)
  next
    case False
    from promote_prefix_some [OF inv sd scan flag False] flag show ?thesis by auto
  qed
qed

definition aging_lanes :: "task_heap \<Rightarrow> timespec \<Rightarrow> timespec \<Rightarrow> int \<Rightarrow> addr lanes \<Rightarrow> addr lanes" where
  "aging_lanes h now1 now2 ms ls =
     lanes_promote 0 1 (aged h now2 ms) (lanes_promote 1 2 (aged h now1 ms) ls)"

text \<open>One pass of \<^verbatim>\<open>pq_aging\<close> while no shutdown is requested.\<close>

lemma pq_aging_ok:
  assumes inv: "pq_inv h pq ls" and scan1: "scan_ok h now1 ms (ls ! 1)" and scan0: "scan_ok h now2 ms (ls ! 0)"
    and flags: "\<not> shutdown_requested f1" "\<not> shutdown_requested f2" "\<not> shutdown_requested f3"
  shows "\<exists>h' pq'. pq_aging h (Some pq) f1 f2 f3 now1 now2 ms = Some (h', Some pq') \<and>
    pq_inv h' pq' (aging_lanes h now1 now2 ms ls) \<and> same_jobs h h' \<and> max_tasks pq' = max_tasks pq"
proof -
  let ?ls1 = "lanes_promote 1 2 (aged h now1 ms) ls"
  obtain b1 h1 pq1 where one: "pq_aging_promote_prefix h pq PRIORITY_MEDIUM PRIORITY_HIGH f1 now1 ms = Some (b1, h1, pq1)"
    "pq_inv h1 pq1 ?ls1" "same_jobs h h1" "max_tasks pq1 = max_tasks pq"
    using promote_prefix_ok [OF inv, of 1 2 now1 ms f1] scan1 flags by (auto simp: priority_defs)
  have "?ls1 ! 0 = ls ! 0" by (simp add: lanes_promote_def)
  then have "scan_ok h1 now2 ms (?ls1 ! 0)"
    using scan0 by (simp add: same_jobs_scan_ok [OF one(3)])
  then obtain b2 h2 pq2 where two: "pq_aging_promote_prefix h1 pq1 PRIORITY_LOW PRIORITY_MEDIUM f3 now2 ms = Some (b2, h2, pq2)"
    "pq_inv h2 pq2 (lanes_promote 0 1 (aged h1 now2 ms) ?ls1)" "same_jobs h1 h2" "max_tasks pq2 = max_tasks pq1"
    using promote_prefix_ok [OF one(2), of 0 1 now2 ms f3] flags by (auto simp: priority_defs)
  moreover have "aged h1 now2 ms = aged h now2 ms"
    using same_jobs_aged [OF one(3)] by (rule ext)
  ultimately show ?thesis
    using one(1,3,4) flags(2) by (auto simp: pq_aging_def aging_lanes_def intro: same_jobs_trans)
qed

section \<open>What aging guarantees\<close>

lemma aged_mono: "ns_of now \<le> ns_of now' \<Longrightarrow> aged h now ms a \<Longrightarrow> aged h now' ms a"
  by (auto simp: aged_def split: option.splits)

lemma takeWhile_mono_prefix:
  "(\<And>x. P x \<Longrightarrow> Q x) \<Longrightarrow> \<exists>zs. takeWhile Q (takeWhile P xs @ ys) = takeWhile P xs @ zs"
  by (induction xs) auto

text \<open>
  Two passes bring the aged prefix of the low lane to the very front of the serving order,
  ahead of everything that was waiting in the high lane.
\<close>

lemma two_passes_serve_aged:
  assumes len: "length ls = 3" and mono: "ns_of t2 \<le> ns_of t3" and jobs: "same_jobs h h'"
  shows "\<exists>rest. serve_order (aging_lanes h' t3 t4 ms (aging_lanes h t1 t2 ms ls)) =
    takeWhile (aged h t2 ms) (ls ! 0) @ rest"
proof -
  obtain l m u where ls: "ls = [l, m, u]"
    using len by (auto simp: numeral_3_eq_3 length_Suc_conv)
  have eq: "aged h' t ms = aged h t ms" for t
    using same_jobs_aged [OF jobs] by (rule ext)
  let ?A = "\<lambda>t. aged h t ms"
  let ?m1 = "takeWhile (?A t2) l @ dropWhile (?A t1) m"
  obtain zs where "takeWhile (?A t3) ?m1 = takeWhile (?A t2) l @ zs"
    using takeWhile_mono_prefix [of "?A t2" "?A t3"] aged_mono [OF mono] by metis
  then show ?thesis
    by (simp add: ls eq aging_lanes_def lanes_promote_def serve_order_def)
qed

lemma scan_ok_subset: "scan_ok h now ms as \<Longrightarrow> set bs \<subseteq> set as \<Longrightarrow> scan_ok h now ms bs"
  by (auto simp: scan_ok_def list_all_iff)

lemma length_lanes_promote [simp]: "length (lanes_promote src dst P L) = length L"
  by (simp add: lanes_promote_def)

lemma mset_aging_lanes: "length ls = 3 \<Longrightarrow> mset (concat (aging_lanes h t1 t2 ms ls)) = mset (concat ls)"
  by (simp add: aging_lanes_def mset_lanes_promote)

text \<open>A pass on a queue all of whose time stamps are in range.\<close>

lemma pq_aging_pass:
  assumes inv: "pq_inv h pq ls"
    and scan: "scan_ok h now1 ms (concat ls)" "scan_ok h now2 ms (concat ls)"
  shows "\<exists>h' pq'. pq_aging h (Some pq) (Some False) (Some False) (Some False) now1 now2 ms = Some (h', Some pq') \<and>
    pq_inv h' pq' (aging_lanes h now1 now2 ms ls) \<and> same_jobs h h' \<and> max_tasks pq' = max_tasks pq"
proof -
  have sub: "set (ls ! p) \<subseteq> set (concat ls)" if "p < 3" for p
    using that pq_inv_length [OF inv] nth_mem [of p ls] by fastforce
  show ?thesis
    using scan_ok_subset [OF scan(1) sub [of 1]] scan_ok_subset [OF scan(2) sub [of 0]]
    by (intro pq_aging_ok [OF inv]) (auto simp: shutdown_requested_def)
qed

section \<open>Properties\<close>

definition stamped_task :: "u64 \<Rightarrow> task_priority \<Rightarrow> int \<Rightarrow> task_t" where
  "stamped_task i p s = (sample_task i p)\<lparr>submit_time := \<lparr>tv_sec = s, tv_nsec = 0\<rparr>\<rparr>"

definition aging_heap :: task_heap where
  "aging_heap = [1 \<mapsto> stamped_task 0 0 1, 2 \<mapsto> stamped_task 1 2 1]"

lemma aging_heap_inv: "pq_inv aging_heap sample_pq [[1], [], [2]]"
  unfolding pq_inv_def pq_core_def all_less_3
  by (simp add: sample_pq_def aging_heap_def stamped_task_def sample_defs lane_def links_of_def
      tail_of_def lane_prio_ok_def mask_ok_5)

lemma aging_heap_scan:
  "0 \<le> s \<Longrightarrow> s \<le> 100 \<Longrightarrow> scan_ok aging_heap \<lparr>tv_sec = s, tv_nsec = 0\<rparr> 500 (concat [[1], [], [2]])"
  by (simp add: scan_ok_def time_ok_def aging_heap_def stamped_task_def)

text \<open>
  \<^verbatim>\<open>has_passed_ms\<close> on normalised times below 9 billion seconds and a promotion time below
  9 billion seconds never overflows and decides whether at least \<open>ms\<close> milliseconds have
  elapsed; a task without a time stamp never counts as waiting.
\<close>

theorem has_passed_ms_exact:
  assumes "time_ok start" and "time_ok fin" and "0 \<le> ms" and "ms \<le> 9000000000000"
  shows "has_passed_ms start fin ms =
    Some (stamped start \<and> ms * 1000000 \<le> ns_of fin - ns_of start)"
  using assms by (rule has_passed_ms_spec)

theorem has_passed_ms_exact_witness:
  "has_passed_ms \<lparr>tv_sec = 1, tv_nsec = 999999999\<rparr> \<lparr>tv_sec = 2, tv_nsec = 499999999\<rparr> 500 = Some True"
  using has_passed_ms_exact [of "\<lparr>tv_sec = 1, tv_nsec = 999999999\<rparr>" "\<lparr>tv_sec = 2, tv_nsec = 499999999\<rparr>" 500]
  by (simp add: time_ok_def stamped_def ns_of_def)

text \<open>
  C12: One pass of \<^verbatim>\<open>pq_aging\<close> keeps the queue invariant, loses and duplicates no task, changes
  of a task only its priority and its link, and moves exactly the aged prefix of the medium
  lane in front of the high lane and then the aged prefix of the low lane in front of the
  medium lane, so that a task climbs at most one level per pass.
\<close>

theorem pq_aging_promotes_prefixes:
  assumes inv: "pq_inv h pq ls"
    and scan: "scan_ok h now1 ms (concat ls)" "scan_ok h now2 ms (concat ls)"
  shows "\<exists>h' pq' ls'. pq_aging h (Some pq) (Some False) (Some False) (Some False) now1 now2 ms = Some (h', Some pq') \<and>
    pq_inv h' pq' ls' \<and> same_jobs h h' \<and> mset (concat ls') = mset (concat ls) \<and>
    ls' ! 2 = takeWhile (aged h now1 ms) (ls ! 1) @ ls ! 2 \<and>
    ls' ! 1 = takeWhile (aged h now2 ms) (ls ! 0) @ dropWhile (aged h now1 ms) (ls ! 1) \<and>
    ls' ! 0 = dropWhile (aged h now2 ms) (ls ! 0)"
proof -
  have len: "length ls = 3" using inv by (rule pq_inv_length)
  then have "aging_lanes h now1 now2 ms ls ! 2 = takeWhile (aged h now1 ms) (ls ! 1) @ ls ! 2"
    "aging_lanes h now1 now2 ms ls ! 1 = takeWhile (aged h now2 ms) (ls ! 0) @ dropWhile (aged h now1 ms) (ls ! 1)"
    "aging_lanes h now1 now2 ms ls ! 0 = dropWhile (aged h now2 ms) (ls ! 0)"
    by (simp_all add: aging_lanes_def lanes_promote_def)
  with pq_aging_pass [OF inv scan] mset_aging_lanes [OF len] show ?thesis by blast
qed

theorem pq_aging_promotes_prefixes_witness:
  "\<exists>h' pq' ls'. pq_aging aging_heap (Some sample_pq) (Some False) (Some False) (Some False)
      \<lparr>tv_sec = 3, tv_nsec = 0\<rparr> \<lparr>tv_sec = 3, tv_nsec = 0\<rparr> 500 = Some (h', Some pq') \<and>
    pq_inv h' pq' ls' \<and> ls' ! 2 = [2] \<and> ls' ! 1 = [1] \<and> ls' ! 0 = []"
proof -
  have "aged aging_heap \<lparr>tv_sec = 3, tv_nsec = 0\<rparr> 500 1"
    by (simp add: aged_def aging_heap_def stamped_task_def stamped_def ns_of_def)
  with pq_aging_promotes_prefixes [OF aging_heap_inv aging_heap_scan [of 3] aging_heap_scan [of 3]]
  show ?thesis by fastforce
qed

text \<open>
  C11: Aging prevents starvation: after two passes, every task of the aged prefix of the low
  lane is at the front of the serving order, in its old order, ahead of all tasks that were
  waiting with a higher priority, so it is popped after at most its old position many pops.
\<close>

theorem aging_prevents_starvation:
  assumes inv: "pq_inv h pq ls" and mono: "ns_of t2 \<le> ns_of t3"
    and scan: "scan_ok h t1 ms (concat ls)" "scan_ok h t2 ms (concat ls)"
      "scan_ok h t3 ms (concat ls)" "scan_ok h t4 ms (concat ls)"
  shows "\<exists>h1 pq1 h2 pq2 ls2 rest.
    pq_aging h (Some pq) (Some False) (Some False) (Some False) t1 t2 ms = Some (h1, Some pq1) \<and>
    pq_aging h1 (Some pq1) (Some False) (Some False) (Some False) t3 t4 ms = Some (h2, Some pq2) \<and>
    pq_inv h2 pq2 ls2 \<and> mset (concat ls2) = mset (concat ls) \<and>
    serve_order ls2 = takeWhile (aged h t2 ms) (ls ! 0) @ rest"
proof -
  have len: "length ls = 3" using inv by (rule pq_inv_length)
  let ?ls1 = "aging_lanes h t1 t2 ms ls"
  obtain h1 pq1 where one: "pq_aging h (Some pq) (Some False) (Some False) (Some False) t1 t2 ms = Some (h1, Some pq1)"
    "pq_inv h1 pq1 ?ls1" "same_jobs h h1"
    using pq_aging_pass [OF inv scan(1,2)] by blast
  have ms1: "mset (concat ?ls1) = mset (concat ls)" using len by (rule mset_aging_lanes)
  then have set1: "set (concat ?ls1) \<subseteq> set (concat ls)" by (metis set_mset_mset order_refl)
  have "scan_ok h1 t3 ms (concat ?ls1)" "scan_ok h1 t4 ms (concat ?ls1)"
    using scan_ok_subset [OF scan(3) set1] scan_ok_subset [OF scan(4) set1]
    by (simp_all only: same_jobs_scan_ok [OF one(3)])
  from pq_aging_pass [OF one(2) this] obtain h2 pq2 where
    two: "pq_aging h1 (Some pq1) (Some False) (Some False) (Some False) t3 t4 ms = Some (h2, Some pq2)"
    "pq_inv h2 pq2 (aging_lanes h1 t3 t4 ms ?ls1)" by blast
  have "mset (concat (aging_lanes h1 t3 t4 ms ?ls1)) = mset (concat ls)"
    using mset_aging_lanes [OF pq_inv_length [OF one(2)]] ms1 by simp
  with one two two_passes_serve_aged [OF len mono one(3), of t4 ms t1] show ?thesis by blast
qed

theorem aging_prevents_starvation_witness:
  "\<exists>h1 pq1 h2 pq2 ls2 rest.
    pq_aging aging_heap (Some sample_pq) (Some False) (Some False) (Some False)
      \<lparr>tv_sec = 3, tv_nsec = 0\<rparr> \<lparr>tv_sec = 3, tv_nsec = 0\<rparr> 500 = Some (h1, Some pq1) \<and>
    pq_aging h1 (Some pq1) (Some False) (Some False) (Some False)
      \<lparr>tv_sec = 4, tv_nsec = 0\<rparr> \<lparr>tv_sec = 4, tv_nsec = 0\<rparr> 500 = Some (h2, Some pq2) \<and>
    pq_inv h2 pq2 ls2 \<and> serve_order ls2 = 1 # rest"
proof -
  have aged: "aged aging_heap \<lparr>tv_sec = 3, tv_nsec = 0\<rparr> 500 1"
    by (simp add: aged_def aging_heap_def stamped_task_def stamped_def ns_of_def)
  have mono: "ns_of \<lparr>tv_sec = 3, tv_nsec = 0\<rparr> \<le> ns_of \<lparr>tv_sec = 4, tv_nsec = 0\<rparr>"
    by (simp add: ns_of_def)
  from aging_prevents_starvation [OF aging_heap_inv mono aging_heap_scan [of 3] aging_heap_scan [of 3]
      aging_heap_scan [of 4] aging_heap_scan [of 4]] aged
  show ?thesis by fastforce
qed

text \<open>
  The scan promotes prefixes only. A task at the head of the low lane that carries no time
  stamp (it was submitted before aging was enabled) keeps the whole low lane where it is,
  however long the tasks behind it have been waiting.
\<close>

theorem unstamped_head_blocks_lane:
  assumes inv: "pq_inv h pq ls"
    and scan: "scan_ok h now1 ms (concat ls)" "scan_ok h now2 ms (concat ls)"
    and head: "ls ! 0 = a # as" "h a = Some t" "\<not> stamped (submit_time t)"
  shows "\<exists>h' pq' ls'. pq_aging h (Some pq) (Some False) (Some False) (Some False) now1 now2 ms = Some (h', Some pq') \<and>
    pq_inv h' pq' ls' \<and> ls' ! 0 = ls ! 0"
proof -
  have "\<not> aged h now2 ms a" using head by (simp add: aged_def)
  then have "aging_lanes h now1 now2 ms ls ! 0 = ls ! 0"
    using head pq_inv_length [OF inv] by (simp add: aging_lanes_def lanes_promote_def)
  with pq_aging_pass [OF inv scan] show ?thesis by blast
qed

theorem unstamped_head_blocks_lane_witness:
  "\<exists>h' pq' ls'. pq_aging sample_heap (Some sample_pq) (Some False) (Some False) (Some False)
      \<lparr>tv_sec = 99, tv_nsec = 0\<rparr> \<lparr>tv_sec = 99, tv_nsec = 0\<rparr> 500 = Some (h', Some pq') \<and>
    pq_inv h' pq' ls' \<and> ls' ! 0 = [1]"
proof -
  have scan: "scan_ok sample_heap \<lparr>tv_sec = 99, tv_nsec = 0\<rparr> 500 (concat [[1], [], [2]])"
    by (simp add: scan_ok_def time_ok_def sample_defs)
  have "sample_heap 1 = Some (sample_task 0 0)" "\<not> stamped (submit_time (sample_task 0 0))"
    by (simp_all add: sample_defs stamped_def)
  from unstamped_head_blocks_lane [OF sample_pq_inv scan scan _ this] show ?thesis by simp
qed

end
