(* ===== verification/Worker.thy ===== *)
theory Worker
  imports Pthread
begin

text \<open>
  \<^verbatim>\<open>src/worker.c\<close> and \<^verbatim>\<open>include/worker.h\<close>: the worker descriptors of a pool and the count of
  the busy ones. The array is NULL (\<open>None\<close>) before its allocation and after its release; the
  back pointer to the pool is the pool object the array belongs to and is not a field here.
\<close>

record worker_t =
  tid :: nat
  worker_id :: u16
  core_id :: u16
  busy :: bool

text \<open>The loop of \<^verbatim>\<open>worker_capacity_busy\<close> from index \<open>i\<close> with \<open>n\<close> rounds to go.\<close>

fun busy_loop :: "nat \<Rightarrow> worker_t list \<Rightarrow> int \<Rightarrow> u16 \<Rightarrow> u16 option" where
  "busy_loop 0 ws i cnt = Some cnt"
| "busy_loop (Suc n) ws i cnt = do {
     w \<leftarrow> array_get ws i;
     busy_loop n ws (i + 1) (if busy w then cnt + 1 else cnt) }"

definition worker_capacity_busy :: "worker_t list option \<Rightarrow> u16 \<Rightarrow> u16 option" where
  "worker_capacity_busy wsp num_of_worker =
     (case wsp of
        None \<Rightarrow> if num_of_worker = 0 then Some 0 else None
      | Some ws \<Rightarrow> busy_loop (unat num_of_worker) ws 0 0)"

lemma busy_loop_count:
  assumes "i + n \<le> length ws"
  shows "busy_loop n ws (int i) cnt = Some (cnt + of_nat (length (filter busy (take n (drop i ws)))))"
  using assms
proof (induction n arbitrary: i cnt)
  case 0
  then show ?case by simp
next
  case (Suc n)
  then have i: "i < length ws" by simp
  then have d: "drop i ws = ws ! i # drop (Suc i) ws" by (rule Cons_nth_drop_Suc [symmetric])
  have "busy_loop n ws (int i + 1) c = Some (c + of_nat (length (filter busy (take n (drop (Suc i) ws)))))" for c
    using Suc.IH [of "Suc i" c] Suc.prems by (simp add: add.commute)
  then show ?case using i by (simp add: d array_get_nat)
qed

lemma worker_capacity_busy_count:
  "unat n \<le> length ws \<Longrightarrow>
     worker_capacity_busy (Some ws) n = Some (of_nat (length (filter busy (take (unat n) ws))))"
  using busy_loop_count [of 0 "unat n" ws 0] by (simp add: worker_capacity_busy_def)

text \<open>The 16-bit counter cannot wrap: it never exceeds the 16-bit bound of the loop.\<close>

lemma worker_capacity_busy_exact:
  assumes "unat n \<le> length ws"
  shows "\<exists>c. worker_capacity_busy (Some ws) n = Some c \<and>
    unat c = length (filter busy (take (unat n) ws))"
proof -
  have "length (filter busy (take (unat n) ws)) \<le> length (take (unat n) ws)"
    by (rule length_filter_le)
  also have "\<dots> \<le> unat n" by simp
  also have "\<dots> < 2 ^ LENGTH(16)" by (rule unsigned_less)
  finally show ?thesis using worker_capacity_busy_count [OF assms] by (simp add: unat_of_nat)
qed

end
