(* ===== verification/Thread_Pool.thy ===== *)
theory Thread_Pool
  imports Aging Worker
begin

text \<open>
  \<^verbatim>\<open>src/internal/struct.h\<close> and the parts of \<^verbatim>\<open>src/thread_pool.c\<close> that one thread runs on its
  own: construction with its chain of error labels, the release of a quiescent pool, the
  counters that are read from outside, and the arithmetic of the aging thread's deadline. The
  parts in which threads interact are in \<^verbatim>\<open>Pool_Machine\<close>.
\<close>

section \<open>Data\<close>

record monitor_t =
  mon_tid :: nat
  tid_valid :: bool
  running :: bool
  ever_init :: bool

text \<open>
  \<^verbatim>\<open>total_task_in_system\<close> is an \<^verbatim>\<open>atomic_int\<close>, whose arithmetic wraps: it is kept as a 32-bit
  word and read with \<open>sint\<close>.
\<close>

record thread_pool =
  workers :: "worker_t list option"
  num_workers :: u32
  pool_pq :: priority_queue_t
  total_task_in_system :: u32
  shutdown :: bool
  drain_mutex :: mutex
  drain_cond :: cond
  in_flight_submits :: u32
  paused :: bool
  pause_mutex :: mutex
  pause_cond :: cond
  aging_tid :: nat
  aging_mutex :: mutex
  aging_cond :: cond
  aging_enable :: bool
  aging_interval_ms :: int
  aging_promote_ms :: int
  start_time :: int
  monitor :: monitor_t

section \<open>Construction\<close>

text \<open>
  What the system calls of one run of \<^verbatim>\<open>thread_pool_init\<close> return: whether the two allocations
  succeed, the return codes of the initialisers, the return code of the \<open>i\<close>-th
  \<^verbatim>\<open>pthread_create\<close> with the thread id it stores, and the time.
\<close>

record init_env =
  pool_malloc :: bool
  pq_mutex_rc :: int
  pq_cond_rc :: int
  drain_mutex_rc :: int
  drain_cond_rc :: int
  aging_mutex_rc :: int
  condattr_init_rc :: int
  condattr_setclock_rc :: int
  aging_cond_rc :: int
  pause_mutex_rc :: int
  pause_cond_rc :: int
  workers_malloc :: bool
  create_rc :: "nat \<Rightarrow> int"
  create_tid :: "nat \<Rightarrow> nat"
  init_time :: int

text \<open>
  The result of the construction: NULL before anything is allocated, NULL after the pool object
  has been freed (with its contents at that moment), or the pool; the lists are the ids of the
  threads that were created and not joined.
\<close>

datatype init_result = InitNull | InitFreed thread_pool "nat list" | InitOk thread_pool "nat list"

text \<open>The error labels, which fall through from \<^verbatim>\<open>err_workers\<close> to \<^verbatim>\<open>err_free_pool\<close>.\<close>

type_synonym cleanup = "thread_pool \<Rightarrow> nat list \<Rightarrow> init_result option"

definition err_free_pool :: cleanup where
  "err_free_pool p ths = Some (InitFreed p ths)"

definition err_pq :: cleanup where
  "err_pq p ths = do {
     (_, q) \<leftarrow> pq_destroy Map.empty (Some (pool_pq p));
     q \<leftarrow> q;
     err_free_pool (p\<lparr>pool_pq := q\<rparr>) ths }"

definition err_drain_mutex :: cleanup where
  "err_drain_mutex p ths = do {
     m \<leftarrow> mutex_destroy (drain_mutex p);
     err_pq (p\<lparr>drain_mutex := m\<rparr>) ths }"

definition err_drain_cond :: cleanup where
  "err_drain_cond p ths = do {
     c \<leftarrow> cond_destroy (drain_cond p);
     err_drain_mutex (p\<lparr>drain_cond := c\<rparr>) ths }"

definition err_aging_mutex :: cleanup where
  "err_aging_mutex p ths = do {
     m \<leftarrow> mutex_destroy (aging_mutex p);
     err_drain_cond (p\<lparr>aging_mutex := m\<rparr>) ths }"

definition err_aging_cond :: cleanup where
  "err_aging_cond p ths = do {
     c \<leftarrow> cond_destroy (aging_cond p);
     err_aging_mutex (p\<lparr>aging_cond := c\<rparr>) ths }"

definition err_pause_mutex :: cleanup where
  "err_pause_mutex p ths = do {
     m \<leftarrow> mutex_destroy (pause_mutex p);
     err_aging_cond (p\<lparr>pause_mutex := m\<rparr>) ths }"

definition err_pause_cond :: cleanup where
  "err_pause_cond p ths = do {
     c \<leftarrow> cond_destroy (pause_cond p);
     err_pause_mutex (p\<lparr>pause_cond := c\<rparr>) ths }"

definition err_workers :: cleanup where
  "err_workers p ths = do {
     _ \<leftarrow> workers p;
     err_pause_cond (p\<lparr>workers := None\<rparr>) ths }"

text \<open>
  \<^verbatim>\<open>pthread_join\<close> of workers \<open>j, j + 1, \<dots>\<close> (\<open>n\<close> of them): joining a thread that does not exist,
  or no longer, is a fault.
\<close>

fun join_workers :: "nat \<Rightarrow> worker_t list \<Rightarrow> int \<Rightarrow> nat list \<Rightarrow> nat list option" where
  "join_workers 0 ws j ths = Some ths"
| "join_workers (Suc n) ws j ths = do {
     w \<leftarrow> array_get ws j;
     if tid w \<in> set ths then join_workers n ws (j + 1) (remove1 (tid w) ths) else None }"

text \<open>The spawning loop from index \<open>i\<close>, with \<open>n\<close> rounds to go, and what follows it.\<close>

fun spawn_workers :: "init_env \<Rightarrow> nat \<Rightarrow> nat \<Rightarrow> cleanup" where
  "spawn_workers e 0 i p ths =
     (let p = p\<lparr>start_time := init_time e\<rparr>;
          p = p\<lparr>monitor := (monitor p)\<lparr>running := False, ever_init := False, tid_valid := False\<rparr>\<rparr>
      in Some (InitOk p ths))"
| "spawn_workers e (Suc n) i p ths = do {
     ws \<leftarrow> workers p;
     w \<leftarrow> array_get ws (int i);
     ws \<leftarrow> array_set ws (int i) (w\<lparr>worker_id := of_nat i, core_id := - 1, busy := False\<rparr>);
     let p = p\<lparr>workers := Some ws\<rparr>;
     if create_rc e i \<noteq> 0 then do {
       let p = p\<lparr>shutdown := True\<rparr>;
       q \<leftarrow> pq_wake_all (Some (pool_pq p));
       q \<leftarrow> q;
       let p = p\<lparr>pool_pq := q\<rparr>;
       ws \<leftarrow> workers p;
       ths \<leftarrow> join_workers i ws 0 ths;
       err_workers p ths }
     else do {
       ws \<leftarrow> workers p;
       w \<leftarrow> array_get ws (int i);
       ws \<leftarrow> array_set ws (int i) (w\<lparr>tid := create_tid e i\<rparr>);
       spawn_workers e n (Suc i) (p\<lparr>workers := Some ws\<rparr>) (ths @ [create_tid e i]) } }"

text \<open>\<open>raw\<close> and \<open>raws\<close> are the contents of the two fresh memory blocks.\<close>

definition thread_pool_init :: "init_env \<Rightarrow> thread_pool \<Rightarrow> worker_t list \<Rightarrow> int \<Rightarrow> init_result option" where
  "thread_pool_init e raw raws n =
     (if n \<le> 0 then Some InitNull
      else if \<not> pool_malloc e then Some InitNull
      else do {
        let p = raw\<lparr>num_workers := of_int n, aging_enable := False, aging_interval_ms := 0,
              aging_promote_ms := 0, in_flight_submits := 0, total_task_in_system := 0,
              shutdown := False, paused := False\<rparr>;
        (rc, q) \<leftarrow> pq_init (pq_mutex_rc e) (pq_cond_rc e) (Some (pool_pq p));
        q \<leftarrow> q;
        let p = p\<lparr>pool_pq := q\<rparr>;
        if rc \<noteq> 0 then err_free_pool p []
        else if drain_mutex_rc e \<noteq> 0 then err_pq p []
        else do {
          let p = p\<lparr>drain_mutex := MFree\<rparr>;
          if drain_cond_rc e \<noteq> 0 then err_drain_mutex p []
          else do {
            let p = p\<lparr>drain_cond := CLive []\<rparr>;
            if aging_mutex_rc e \<noteq> 0 then err_drain_cond p []
            else do {
              let p = p\<lparr>aging_mutex := MFree\<rparr>;
              if condattr_init_rc e \<noteq> 0 then err_aging_mutex p []
              else if condattr_setclock_rc e \<noteq> 0 then err_aging_mutex p []
              else if aging_cond_rc e \<noteq> 0 then err_aging_mutex p []
              else do {
                let p = p\<lparr>aging_cond := CLive []\<rparr>;
                if pause_mutex_rc e \<noteq> 0 then err_aging_cond p []
                else do {
                  let p = p\<lparr>pause_mutex := MFree\<rparr>;
                  if pause_cond_rc e \<noteq> 0 then err_pause_mutex p []
                  else do {
                    let p = p\<lparr>pause_cond := CLive []\<rparr>;
                    if \<not> workers_malloc e then err_pause_cond p []
                    else spawn_workers e (nat n) 0 (p\<lparr>workers := Some raws\<rparr>) [] } } } } } } })"

section \<open>Release\<close>

text \<open>
  The end of \<^verbatim>\<open>thread_pool_destroy\<close>, after the threads are joined: the queue, the worker array,
  the synchronisation objects. The result is the heap and the contents of the pool object when
  it is freed.
\<close>

definition release_pool :: "task_heap \<Rightarrow> thread_pool \<Rightarrow> (task_heap \<times> thread_pool) option" where
  "release_pool h p = do {
     (h, q) \<leftarrow> pq_destroy h (Some (pool_pq p));
     q \<leftarrow> q;
     let p = p\<lparr>pool_pq := q\<rparr>;
     _ \<leftarrow> workers p;
     let p = p\<lparr>workers := None\<rparr>;
     c \<leftarrow> cond_destroy (drain_cond p);
     let p = p\<lparr>drain_cond := c\<rparr>;
     c \<leftarrow> cond_destroy (pause_cond p);
     let p = p\<lparr>pause_cond := c\<rparr>;
     c \<leftarrow> cond_destroy (aging_cond p);
     let p = p\<lparr>aging_cond := c\<rparr>;
     m \<leftarrow> mutex_destroy (drain_mutex p);
     let p = p\<lparr>drain_mutex := m\<rparr>;
     m \<leftarrow> mutex_destroy (pause_mutex p);
     let p = p\<lparr>pause_mutex := m\<rparr>;
     m \<leftarrow> mutex_destroy (aging_mutex p);
     Some (h, p\<lparr>aging_mutex := m\<rparr>) }"

section \<open>Counters read from outside\<close>

text \<open>The worker count is passed in a 16-bit parameter.\<close>

definition thread_pool_num_working :: "thread_pool option \<Rightarrow> u16 option" where
  "thread_pool_num_working pp =
     (case pp of None \<Rightarrow> Some 0 | Some p \<Rightarrow> worker_capacity_busy (workers p) (ucast (num_workers p)))"

definition thread_pool_queue_depth :: "thread_pool option \<Rightarrow> u64 option" where
  "thread_pool_queue_depth pp =
     (case pp of
        None \<Rightarrow> Some 0
      | Some p \<Rightarrow> do {
          let total = sint (total_task_in_system p);
          b \<leftarrow> worker_capacity_busy (workers p) (ucast (num_workers p));
          if total \<le> uint b then Some 0 else Some (of_int (total - uint b)) })"

definition thread_pool_set_max_tasks :: "thread_pool option \<Rightarrow> u64 \<Rightarrow> thread_pool option" where
  "thread_pool_set_max_tasks pp n =
     (case pp of
        None \<Rightarrow> None
      | Some p \<Rightarrow>
          (case pq_set_max_tasks (Some (pool_pq p)) n of
             None \<Rightarrow> Some p
           | Some q \<Rightarrow> Some (p\<lparr>pool_pq := q\<rparr>)))"

section \<open>The deadline of the aging thread\<close>

definition timespec_add_ms :: "timespec \<Rightarrow> int \<Rightarrow> timespec option" where
  "timespec_add_ms ts ms =
     (if ms \<le> 0 then Some ts
      else do {
        s \<leftarrow> long_add (tv_sec ts) (c_div ms 1000);
        ns \<leftarrow> long_mul (c_mod ms 1000) 1000000;
        ns \<leftarrow> long_add (tv_nsec ts) ns;
        if ns \<ge> 1000000000 then do {
          s \<leftarrow> long_add s (c_div ns 1000000000);
          Some (ts\<lparr>tv_sec := s, tv_nsec := c_mod ns 1000000000\<rparr>) }
        else Some (ts\<lparr>tv_sec := s, tv_nsec := ns\<rparr>) })"

section \<open>Construction is all or nothing\<close>

text \<open>
  \<open>built k p\<close>: the queue is initialised and empty, and of the objects in the order in which the
  construction makes them (drain mutex, drain condition, aging mutex, aging condition, pause
  mutex, pause condition, worker array) exactly the first \<open>k\<close> exist.
\<close>

definition built :: "nat \<Rightarrow> thread_pool \<Rightarrow> bool" where
  "built k p \<longleftrightarrow>
     pq_inv Map.empty (pool_pq p) [[], [], []] \<and>
     drain_mutex p = (if 0 < k then MFree else MUninit) \<and> (drain_cond p \<noteq> CUninit \<longleftrightarrow> 1 < k) \<and>
     aging_mutex p = (if 2 < k then MFree else MUninit) \<and> (aging_cond p \<noteq> CUninit \<longleftrightarrow> 3 < k) \<and>
     pause_mutex p = (if 4 < k then MFree else MUninit) \<and> (pause_cond p \<noteq> CUninit \<longleftrightarrow> 5 < k) \<and>
     (workers p \<noteq> None \<longleftrightarrow> 6 < k)"

definition released :: "thread_pool \<Rightarrow> bool" where
  "released p \<longleftrightarrow>
     pq_mutex (pool_pq p) = MUninit \<and> not_empty (pool_pq p) = CUninit \<and>
     drain_mutex p = MUninit \<and> drain_cond p = CUninit \<and> aging_mutex p = MUninit \<and>
     aging_cond p = CUninit \<and> pause_mutex p = MUninit \<and> pause_cond p = CUninit \<and> workers p = None"

definition frees :: "cleanup \<Rightarrow> nat \<Rightarrow> bool" where
  "frees f k \<longleftrightarrow> (\<forall>p ths. built k p \<longrightarrow> (\<exists>p'. f p ths = Some (InitFreed p' ths) \<and> released p'))"

lemma freesD: "frees f k \<Longrightarrow> built k p \<Longrightarrow> \<exists>p'. f p ths = Some (InitFreed p' ths) \<and> released p'"
  by (simp add: frees_def)

lemma cond_destroy_live: "c \<noteq> CUninit \<Longrightarrow> cond_destroy c = Some CUninit"
  by (cases c) simp_all

lemma frees_err_pq: "frees err_pq 0"
  unfolding frees_def
proof (intro allI impI)
  fix p ths assume b: "built 0 p"
  then have inv: "pq_inv Map.empty (pool_pq p) [[], [], []]" by (simp add: built_def)
  obtain q where "pq_destroy Map.empty (Some (pool_pq p)) = Some (Map.empty, Some q)"
    "pq_mutex q = MUninit" "not_empty q = CUninit"
    using pq_destroy_ok [OF inv] by auto
  with b show "\<exists>p'. err_pq p ths = Some (InitFreed p' ths) \<and> released p'"
    by (simp add: err_pq_def err_free_pool_def released_def built_def)
qed

lemma frees_err_drain_mutex: "frees err_drain_mutex 1"
  unfolding frees_def
  by (auto simp: err_drain_mutex_def built_def intro!: freesD [OF frees_err_pq])

lemma frees_err_drain_cond: "frees err_drain_cond 2"
  unfolding frees_def
  by (auto simp: err_drain_cond_def built_def cond_destroy_live intro!: freesD [OF frees_err_drain_mutex])

lemma frees_err_aging_mutex: "frees err_aging_mutex 3"
  unfolding frees_def
  by (auto simp: err_aging_mutex_def built_def intro!: freesD [OF frees_err_drain_cond])

lemma frees_err_aging_cond: "frees err_aging_cond 4"
  unfolding frees_def
  by (auto simp: err_aging_cond_def built_def cond_destroy_live intro!: freesD [OF frees_err_aging_mutex])

lemma frees_err_pause_mutex: "frees err_pause_mutex 5"
  unfolding frees_def
  by (auto simp: err_pause_mutex_def built_def intro!: freesD [OF frees_err_aging_cond])

lemma frees_err_pause_cond: "frees err_pause_cond 6"
  unfolding frees_def
  by (auto simp: err_pause_cond_def built_def cond_destroy_live intro!: freesD [OF frees_err_pause_mutex])

lemma frees_err_workers: "frees err_workers 7"
  unfolding frees_def
  by (auto simp: err_workers_def built_def intro!: freesD [OF frees_err_pause_cond])

lemma join_workers_all:
  "j + n \<le> length ws \<Longrightarrow> join_workers n ws (int j) (map tid (take n (drop j ws)) @ rest) = Some rest"
proof (induction n arbitrary: j)
  case 0
  then show ?case by simp
next
  case (Suc n)
  then have j: "j < length ws" by simp
  then have d: "drop j ws = ws ! j # drop (Suc j) ws" by (rule Cons_nth_drop_Suc [symmetric])
  have "join_workers n ws (int j + 1) (map tid (take n (drop (Suc j) ws)) @ rest) = Some rest"
    using Suc.IH [of "Suc j"] Suc.prems by (simp add: add.commute)
  with j show ?case by (simp add: d)
qed

definition fresh_workers :: "worker_t list \<Rightarrow> bool" where
  "fresh_workers ws \<longleftrightarrow> (\<forall>j < length ws. worker_id (ws ! j) = of_nat j \<and> core_id (ws ! j) = - 1 \<and> \<not> busy (ws ! j))"

lemma fresh_workers_Nil [simp]: "fresh_workers []"
  by (simp add: fresh_workers_def)

text \<open>The fields that the spawning loop leaves alone.\<close>

definition same_setup :: "thread_pool \<Rightarrow> thread_pool \<Rightarrow> bool" where
  "same_setup p p' \<longleftrightarrow>
     p'\<lparr>workers := workers p, start_time := start_time p, monitor := monitor p\<rparr> = p"

lemma spawn_workers_spec:
  assumes "built 7 p" and "workers p = Some ws" and "length ws = i + n"
    and "ths = map tid (take i ws)" and "fresh_workers (take i ws)"
  shows "if \<forall>k \<in> {i ..< i + n}. create_rc e k = 0
    then \<exists>p' ws'. spawn_workers e n i p ths = Some (InitOk p' (map tid ws')) \<and> workers p' = Some ws' \<and>
      length ws' = i + n \<and> fresh_workers ws' \<and> same_setup p p' \<and> start_time p' = init_time e \<and>
      \<not> running (monitor p') \<and> \<not> ever_init (monitor p') \<and> \<not> tid_valid (monitor p')
    else \<exists>p'. spawn_workers e n i p ths = Some (InitFreed p' []) \<and> released p'"
  using assms
proof (induction n arbitrary: i p ws ths)
  case 0
  then show ?case by (simp add: same_setup_def)
next
  case (Suc n)
  let ?w = "(ws ! i)\<lparr>worker_id := of_nat i, core_id := - 1, busy := False\<rparr>"
  have i: "i < length ws" using Suc.prems(3) by simp
  show ?case
  proof (cases "create_rc e i = 0")
    case False
    have ws: "workers (p\<lparr>workers := Some (ws[i := ?w]), shutdown := True\<rparr>) = Some (ws[i := ?w])" by simp
    have inv: "pq_inv Map.empty (pool_pq p) [[], [], []]" using Suc.prems(1) by (simp add: built_def)
    obtain q where q: "pq_wake_all (Some (pool_pq p)) = Some (Some q)" "pq_inv Map.empty q [[], [], []]"
      using pq_wake_all_ok [OF inv] by blast
    let ?p = "p\<lparr>workers := Some (ws[i := ?w]), shutdown := True, pool_pq := q\<rparr>"
    have "built 7 ?p" using Suc.prems(1) q(2) by (simp add: built_def)
    from freesD [OF frees_err_workers this, of "[]"] obtain p' where
      p': "err_workers ?p [] = Some (InitFreed p' [])" "released p'" by blast
    have "join_workers i (ws[i := ?w]) 0 ths = Some []"
      using join_workers_all [of 0 i "ws[i := ?w]" "[]"] i Suc.prems(4) by simp
    with False i Suc.prems(2) q p' have "spawn_workers e (Suc n) i p ths = Some (InitFreed p' [])" by simp
    moreover have "\<not> (\<forall>k \<in> {i ..< i + Suc n}. create_rc e k = 0)" using False by auto
    ultimately show ?thesis using p'(2) by auto
  next
    case True
    let ?w' = "?w\<lparr>tid := create_tid e i\<rparr>" let ?ws = "ws[i := ?w']"
    let ?p = "p\<lparr>workers := Some ?ws\<rparr>"
    have step: "spawn_workers e (Suc n) i p ths = spawn_workers e n (Suc i) ?p (ths @ [create_tid e i])"
      using True i Suc.prems(2) by simp
    have b: "built 7 ?p" using Suc.prems(1) by (simp add: built_def)
    have t: "ths @ [create_tid e i] = map tid (take (Suc i) ?ws)"
      using i Suc.prems(4) by (simp add: take_Suc_conv_app_nth)
    have f: "fresh_workers (take (Suc i) ?ws)"
      using Suc.prems(5) i by (auto simp: fresh_workers_def nth_list_update less_Suc_eq)
    have len: "length ?ws = Suc i + n" using Suc.prems(3) by simp
    have IH: "if \<forall>k \<in> {Suc i ..< Suc i + n}. create_rc e k = 0
      then \<exists>p' ws'. spawn_workers e n (Suc i) ?p (ths @ [create_tid e i]) = Some (InitOk p' (map tid ws')) \<and>
        workers p' = Some ws' \<and> length ws' = Suc i + n \<and> fresh_workers ws' \<and> same_setup ?p p' \<and>
        start_time p' = init_time e \<and>
        \<not> running (monitor p') \<and> \<not> ever_init (monitor p') \<and> \<not> tid_valid (monitor p')
      else \<exists>p'. spawn_workers e n (Suc i) ?p (ths @ [create_tid e i]) = Some (InitFreed p' []) \<and> released p'"
      by (rule Suc.IH [OF b _ len t f]) simp
    have all_iff: "(\<forall>k \<in> {i ..< i + Suc n}. create_rc e k = 0) = (\<forall>k \<in> {Suc i ..< Suc i + n}. create_rc e k = 0)"
      using True by (auto simp: Suc_le_eq le_less)
    have kept: "same_setup ?p p' \<Longrightarrow> same_setup p p'" for p'
      by (cases p; cases p') (simp add: same_setup_def)
    show ?thesis using IH unfolding step all_iff by (auto split: if_splits intro: kept)
  qed
qed

text \<open>Fresh memory holds no initialised object and no worker array.\<close>

definition raw_pool :: "thread_pool \<Rightarrow> bool" where
  "raw_pool p \<longleftrightarrow>
     drain_mutex p = MUninit \<and> drain_cond p = CUninit \<and> aging_mutex p = MUninit \<and>
     aging_cond p = CUninit \<and> pause_mutex p = MUninit \<and> pause_cond p = CUninit \<and> workers p = None"

text \<open>The return codes of a run in which nothing fails.\<close>

definition init_succeeds :: "init_env \<Rightarrow> nat \<Rightarrow> bool" where
  "init_succeeds e n \<longleftrightarrow>
     pool_malloc e \<and> pq_mutex_rc e = 0 \<and> pq_cond_rc e = 0 \<and> drain_mutex_rc e = 0 \<and> drain_cond_rc e = 0 \<and>
     aging_mutex_rc e = 0 \<and> condattr_init_rc e = 0 \<and> condattr_setclock_rc e = 0 \<and> aging_cond_rc e = 0 \<and>
     pause_mutex_rc e = 0 \<and> pause_cond_rc e = 0 \<and> workers_malloc e \<and> (\<forall>k \<in> {0 ..< n}. create_rc e k = 0)"

text \<open>The pool that a successful construction returns.\<close>

definition fresh_pool :: "nat \<Rightarrow> thread_pool \<Rightarrow> bool" where
  "fresh_pool n p \<longleftrightarrow>
     (\<exists>ws. workers p = Some ws \<and> length ws = n \<and> fresh_workers ws) \<and> num_workers p = of_nat n \<and>
     pool_pq p = pq_fresh \<and> total_task_in_system p = 0 \<and> in_flight_submits p = 0 \<and>
     \<not> shutdown p \<and> \<not> paused p \<and> \<not> aging_enable p \<and> aging_interval_ms p = 0 \<and> aging_promote_ms p = 0 \<and>
     drain_mutex p = MFree \<and> drain_cond p = CLive [] \<and> pause_mutex p = MFree \<and> pause_cond p = CLive [] \<and>
     aging_mutex p = MFree \<and> aging_cond p = CLive [] \<and>
     \<not> running (monitor p) \<and> \<not> ever_init (monitor p) \<and> \<not> tid_valid (monitor p)"

text \<open>The pool object before the spawning loop, and the failure of each call before it.\<close>

definition staged :: "nat \<Rightarrow> thread_pool \<Rightarrow> worker_t list \<Rightarrow> int \<Rightarrow> thread_pool" where
  "staged k raw raws n =
     (let p = raw\<lparr>num_workers := of_int n, aging_enable := False, aging_interval_ms := 0,
              aging_promote_ms := 0, in_flight_submits := 0, total_task_in_system := 0,
              shutdown := False, paused := False, pool_pq := pq_fresh\<rparr>;
          p = (if 0 < k then p\<lparr>drain_mutex := MFree\<rparr> else p);
          p = (if 1 < k then p\<lparr>drain_cond := CLive []\<rparr> else p);
          p = (if 2 < k then p\<lparr>aging_mutex := MFree\<rparr> else p);
          p = (if 3 < k then p\<lparr>aging_cond := CLive []\<rparr> else p);
          p = (if 4 < k then p\<lparr>pause_mutex := MFree\<rparr> else p);
          p = (if 5 < k then p\<lparr>pause_cond := CLive []\<rparr> else p)
      in if 6 < k then p\<lparr>workers := Some raws\<rparr> else p)"

lemma staged_built: "raw_pool raw \<Longrightarrow> k \<le> 7 \<Longrightarrow> built k (staged k raw raws n)"
  using pq_fresh_inv [of Map.empty] by (auto simp: built_def staged_def raw_pool_def Let_def)

lemma thread_pool_init_stages:
  assumes "0 < n" and "pool_malloc e"
  shows "thread_pool_init e raw raws n =
    (if pq_mutex_rc e \<noteq> 0 \<or> pq_cond_rc e \<noteq> 0
       then err_free_pool ((staged 0 raw raws n)\<lparr>pool_pq := pq_zero\<rparr>) []
     else if drain_mutex_rc e \<noteq> 0 then err_pq (staged 0 raw raws n) []
     else if drain_cond_rc e \<noteq> 0 then err_drain_mutex (staged 1 raw raws n) []
     else if aging_mutex_rc e \<noteq> 0 then err_drain_cond (staged 2 raw raws n) []
     else if condattr_init_rc e \<noteq> 0 \<or> condattr_setclock_rc e \<noteq> 0 \<or> aging_cond_rc e \<noteq> 0
       then err_aging_mutex (staged 3 raw raws n) []
     else if pause_mutex_rc e \<noteq> 0 then err_aging_cond (staged 4 raw raws n) []
     else if pause_cond_rc e \<noteq> 0 then err_pause_mutex (staged 5 raw raws n) []
     else if \<not> workers_malloc e then err_pause_cond (staged 6 raw raws n) []
     else spawn_workers e (nat n) 0 (staged 7 raw raws n) [])"
proof (cases "pq_mutex_rc e \<noteq> 0 \<or> pq_cond_rc e \<noteq> 0")
  case True
  with assms show ?thesis by (simp add: thread_pool_init_def pq_init_error staged_def Let_def)
next
  case False
  with assms show ?thesis by (simp add: thread_pool_init_def pq_init_fresh staged_def Let_def)
qed

lemma released_zero: "raw_pool raw \<Longrightarrow> released ((staged 0 raw raws n)\<lparr>pool_pq := pq_zero\<rparr>)"
  by (simp add: released_def staged_def raw_pool_def pq_zero_def)

lemma fresh_pool_spawned:
  assumes "same_setup (staged 7 raw raws n) p" and "workers p = Some ws" and "length ws = nat n"
    and "fresh_workers ws" and "\<not> running (monitor p)" and "\<not> ever_init (monitor p)"
    and "\<not> tid_valid (monitor p)" and "0 < n"
  shows "fresh_pool (nat n) p"
proof -
  have "p\<lparr>workers := w, start_time := t, monitor := m\<rparr> = q \<Longrightarrow>
      num_workers p = num_workers q \<and> pool_pq p = pool_pq q \<and> total_task_in_system p = total_task_in_system q \<and>
      in_flight_submits p = in_flight_submits q \<and> shutdown p = shutdown q \<and> paused p = paused q \<and>
      aging_enable p = aging_enable q \<and> aging_interval_ms p = aging_interval_ms q \<and>
      aging_promote_ms p = aging_promote_ms q \<and> drain_mutex p = drain_mutex q \<and>
      drain_cond p = drain_cond q \<and> pause_mutex p = pause_mutex q \<and> pause_cond p = pause_cond q \<and>
      aging_mutex p = aging_mutex q \<and> aging_cond p = aging_cond q" for q w t m by auto
  from this [OF assms(1) [unfolded same_setup_def]] assms(2-)
  show ?thesis by (simp add: fresh_pool_def staged_def Let_def)
qed

lemma release_pool_ok:
  assumes inv: "pq_inv h (pool_pq p) ls" and w: "workers p \<noteq> None"
    and free: "drain_mutex p = MFree" "pause_mutex p = MFree" "aging_mutex p = MFree"
    and live: "drain_cond p \<noteq> CUninit" "pause_cond p \<noteq> CUninit" "aging_cond p \<noteq> CUninit"
  shows "\<exists>p'. release_pool h p = Some (h |` (- set (concat ls)), p') \<and> released p'"
proof -
  obtain q where "pq_destroy h (Some (pool_pq p)) = Some (h |` (- set (concat ls)), Some q)"
    "pq_mutex q = MUninit" "not_empty q = CUninit"
    using pq_destroy_ok [OF inv] by blast
  with w free live show ?thesis
    by (auto simp: release_pool_def cond_destroy_live released_def Let_def)
qed

lemma timespec_add_ms_ok:
  assumes "0 \<le> tv_sec ts" and "tv_sec ts \<le> 9000000000" and "0 \<le> tv_nsec ts" and "tv_nsec ts < 1000000000"
    and "ms < 2 ^ 63"
  shows "\<exists>ts'. timespec_add_ms ts ms = Some ts' \<and> ns_of ts' = ns_of ts + max ms 0 * 1000000 \<and>
    0 \<le> tv_nsec ts' \<and> tv_nsec ts' < 1000000000"
proof (cases "ms \<le> 0")
  case True
  with assms show ?thesis by (simp add: timespec_add_ms_def)
next
  case False
  define d r where "d = ms div 1000" and "r = ms mod 1000"
  have ms: "ms = 1000 * d + r" "0 \<le> r" "r < 1000" "0 \<le> d" "d < 2 ^ 62"
    using False assms(5) by (auto simp: d_def r_def)
  have "0 \<le> ms" using False by simp
  then have cd: "c_div ms 1000 = d" "c_mod ms 1000 = r" by (simp_all add: d_def r_def)
  define ns where "ns = tv_nsec ts + r * 1000000"
  have ns: "0 \<le> ns" "ns < 2000000000" using ms assms by (simp_all add: ns_def)
  have ops: "long_add (tv_sec ts) d = Some (tv_sec ts + d)" "long_mul r 1000000 = Some (r * 1000000)"
    "long_add (tv_nsec ts) (r * 1000000) = Some ns"
    "long_add (tv_sec ts + d) (ns div 1000000000) = Some (tv_sec ts + d + ns div 1000000000)"
    using ms ns assms by (auto simp: long_add_def long_mul_def long_of_def long_ok_def ns_def)
  have "ns_of \<lparr>tv_sec = tv_sec ts + d, tv_nsec = ns\<rparr> = ns_of ts + ms * 1000000"
    by (simp add: ns_of_def ns_def ms(1))
  moreover have "ns = (ns div 1000000000) * 1000000000 + ns mod 1000000000" by simp
  ultimately show ?thesis
    using ns False by (auto simp: timespec_add_ms_def cd ops ns_of_def)
qed

text \<open>Concrete arguments for the construction: raw memory and runs of the system calls.\<close>

definition sample_raw :: thread_pool where
  "sample_raw = \<lparr>workers = None, num_workers = 77, pool_pq = pq_zero, total_task_in_system = 5,
     shutdown = True, drain_mutex = MUninit, drain_cond = CUninit, in_flight_submits = 3, paused = True,
     pause_mutex = MUninit, pause_cond = CUninit, aging_tid = 0, aging_mutex = MUninit, aging_cond = CUninit,
     aging_enable = True, aging_interval_ms = 1, aging_promote_ms = 1, start_time = 0,
     monitor = \<lparr>mon_tid = 0, tid_valid = True, running = True, ever_init = True\<rparr>\<rparr>"

definition sample_raw_worker :: worker_t where
  "sample_raw_worker = \<lparr>tid = 0, worker_id = 9, core_id = 9, busy = True\<rparr>"

definition sample_env :: "nat set \<Rightarrow> init_env" where
  "sample_env bad = \<lparr>pool_malloc = True, pq_mutex_rc = 0, pq_cond_rc = 0, drain_mutex_rc = 0, drain_cond_rc = 0,
     aging_mutex_rc = 0, condattr_init_rc = 0, condattr_setclock_rc = 0, aging_cond_rc = 0, pause_mutex_rc = 0,
     pause_cond_rc = 0, workers_malloc = True, create_rc = (\<lambda>i. if i \<in> bad then 11 else 0),
     create_tid = (\<lambda>i. 100 + i), init_time = 0\<rparr>"

lemmas sample_init_defs = sample_raw_def sample_raw_worker_def sample_env_def

section \<open>Properties\<close>

text \<open>
  C14: \<^verbatim>\<open>thread_pool_init\<close> is all or nothing. If every call succeeds it returns a pool with an
  empty queue, all counters and flags cleared and one idle running thread per worker. If any
  allocation, initialiser or \<^verbatim>\<open>pthread_create\<close> fails, the error labels release every object
  made so far exactly once, join every thread started so far and free the pool; no path faults.
\<close>

theorem thread_pool_init_all_or_nothing:
  assumes n: "0 < n" and malloc: "pool_malloc e" and raw: "raw_pool raw" and raws: "length raws = nat n"
  shows "if init_succeeds e (nat n)
    then \<exists>p ws. thread_pool_init e raw raws n = Some (InitOk p (map tid ws)) \<and> workers p = Some ws \<and>
      fresh_pool (nat n) p
    else \<exists>p. thread_pool_init e raw raws n = Some (InitFreed p []) \<and> released p"
proof -
  note frees = freesD [OF frees_err_pq] freesD [OF frees_err_drain_mutex] freesD [OF frees_err_drain_cond]
    freesD [OF frees_err_aging_mutex] freesD [OF frees_err_aging_cond] freesD [OF frees_err_pause_mutex]
    freesD [OF frees_err_pause_cond]
  have w7: "workers (staged 7 raw raws n) = Some raws" by (simp add: staged_def Let_def)
  have "if \<forall>k \<in> {0 ..< nat n}. create_rc e k = 0
    then \<exists>p ws. spawn_workers e (nat n) 0 (staged 7 raw raws n) [] = Some (InitOk p (map tid ws)) \<and>
      workers p = Some ws \<and> fresh_pool (nat n) p
    else \<exists>p. spawn_workers e (nat n) 0 (staged 7 raw raws n) [] = Some (InitFreed p []) \<and> released p"
    using spawn_workers_spec [OF staged_built [OF raw, of 7] w7, of 0 "nat n" "[]" e] raws n
    by (auto split: if_splits intro: fresh_pool_spawned)
  then show ?thesis
    unfolding thread_pool_init_stages [OF n malloc] init_succeeds_def
    using malloc released_zero [OF raw] staged_built [OF raw]
    by (auto simp: err_free_pool_def frees split: if_splits)
qed

theorem thread_pool_init_all_or_nothing_witness:
  "(\<exists>p ws. thread_pool_init (sample_env {}) sample_raw [sample_raw_worker, sample_raw_worker] 2 =
      Some (InitOk p (map tid ws)) \<and> workers p = Some ws \<and> fresh_pool 2 p) \<and>
   (\<exists>p. thread_pool_init (sample_env {1}) sample_raw [sample_raw_worker, sample_raw_worker] 2 =
      Some (InitFreed p []) \<and> released p)"
proof -
  have "raw_pool sample_raw" "pool_malloc (sample_env b)" for b
    by (simp_all add: sample_init_defs raw_pool_def)
  note init = thread_pool_init_all_or_nothing [OF _ this(2) this(1), of 2 "[sample_raw_worker, sample_raw_worker]"]
  have "init_succeeds (sample_env {}) (nat 2)" by (simp add: init_succeeds_def sample_env_def)
  with init [of "{}"] have "\<exists>p ws. thread_pool_init (sample_env {}) sample_raw [sample_raw_worker, sample_raw_worker] 2 =
      Some (InitOk p (map tid ws)) \<and> workers p = Some ws \<and> fresh_pool 2 p" by simp
  moreover have "\<not> init_succeeds (sample_env {1}) (nat 2)" by (auto simp: init_succeeds_def sample_env_def)
  with init [of "{1}"] have "\<exists>p. thread_pool_init (sample_env {1}) sample_raw [sample_raw_worker, sample_raw_worker] 2 =
      Some (InitFreed p []) \<and> released p" by simp
  ultimately show ?thesis by (rule conjI)
qed

text \<open>
  C15: The end of \<^verbatim>\<open>thread_pool_destroy\<close> on a pool whose mutexes are free: it frees exactly the
  tasks still queued, destroys every synchronisation object and the worker array exactly once,
  and does not fault.
\<close>

theorem release_pool_releases_everything:
  assumes inv: "pq_inv h (pool_pq p) ls" and w: "workers p \<noteq> None"
    and free: "drain_mutex p = MFree" "pause_mutex p = MFree" "aging_mutex p = MFree"
    and live: "drain_cond p \<noteq> CUninit" "pause_cond p \<noteq> CUninit" "aging_cond p \<noteq> CUninit"
  shows "\<exists>p'. release_pool h p = Some (h |` (- set (concat ls)), p') \<and> released p'"
  using assms by (rule release_pool_ok)

theorem release_pool_releases_everything_witness:
  "\<exists>p'. release_pool sample_heap (sample_raw\<lparr>workers := Some [], pool_pq := sample_pq, drain_mutex := MFree,
      pause_mutex := MFree, aging_mutex := MFree, drain_cond := CLive [], pause_cond := CLive [],
      aging_cond := CLive []\<rparr>) = Some (sample_heap |` (- {1, 2}), p') \<and> released p'"
  using release_pool_releases_everything [of sample_heap "sample_raw\<lparr>workers := Some [], pool_pq := sample_pq,
      drain_mutex := MFree, pause_mutex := MFree, aging_mutex := MFree, drain_cond := CLive [],
      pause_cond := CLive [], aging_cond := CLive []\<rparr>" "[[1], [], [2]]"] sample_pq_inv
  by simp

text \<open>
  \<^verbatim>\<open>timespec_add_ms\<close> adds exactly \<open>ms\<close> milliseconds to a normalised time, for every positive
  \<^verbatim>\<open>long\<close>, without overflow, and its result is normalised again; a non-positive \<open>ms\<close> changes
  nothing.
\<close>

theorem timespec_add_ms_exact:
  assumes "0 \<le> tv_sec ts" and "tv_sec ts \<le> 9000000000" and "0 \<le> tv_nsec ts" and "tv_nsec ts < 1000000000"
    and "ms < 2 ^ 63"
  shows "\<exists>ts'. timespec_add_ms ts ms = Some ts' \<and> ns_of ts' = ns_of ts + max ms 0 * 1000000 \<and>
    0 \<le> tv_nsec ts' \<and> tv_nsec ts' < 1000000000"
  using assms by (rule timespec_add_ms_ok)

theorem timespec_add_ms_exact_witness:
  "\<exists>ts'. timespec_add_ms \<lparr>tv_sec = 5, tv_nsec = 800000000\<rparr> 1500 = Some ts' \<and> ns_of ts' = 7300000000"
  using timespec_add_ms_exact [of "\<lparr>tv_sec = 5, tv_nsec = 800000000\<rparr>" 1500] by (auto simp: ns_of_def)

text \<open>
  \<^verbatim>\<open>thread_pool_queue_depth\<close> and \<^verbatim>\<open>thread_pool_num_working\<close> on a pool with fewer than \<open>2 ^ 16\<close>
  workers: the number of busy workers is exact, and the depth is the number of tasks in the
  system minus the busy workers, cut off at 0.
\<close>

theorem queue_depth_exact:
  assumes ws: "workers p = Some ws" and n: "unat (num_workers p) = length ws" and small: "length ws < 2 ^ 16"
  shows "thread_pool_num_working (Some p) = Some (of_nat (length (filter busy ws))) \<and>
    thread_pool_queue_depth (Some p) =
      Some (of_nat (nat (sint (total_task_in_system p) - int (length (filter busy ws)))))"
proof -
  have u: "unat (ucast (num_workers p) :: u16) = length ws"
    using n small by (simp add: unsigned_ucast_eq take_bit_nat_eq_self)
  then have eq: "worker_capacity_busy (Some ws) (ucast (num_workers p)) = Some (of_nat (length (filter busy ws)))"
    using worker_capacity_busy_count [of "ucast (num_workers p)" ws] by simp
  have "length (filter busy ws) < 2 ^ 16" using small length_filter_le [of busy ws] by linarith
  then have "uint (of_nat (length (filter busy ws)) :: u16) = int (length (filter busy ws))"
    by (simp add: unsigned_of_nat take_bit_nat_eq_self)
  then show ?thesis using ws eq
    by (auto simp: thread_pool_num_working_def thread_pool_queue_depth_def Let_def of_nat_nat)
qed

theorem queue_depth_exact_witness:
  "thread_pool_queue_depth (Some (sample_raw\<lparr>workers := Some [sample_raw_worker], num_workers := 1\<rparr>)) = Some 4"
  using queue_depth_exact [of "sample_raw\<lparr>workers := Some [sample_raw_worker], num_workers := 1\<rparr>" "[sample_raw_worker]"]
  by (simp add: sample_init_defs)

text \<open>
  The worker count is passed on as a 16-bit number: a pool with 65536 workers always
  reports that no worker is busy.
\<close>

theorem num_working_truncated:
  assumes "workers p = Some ws" and "num_workers p = 65536"
  shows "thread_pool_num_working (Some p) = Some 0"
  using assms by (simp add: thread_pool_num_working_def worker_capacity_busy_def)

theorem num_working_truncated_witness:
  "\<forall>ws. thread_pool_num_working (Some (sample_raw\<lparr>workers := Some ws, num_workers := 65536\<rparr>)) = Some 0"
proof
  fix ws
  show "thread_pool_num_working (Some (sample_raw\<lparr>workers := Some ws, num_workers := 65536\<rparr>)) = Some 0"
    by (rule num_working_truncated [of _ ws]) simp_all
qed

end
