(* ===== verification/Pool_Machine.thy ===== *)
theory Pool_Machine
  imports Thread_Pool
begin

text \<open>
  The threads of one pool (\<^verbatim>\<open>src/thread_pool.c\<close>) as a step relation: the workers, any number of
  client threads inside \<^verbatim>\<open>thread_pool_submit\<close>, \<^verbatim>\<open>thread_pool_wait\<close>, \<^verbatim>\<open>thread_pool_pause\<close>,
  \<^verbatim>\<open>thread_pool_resume\<close> and \<^verbatim>\<open>thread_pool_set_max_tasks\<close>, the aging thread, and the owner, which
  calls \<^verbatim>\<open>thread_pool_enable_aging\<close>, \<^verbatim>\<open>thread_pool_disable_aging\<close> and \<^verbatim>\<open>thread_pool_destroy\<close> in any
  order.

  A step is one atomic operation or one critical section with at most one access to an
  unprotected atomic object, so that every interleaving of the code is an interleaving of steps
  (memory accesses are sequentially consistent). A thread in \<^verbatim>\<open>pthread_cond_wait\<close> has a program
  counter of its own; a signal moves one waiting thread, a broadcast all of them, and a waiting
  thread may also wake up spuriously. Blocking (a held mutex, a join, the spin on
  \<^verbatim>\<open>in_flight_submits\<close>) is a thread that is not ready. A step function returns \<open>None\<close> when the
  code faults: an access to the pool after its release, to a freed task, outside an array, to a
  destroyed mutex.
\<close>

section \<open>Program counters\<close>

datatype worker_pc =
    W_Loop | W_PauseCheck | W_PauseWait | W_Pop | W_PopWait
  | W_Busy addr | W_Run addr | W_Free addr | W_Idle | W_Dec | W_Signal | W_Exit

record request =
  req_fun :: ptr
  req_arg :: ptr
  req_priority :: task_priority

datatype errno = EINVAL | ESHUTDOWN | EAGAIN | ENOMEM

datatype submit_result = Accepted "64 word" | Rejected errno

datatype client_pc =
    S_Enter request | S_Shutdown request | S_Full request | S_Depth u64 request | S_Create request
  | S_Count addr u64 | S_Stamp addr u64 | S_Push addr u64
  | S_RollCount addr | S_RollFree addr | S_Leave submit_result | S_Done submit_result
  | T_Enter | T_Clear | T_WakePause | T_Drain | T_DrainWait
  | P_Enter | P_Wake | R_Enter | R_WakePause | M_Enter u64 | C_Done

text \<open>
  The owner. \<open>E\<close> is \<^verbatim>\<open>thread_pool_enable_aging\<close>, \<open>X\<close> is \<^verbatim>\<open>thread_pool_disable_aging\<close>, whose flag
  tells whether \<^verbatim>\<open>thread_pool_destroy\<close> called it, and \<open>D\<close> is \<^verbatim>\<open>thread_pool_destroy\<close>.
\<close>

datatype owner_pc =
    O_Idle | E_Enter int int | E_Create | E_Undo
  | X_Enter bool | X_Clear bool | X_Signal bool | X_WakePause bool | X_Join bool
  | D_Enter | D_Unpause | D_Spin | D_WakePq | D_WakePause | D_Drain | D_DrainWait
  | D_Monitor | D_Join nat | D_Release | D_Done

datatype aging_pc =
    A_None | A_Start | A_Loop | A_PauseLock | A_PauseShutdown | A_PauseEnable | A_PauseWait
  | A_Relock | A_Shutdown | A_Enable | A_Wait | A_Woken
  | A_Flag1 | A_Scan1 | A_Flag2 | A_Flag3 | A_Scan2 | A_Exit

section \<open>The state\<close>

text \<open>
  \<open>pool = None\<close> after \<^verbatim>\<open>free(pool)\<close>. The last two fields are not in the program: the calls that
  a successful \<^verbatim>\<open>pq_try_push\<close> handed to the pool and the calls that workers have made, in order.
\<close>

type_synonym call = "u64 \<times> ptr \<times> ptr"

record sys =
  mem :: task_heap
  id_count :: u64
  pool :: "thread_pool option"
  wpcs :: "worker_pc list"
  cpcs :: "client_pc list"
  opc :: owner_pc
  apc :: aging_pc
  accepted :: "call list"
  executed :: "call list"

definition call_of :: "task_t \<Rightarrow> call" where
  "call_of t = (task_id t, func t, arg t)"

text \<open>
  What the environment chooses in a step: the result of \<^verbatim>\<open>malloc\<close>, the clock, the success of
  \<^verbatim>\<open>pthread_create\<close>, and the thread that a signal wakes.
\<close>

record env =
  e_malloc :: ptr
  e_clock :: timespec
  e_create :: bool
  e_pick :: nat

section \<open>Waking\<close>

definition wake_pop :: "worker_pc \<Rightarrow> worker_pc" where
  "wake_pop pc = (if pc = W_PopWait then W_Pop else pc)"

definition wake_pause :: "worker_pc \<Rightarrow> worker_pc" where
  "wake_pause pc = (if pc = W_PauseWait then W_PauseCheck else pc)"

text \<open>Delivery of what an operation sent to \<^verbatim>\<open>not_empty\<close>.\<close>

fun deliver :: "nat \<Rightarrow> wake list \<Rightarrow> worker_pc list \<Rightarrow> worker_pc list" where
  "deliver k [] ws = ws"
| "deliver k (Signal # _) ws = (if k < length ws then ws[k := wake_pop (ws ! k)] else ws)"
| "deliver k (Broadcast # _) ws = map wake_pop ws"

definition wakes :: "cond \<Rightarrow> wake list" where
  "wakes c = (case c of CUninit \<Rightarrow> [] | CLive l \<Rightarrow> l)"

definition set_queue :: "nat \<Rightarrow> thread_pool \<Rightarrow> task_heap \<Rightarrow> priority_queue_t \<Rightarrow> sys \<Rightarrow> sys" where
  "set_queue k p h q s =
     s\<lparr>mem := h, pool := Some (p\<lparr>pool_pq := q\<lparr>not_empty := CLive []\<rparr>\<rparr>),
       wpcs := deliver k (wakes (not_empty q)) (wpcs s)\<rparr>"

definition broadcast_pause :: "sys \<Rightarrow> sys" where
  "broadcast_pause s =
     s\<lparr>wpcs := map wake_pause (wpcs s), apc := (if apc s = A_PauseWait then A_PauseLock else apc s)\<rparr>"

text \<open>The waiters on \<^verbatim>\<open>drain_cond\<close> are clients and, at index \<open>length (cpcs s)\<close>, the owner.\<close>

definition drain_waiter :: "sys \<Rightarrow> nat \<Rightarrow> bool" where
  "drain_waiter s k \<longleftrightarrow>
     (if k < length (cpcs s) then cpcs s ! k = T_DrainWait
      else k = length (cpcs s) \<and> opc s = D_DrainWait)"

definition signal_drain :: "nat \<Rightarrow> sys \<Rightarrow> sys" where
  "signal_drain k s =
     (if \<not> drain_waiter s k then s
      else if k < length (cpcs s) then s\<lparr>cpcs := (cpcs s)[k := T_Drain]\<rparr>
      else s\<lparr>opc := D_Drain\<rparr>)"

section \<open>Workers\<close>

definition wgo :: "nat \<Rightarrow> worker_pc \<Rightarrow> sys \<Rightarrow> sys" where
  "wgo i pc s = s\<lparr>wpcs := (wpcs s)[i := pc]\<rparr>"

definition set_busy :: "nat \<Rightarrow> bool \<Rightarrow> thread_pool \<Rightarrow> thread_pool option" where
  "set_busy i b p = do {
     ws \<leftarrow> workers p;
     w \<leftarrow> array_get ws (int i);
     ws \<leftarrow> array_set ws (int i) (w\<lparr>busy := b\<rparr>);
     Some (p\<lparr>workers := Some ws\<rparr>) }"

definition worker_step :: "env \<Rightarrow> nat \<Rightarrow> sys \<Rightarrow> sys option" where
  "worker_step e i s =
     (case wpcs s ! i of
        W_Loop \<Rightarrow> do {
          p \<leftarrow> pool s;
          Some (wgo i (if paused p then W_PauseCheck else W_Pop) s) }
      | W_PauseCheck \<Rightarrow> do {
          p \<leftarrow> pool s;
          _ \<leftarrow> mutex_lock (pause_mutex p);
          Some (wgo i (if paused p then W_PauseWait else W_Pop) s) }
      | W_Pop \<Rightarrow> do {
          p \<leftarrow> pool s;
          (r, h, q) \<leftarrow> pq_pop_until_shutdown (mem s) (Some (pool_pq p)) (Some (shutdown p));
          q \<leftarrow> q;
          let s = set_queue (e_pick e) p h q s;
          Some (wgo i (case r of PopTask a \<Rightarrow> W_Busy a | PopNull \<Rightarrow> W_Exit | PopWait \<Rightarrow> W_PopWait) s) }
      | W_Busy a \<Rightarrow> do {
          p \<leftarrow> pool s;
          p \<leftarrow> set_busy i True p;
          Some (wgo i (W_Run a) (s\<lparr>pool := Some p\<rparr>)) }
      | W_Run a \<Rightarrow> do {
          t \<leftarrow> mem s a;
          _ \<leftarrow> func t;
          Some (wgo i (W_Free a) (s\<lparr>executed := executed s @ [call_of t]\<rparr>)) }
      | W_Free a \<Rightarrow> do {
          h \<leftarrow> task_destroy (mem s) (Some a);
          Some (wgo i W_Idle (s\<lparr>mem := h\<rparr>)) }
      | W_Idle \<Rightarrow> do {
          p \<leftarrow> pool s;
          p \<leftarrow> set_busy i False p;
          Some (wgo i W_Dec (s\<lparr>pool := Some p\<rparr>)) }
      | W_Dec \<Rightarrow> do {
          p \<leftarrow> pool s;
          let old = sint (total_task_in_system p);
          if old = - (2 ^ 31) then None
          else do {
            let p = p\<lparr>total_task_in_system := total_task_in_system p - 1\<rparr>;
            Some (wgo i (if old - 1 = 0 then W_Signal else W_Loop) (s\<lparr>pool := Some p\<rparr>)) } }
      | W_Signal \<Rightarrow> do {
          p \<leftarrow> pool s;
          _ \<leftarrow> mutex_lock (drain_mutex p);
          _ \<leftarrow> cond_signal (drain_cond p);
          Some (wgo i W_Loop (signal_drain (e_pick e) s)) }
      | _ \<Rightarrow> Some s)"

text \<open>A mutex that another thread holds blocks; a destroyed one does not, it faults.\<close>

definition pause_free :: "sys \<Rightarrow> bool" where
  "pause_free s \<longleftrightarrow> (case pool s of None \<Rightarrow> True | Some p \<Rightarrow> pause_mutex p \<noteq> MHeld)"

definition aging_free :: "sys \<Rightarrow> bool" where
  "aging_free s \<longleftrightarrow> (case pool s of None \<Rightarrow> True | Some p \<Rightarrow> aging_mutex p \<noteq> MHeld)"

definition worker_ready :: "sys \<Rightarrow> nat \<Rightarrow> bool" where
  "worker_ready s i \<longleftrightarrow> i < length (wpcs s) \<and>
     (case wpcs s ! i of
        W_PauseWait \<Rightarrow> False | W_PopWait \<Rightarrow> False | W_Exit \<Rightarrow> False
      | W_PauseCheck \<Rightarrow> pause_free s | _ \<Rightarrow> True)"

section \<open>Clients\<close>

definition cgo :: "nat \<Rightarrow> client_pc \<Rightarrow> sys \<Rightarrow> sys" where
  "cgo i pc s = s\<lparr>cpcs := (cpcs s)[i := pc]\<rparr>"

text \<open>\<^verbatim>\<open>thread_pool_submit\<close>.\<close>

definition submit_step :: "env \<Rightarrow> nat \<Rightarrow> sys \<Rightarrow> sys option" where
  "submit_step e i s =
     (case cpcs s ! i of
        S_Enter r \<Rightarrow>
          if req_fun r = None then Some (cgo i (S_Done (Rejected EINVAL)) s)
          else do {
            p \<leftarrow> pool s;
            let p = p\<lparr>in_flight_submits := in_flight_submits p + 1\<rparr>;
            Some (cgo i (S_Shutdown r) (s\<lparr>pool := Some p\<rparr>)) }
      | S_Shutdown r \<Rightarrow> do {
          p \<leftarrow> pool s;
          Some (cgo i (if shutdown p then S_Leave (Rejected ESHUTDOWN) else S_Full r) s) }
      | S_Full r \<Rightarrow> do {
          p \<leftarrow> pool s;
          Some (cgo i (S_Depth (max_tasks (pool_pq p)) r) s) }
      | S_Depth cap r \<Rightarrow> do {
          p \<leftarrow> pool s;
          Some (cgo i (if pq_is_full_approx (Some ((pool_pq p)\<lparr>max_tasks := cap\<rparr>))
            then S_Leave (Rejected EAGAIN) else S_Create r) s) }
      | S_Create r \<Rightarrow>
          (case task_create (e_malloc e) (mem s) (id_count s) (req_fun r) (req_arg r) (req_priority r) of
             (task, h, cnt) \<Rightarrow>
               (case task of
                  None \<Rightarrow> Some (cgo i (S_Leave (Rejected ENOMEM)) (s\<lparr>mem := h, id_count := cnt\<rparr>))
                | Some a \<Rightarrow> do {
                    t \<leftarrow> h a;
                    Some (cgo i (S_Count a (task_id t)) (s\<lparr>mem := h, id_count := cnt\<rparr>)) }))
      | S_Count a n \<Rightarrow> do {
          p \<leftarrow> pool s;
          let p = p\<lparr>total_task_in_system := total_task_in_system p + 1\<rparr>;
          Some (cgo i (S_Stamp a n) (s\<lparr>pool := Some p\<rparr>)) }
      | S_Stamp a n \<Rightarrow> do {
          p \<leftarrow> pool s;
          t \<leftarrow> mem s a;
          let t = (if aging_enable p then t\<lparr>submit_time := e_clock e\<rparr> else t);
          Some (cgo i (S_Push a n) (s\<lparr>mem := (mem s)(a \<mapsto> t)\<rparr>)) }
      | S_Push a n \<Rightarrow> do {
          p \<leftarrow> pool s;
          t \<leftarrow> mem s a;
          (pushed, h, q) \<leftarrow> pq_try_push (mem s) (Some (pool_pq p)) (Some a);
          q \<leftarrow> q;
          let s = set_queue (e_pick e) p h q s;
          Some (if pushed
            then cgo i (S_Leave (Accepted n)) (s\<lparr>accepted := accepted s @ [call_of t]\<rparr>)
            else cgo i (S_RollCount a) s) }
      | S_RollCount a \<Rightarrow> do {
          p \<leftarrow> pool s;
          let p = p\<lparr>total_task_in_system := total_task_in_system p - 1\<rparr>;
          Some (cgo i (S_RollFree a) (s\<lparr>pool := Some p\<rparr>)) }
      | S_RollFree a \<Rightarrow> do {
          h \<leftarrow> task_destroy (mem s) (Some a);
          Some (cgo i (S_Leave (Rejected EAGAIN)) (s\<lparr>mem := h\<rparr>)) }
      | S_Leave r \<Rightarrow> do {
          p \<leftarrow> pool s;
          let p = p\<lparr>in_flight_submits := in_flight_submits p - 1\<rparr>;
          Some (cgo i (S_Done r) (s\<lparr>pool := Some p\<rparr>)) }
      | _ \<Rightarrow> Some s)"

text \<open>
  The critical sections the other calls share: \<^verbatim>\<open>thread_pool_wake_pause\<close>, and one round of the
  loop that waits for \<^verbatim>\<open>total_task_in_system\<close> to drop to 0, which tells whether it waits.
\<close>

definition thread_pool_wake_pause :: "sys \<Rightarrow> sys option" where
  "thread_pool_wake_pause s = do {
     p \<leftarrow> pool s;
     _ \<leftarrow> mutex_lock (pause_mutex p);
     _ \<leftarrow> cond_broadcast (pause_cond p);
     Some (broadcast_pause s) }"

definition drain_round :: "sys \<Rightarrow> bool option" where
  "drain_round s = do {
     p \<leftarrow> pool s;
     _ \<leftarrow> mutex_lock (drain_mutex p);
     Some (sint (total_task_in_system p) > 0) }"

definition pool_wake_pq :: "env \<Rightarrow> sys \<Rightarrow> sys option" where
  "pool_wake_pq e s = do {
     p \<leftarrow> pool s;
     q \<leftarrow> pq_wake_all (Some (pool_pq p));
     q \<leftarrow> q;
     Some (set_queue (e_pick e) p (mem s) q s) }"

definition set_paused :: "bool \<Rightarrow> sys \<Rightarrow> sys option" where
  "set_paused b s = do { p \<leftarrow> pool s; Some (s\<lparr>pool := Some (p\<lparr>paused := b\<rparr>)\<rparr>) }"

text \<open>
  \<^verbatim>\<open>thread_pool_wait\<close> (\<open>T\<close>), \<^verbatim>\<open>thread_pool_pause\<close> (\<open>P\<close>), \<^verbatim>\<open>thread_pool_resume\<close> (\<open>R\<close>) and
  \<^verbatim>\<open>thread_pool_set_max_tasks\<close> (\<open>M\<close>).
\<close>

definition control_step :: "env \<Rightarrow> nat \<Rightarrow> sys \<Rightarrow> sys option" where
  "control_step e i s =
     (case cpcs s ! i of
        T_Enter \<Rightarrow> do { p \<leftarrow> pool s; Some (cgo i (if paused p then T_Clear else T_Drain) s) }
      | T_Clear \<Rightarrow> do { s \<leftarrow> set_paused False s; Some (cgo i T_WakePause s) }
      | T_WakePause \<Rightarrow> do { s \<leftarrow> thread_pool_wake_pause s; Some (cgo i T_Drain s) }
      | T_Drain \<Rightarrow> do { w \<leftarrow> drain_round s; Some (cgo i (if w then T_DrainWait else C_Done) s) }
      | P_Enter \<Rightarrow> do { s \<leftarrow> set_paused True s; Some (cgo i P_Wake s) }
      | P_Wake \<Rightarrow> do { s \<leftarrow> pool_wake_pq e s; Some (cgo i C_Done s) }
      | R_Enter \<Rightarrow> do { s \<leftarrow> set_paused False s; Some (cgo i R_WakePause s) }
      | R_WakePause \<Rightarrow> do { s \<leftarrow> thread_pool_wake_pause s; Some (cgo i C_Done s) }
      | M_Enter n \<Rightarrow> do {
          p \<leftarrow> pool s;
          p \<leftarrow> thread_pool_set_max_tasks (Some p) n;
          Some (cgo i C_Done (s\<lparr>pool := Some p\<rparr>)) }
      | _ \<Rightarrow> Some s)"

definition is_submit :: "client_pc \<Rightarrow> bool" where
  "is_submit pc =
     (case pc of
        S_Enter _ \<Rightarrow> True | S_Shutdown _ \<Rightarrow> True | S_Full _ \<Rightarrow> True | S_Depth _ _ \<Rightarrow> True | S_Create _ \<Rightarrow> True
      | S_Count _ _ \<Rightarrow> True | S_Stamp _ _ \<Rightarrow> True | S_Push _ _ \<Rightarrow> True | S_RollCount _ \<Rightarrow> True
      | S_RollFree _ \<Rightarrow> True | S_Leave _ \<Rightarrow> True | S_Done _ \<Rightarrow> True | _ \<Rightarrow> False)"

definition client_step :: "env \<Rightarrow> nat \<Rightarrow> sys \<Rightarrow> sys option" where
  "client_step e i s = (if is_submit (cpcs s ! i) then submit_step e i s else control_step e i s)"

section \<open>The owner\<close>

definition ogo :: "owner_pc \<Rightarrow> sys \<Rightarrow> sys" where
  "ogo pc s = s\<lparr>opc := pc\<rparr>"

definition enable_step :: "env \<Rightarrow> sys \<Rightarrow> sys option" where
  "enable_step e s =
     (case opc s of
        E_Enter interval promote \<Rightarrow>
          if interval \<le> 0 \<or> promote \<le> 0 then Some (ogo O_Idle s)
          else do {
            p \<leftarrow> pool s;
            _ \<leftarrow> mutex_lock (aging_mutex p);
            if aging_enable p then Some (ogo O_Idle s)
            else do {
              let p = p\<lparr>aging_interval_ms := interval, aging_promote_ms := promote, aging_enable := True\<rparr>;
              Some (ogo E_Create (s\<lparr>pool := Some p\<rparr>)) } }
      | E_Create \<Rightarrow> Some (if e_create e then ogo O_Idle (s\<lparr>apc := A_Start\<rparr>) else ogo E_Undo s)
      | E_Undo \<Rightarrow> do {
          p \<leftarrow> pool s;
          Some (ogo O_Idle (s\<lparr>pool := Some (p\<lparr>aging_enable := False\<rparr>)\<rparr>)) }
      | _ \<Rightarrow> Some s)"

text \<open>Where \<^verbatim>\<open>thread_pool_disable_aging\<close> returns to.\<close>

definition after_disable :: "bool \<Rightarrow> owner_pc" where
  "after_disable d = (if d then D_Drain else O_Idle)"

definition disable_step :: "sys \<Rightarrow> sys option" where
  "disable_step s =
     (case opc s of
        X_Enter d \<Rightarrow> do {
          p \<leftarrow> pool s;
          Some (ogo (if aging_enable p then X_Clear d else after_disable d) s) }
      | X_Clear d \<Rightarrow> do {
          p \<leftarrow> pool s;
          Some (ogo (X_Signal d) (s\<lparr>pool := Some (p\<lparr>aging_enable := False\<rparr>)\<rparr>)) }
      | X_Signal d \<Rightarrow> do {
          p \<leftarrow> pool s;
          _ \<leftarrow> mutex_lock (aging_mutex p);
          _ \<leftarrow> cond_signal (aging_cond p);
          Some (ogo (X_WakePause d) (s\<lparr>apc := (if apc s = A_Wait then A_Woken else apc s)\<rparr>)) }
      | X_WakePause d \<Rightarrow> do { s \<leftarrow> thread_pool_wake_pause s; Some (ogo (X_Join d) s) }
      | X_Join d \<Rightarrow> Some (ogo (after_disable d) (s\<lparr>apc := A_None\<rparr>))
      | _ \<Rightarrow> Some s)"

text \<open>\<^verbatim>\<open>thread_pool_destroy\<close>; \<open>X_Enter True\<close> to \<open>X_Join True\<close> are its call that stops the aging thread.
  \<open>D_Monitor\<close> is \<^verbatim>\<open>monitor_stop\<close>, whose thread is the subject of its own theory.\<close>

definition destroy_step :: "env \<Rightarrow> sys \<Rightarrow> sys option" where
  "destroy_step e s =
     (case opc s of
        D_Enter \<Rightarrow> do {
          p \<leftarrow> pool s;
          Some (ogo D_Unpause (s\<lparr>pool := Some (p\<lparr>shutdown := True\<rparr>)\<rparr>)) }
      | D_Unpause \<Rightarrow> do { s \<leftarrow> set_paused False s; Some (ogo D_Spin s) }
      | D_Spin \<Rightarrow> do {
          p \<leftarrow> pool s;
          Some (if in_flight_submits p > 0 then s else ogo D_WakePq s) }
      | D_WakePq \<Rightarrow> do { s \<leftarrow> pool_wake_pq e s; Some (ogo D_WakePause s) }
      | D_WakePause \<Rightarrow> do { s \<leftarrow> thread_pool_wake_pause s; Some (ogo (X_Enter True) s) }
      | D_Drain \<Rightarrow> do { w \<leftarrow> drain_round s; Some (ogo (if w then D_DrainWait else D_Monitor) s) }
      | D_Monitor \<Rightarrow> do {
          p \<leftarrow> pool s;
          Some (ogo (D_Join 0) (s\<lparr>pool := Some (p\<lparr>monitor := (monitor p)\<lparr>running := False, tid_valid := False\<rparr>\<rparr>)\<rparr>)) }
      | D_Join n \<Rightarrow> do {
          p \<leftarrow> pool s;
          if n < unat (num_workers p) then do {
            ws \<leftarrow> workers p;
            _ \<leftarrow> array_get ws (int n);
            Some (ogo (D_Join (Suc n)) s) }
          else Some (ogo D_Release s) }
      | D_Release \<Rightarrow> do {
          p \<leftarrow> pool s;
          (h, _) \<leftarrow> release_pool (mem s) p;
          Some (ogo D_Done (s\<lparr>mem := h, pool := None\<rparr>)) }
      | _ \<Rightarrow> Some s)"

definition owner_step :: "env \<Rightarrow> sys \<Rightarrow> sys option" where
  "owner_step e s =
     (case opc s of
        E_Enter _ _ \<Rightarrow> enable_step e s | E_Create \<Rightarrow> enable_step e s | E_Undo \<Rightarrow> enable_step e s
      | X_Enter _ \<Rightarrow> disable_step s | X_Clear _ \<Rightarrow> disable_step s | X_Signal _ \<Rightarrow> disable_step s
      | X_WakePause _ \<Rightarrow> disable_step s | X_Join _ \<Rightarrow> disable_step s
      | _ \<Rightarrow> destroy_step e s)"

text \<open>
  \<^verbatim>\<open>pthread_join\<close> blocks until its thread has finished. The spin on \<^verbatim>\<open>in_flight_submits\<close> is always
  ready: it is a busy wait.
\<close>

definition owner_ready :: "sys \<Rightarrow> bool" where
  "owner_ready s \<longleftrightarrow>
     (case opc s of
        O_Idle \<Rightarrow> False | D_DrainWait \<Rightarrow> False | D_Done \<Rightarrow> False
      | E_Enter i p \<Rightarrow> i \<le> 0 \<or> p \<le> 0 \<or> aging_free s
      | X_Signal _ \<Rightarrow> aging_free s | X_WakePause _ \<Rightarrow> pause_free s | D_WakePause \<Rightarrow> pause_free s
      | X_Join _ \<Rightarrow> apc s = A_Exit
      | D_Join n \<Rightarrow> n < length (wpcs s) \<longrightarrow> wpcs s ! n = W_Exit
      | _ \<Rightarrow> True)"

text \<open>The calls an idle owner may start.\<close>

definition owner_call :: "owner_pc \<Rightarrow> bool" where
  "owner_call pc =
     (case pc of
        E_Enter i p \<Rightarrow> i < 2 ^ 63 \<and> p \<le> 9000000000000
      | X_Enter d \<Rightarrow> \<not> d | D_Enter \<Rightarrow> True | _ \<Rightarrow> False)"

section \<open>The aging thread\<close>

definition ago :: "aging_pc \<Rightarrow> sys \<Rightarrow> sys" where
  "ago pc s = s\<lparr>apc := pc\<rparr>"

definition aging_lock :: "sys \<Rightarrow> sys option" where
  "aging_lock s = do {
     p \<leftarrow> pool s; m \<leftarrow> mutex_lock (aging_mutex p); Some (s\<lparr>pool := Some (p\<lparr>aging_mutex := m\<rparr>)\<rparr>) }"

definition aging_unlock :: "sys \<Rightarrow> sys option" where
  "aging_unlock s = do {
     p \<leftarrow> pool s; m \<leftarrow> mutex_unlock (aging_mutex p); Some (s\<lparr>pool := Some (p\<lparr>aging_mutex := m\<rparr>)\<rparr>) }"

definition pause_lock :: "sys \<Rightarrow> sys option" where
  "pause_lock s = do {
     p \<leftarrow> pool s; m \<leftarrow> mutex_lock (pause_mutex p); Some (s\<lparr>pool := Some (p\<lparr>pause_mutex := m\<rparr>)\<rparr>) }"

definition pause_unlock :: "sys \<Rightarrow> sys option" where
  "pause_unlock s = do {
     p \<leftarrow> pool s; m \<leftarrow> mutex_unlock (pause_mutex p); Some (s\<lparr>pool := Some (p\<lparr>pause_mutex := m\<rparr>)\<rparr>) }"

text \<open>One scan of \<^verbatim>\<open>pq_aging\<close> after its load of the shutdown flag.\<close>

definition aging_scan :: "env \<Rightarrow> task_priority \<Rightarrow> task_priority \<Rightarrow> sys \<Rightarrow> sys option" where
  "aging_scan e src dst s = do {
     p \<leftarrow> pool s;
     (_, h, q) \<leftarrow> pq_aging_promote_prefix (mem s) (pool_pq p) src dst (Some False) (e_clock e) (aging_promote_ms p);
     Some (set_queue (e_pick e) p h q s) }"

definition aging_step :: "env \<Rightarrow> sys \<Rightarrow> sys option" where
  "aging_step e s =
     (case apc s of
        A_Start \<Rightarrow> do { s \<leftarrow> aging_lock s; Some (ago A_Loop s) }
      | A_Loop \<Rightarrow> do {
          p \<leftarrow> pool s;
          if paused p then do { s \<leftarrow> aging_unlock s; Some (ago A_PauseLock s) }
          else Some (ago A_Shutdown s) }
      | A_PauseLock \<Rightarrow> do {
          p \<leftarrow> pool s;
          if paused p then do { s \<leftarrow> pause_lock s; Some (ago A_PauseShutdown s) }
          else do { _ \<leftarrow> mutex_lock (pause_mutex p); Some (ago A_Relock s) } }
      | A_PauseShutdown \<Rightarrow> do {
          p \<leftarrow> pool s;
          if shutdown p then do { s \<leftarrow> pause_unlock s; Some (ago A_Relock s) }
          else Some (ago A_PauseEnable s) }
      | A_PauseEnable \<Rightarrow> do {
          p \<leftarrow> pool s;
          s \<leftarrow> pause_unlock s;
          Some (ago (if aging_enable p then A_PauseWait else A_Relock) s) }
      | A_Relock \<Rightarrow> do { s \<leftarrow> aging_lock s; Some (ago A_Shutdown s) }
      | A_Shutdown \<Rightarrow> do {
          p \<leftarrow> pool s;
          if shutdown p then do { s \<leftarrow> aging_unlock s; Some (ago A_Exit s) }
          else Some (ago A_Enable s) }
      | A_Enable \<Rightarrow> do {
          p \<leftarrow> pool s;
          if \<not> aging_enable p then do { s \<leftarrow> aging_unlock s; Some (ago A_Exit s) }
          else do {
            _ \<leftarrow> timespec_add_ms (e_clock e) (aging_interval_ms p);
            s \<leftarrow> aging_unlock s;
            Some (ago A_Wait s) } }
      | A_Wait \<Rightarrow> Some (ago A_Woken s)
      | A_Woken \<Rightarrow> do { s \<leftarrow> aging_lock s; Some (ago A_Flag1 s) }
      | A_Flag1 \<Rightarrow> do { p \<leftarrow> pool s; Some (ago (if shutdown p then A_Flag2 else A_Scan1) s) }
      | A_Scan1 \<Rightarrow> do { s \<leftarrow> aging_scan e PRIORITY_MEDIUM PRIORITY_HIGH s; Some (ago A_Flag2 s) }
      | A_Flag2 \<Rightarrow> do { p \<leftarrow> pool s; Some (ago (if shutdown p then A_Loop else A_Flag3) s) }
      | A_Flag3 \<Rightarrow> do { p \<leftarrow> pool s; Some (ago (if shutdown p then A_Loop else A_Scan2) s) }
      | A_Scan2 \<Rightarrow> do { s \<leftarrow> aging_scan e PRIORITY_LOW PRIORITY_MEDIUM s; Some (ago A_Loop s) }
      | _ \<Rightarrow> Some s)"

text \<open>The step from \<open>A_Wait\<close> is the timeout of \<^verbatim>\<open>pthread_cond_timedwait\<close>.\<close>

definition aging_ready :: "sys \<Rightarrow> bool" where
  "aging_ready s \<longleftrightarrow>
     (case apc s of
        A_None \<Rightarrow> False | A_Exit \<Rightarrow> False | A_PauseWait \<Rightarrow> False
      | A_Start \<Rightarrow> aging_free s | A_Relock \<Rightarrow> aging_free s | A_Woken \<Rightarrow> aging_free s
      | A_PauseLock \<Rightarrow> pause_free s | _ \<Rightarrow> True)"

section \<open>The contract of the callers\<close>

text \<open>
  The owner destroys the pool when no other thread is inside \<^verbatim>\<open>thread_pool_wait\<close>,
  \<^verbatim>\<open>thread_pool_pause\<close>, \<^verbatim>\<open>thread_pool_resume\<close> or \<^verbatim>\<open>thread_pool_set_max_tasks\<close>, and none of these
  is called afterwards. Calls of \<^verbatim>\<open>thread_pool_submit\<close> may overlap with \<^verbatim>\<open>thread_pool_destroy\<close>, as
  long as their first access to the pool comes before the spin on \<^verbatim>\<open>in_flight_submits\<close> ends: a
  later one could only be an access to an object about to be freed.
\<close>

definition destroying :: "owner_pc \<Rightarrow> bool" where
  "destroying pc =
     (case pc of
        O_Idle \<Rightarrow> False | E_Enter _ _ \<Rightarrow> False | E_Create \<Rightarrow> False | E_Undo \<Rightarrow> False
      | X_Enter d \<Rightarrow> d | X_Clear d \<Rightarrow> d | X_Signal d \<Rightarrow> d | X_WakePause d \<Rightarrow> d | X_Join d \<Rightarrow> d
      | _ \<Rightarrow> True)"

definition past_spin :: "owner_pc \<Rightarrow> bool" where
  "past_spin pc \<longleftrightarrow> destroying pc \<and> pc \<noteq> D_Enter \<and> pc \<noteq> D_Unpause \<and> pc \<noteq> D_Spin"

definition in_control :: "client_pc \<Rightarrow> bool" where
  "in_control pc =
     (case pc of T_Clear \<Rightarrow> True | T_WakePause \<Rightarrow> True | T_Drain \<Rightarrow> True | T_DrainWait \<Rightarrow> True
      | P_Wake \<Rightarrow> True | R_WakePause \<Rightarrow> True | _ \<Rightarrow> False)"

definition client_allowed :: "sys \<Rightarrow> nat \<Rightarrow> bool" where
  "client_allowed s i =
     (case cpcs s ! i of
        S_Enter _ \<Rightarrow> \<not> past_spin (opc s)
      | T_Enter \<Rightarrow> \<not> destroying (opc s) | P_Enter \<Rightarrow> \<not> destroying (opc s)
      | R_Enter \<Rightarrow> \<not> destroying (opc s) | M_Enter _ \<Rightarrow> \<not> destroying (opc s)
      | _ \<Rightarrow> True)"

definition client_ready :: "sys \<Rightarrow> nat \<Rightarrow> bool" where
  "client_ready s i \<longleftrightarrow> i < length (cpcs s) \<and> client_allowed s i \<and>
     (case cpcs s ! i of
        S_Done _ \<Rightarrow> False | C_Done \<Rightarrow> False | T_DrainWait \<Rightarrow> False
      | T_WakePause \<Rightarrow> pause_free s | R_WakePause \<Rightarrow> pause_free s | _ \<Rightarrow> True)"

definition call_allowed :: "sys \<Rightarrow> owner_pc \<Rightarrow> bool" where
  "call_allowed s pc \<longleftrightarrow> opc s = O_Idle \<and> owner_call pc \<and>
     (pc = D_Enter \<longrightarrow> list_all (\<lambda>c. \<not> in_control c) (cpcs s))"

section \<open>The environment\<close>

text \<open>The tasks a worker or a client accounts for, and all tasks between creation and accounting.\<close>

fun wcount :: "worker_pc \<Rightarrow> nat" where
  "wcount (W_Busy _) = 1" | "wcount (W_Run _) = 1" | "wcount (W_Free _) = 1"
| "wcount W_Idle = 1" | "wcount W_Dec = 1" | "wcount _ = 0"

fun chold :: "client_pc \<Rightarrow> nat" where
  "chold (S_Count _ _) = 1" | "chold (S_Stamp _ _) = 1" | "chold (S_Push _ _) = 1"
| "chold (S_RollCount _) = 1" | "chold (S_RollFree _) = 1" | "chold _ = 0"

definition task_load :: "sys \<Rightarrow> nat" where
  "task_load s =
     (case pool s of None \<Rightarrow> 0 | Some p \<Rightarrow> unat (pq_count (pool_pq p))) +
     tally wcount (wpcs s) + tally chold (cpcs s)"

text \<open>
  \<^verbatim>\<open>malloc\<close> returns an address that is not in use, and fails before \<open>2 ^ 31\<close> tasks exist (a
  task takes more than 48 bytes); the monotonic clock is normalised and below 9 billion seconds.
\<close>

definition env_ok :: "env \<Rightarrow> sys \<Rightarrow> bool" where
  "env_ok e s \<longleftrightarrow>
     (case e_malloc e of None \<Rightarrow> True | Some a \<Rightarrow> mem s a = None \<and> task_load s + 1 < 2 ^ 31) \<and>
     time_ok (e_clock e)"

text \<open>\<^verbatim>\<open>pthread_cond_signal\<close> wakes a waiting thread if there is one.\<close>

definition fair_pop :: "sys \<Rightarrow> nat \<Rightarrow> bool" where
  "fair_pop s k \<longleftrightarrow> list_all (\<lambda>pc. pc \<noteq> W_PopWait) (wpcs s) \<or> (k < length (wpcs s) \<and> wpcs s ! k = W_PopWait)"

definition fair_drain :: "sys \<Rightarrow> nat \<Rightarrow> bool" where
  "fair_drain s k \<longleftrightarrow>
     (list_all (\<lambda>pc. pc \<noteq> T_DrainWait) (cpcs s) \<and> opc s \<noteq> D_DrainWait) \<or> drain_waiter s k"

section \<open>Runs\<close>

inductive thread_step :: "sys \<Rightarrow> sys \<Rightarrow> bool" where
  worker: "worker_ready s i \<Longrightarrow> env_ok e s \<Longrightarrow> wpcs s ! i = W_Signal \<longrightarrow> fair_drain s (e_pick e) \<Longrightarrow>
    worker_step e i s = Some s' \<Longrightarrow> thread_step s s'"
| client: "client_ready s i \<Longrightarrow> env_ok e s \<Longrightarrow> fair_pop s (e_pick e) \<Longrightarrow>
    client_step e i s = Some s' \<Longrightarrow> thread_step s s'"
| owner: "owner_ready s \<Longrightarrow> env_ok e s \<Longrightarrow> owner_step e s = Some s' \<Longrightarrow> thread_step s s'"
| aging: "aging_ready s \<Longrightarrow> env_ok e s \<Longrightarrow> aging_step e s = Some s' \<Longrightarrow> thread_step s s'"

inductive spurious_step :: "sys \<Rightarrow> sys \<Rightarrow> bool" where
  pop: "i < length (wpcs s) \<Longrightarrow> wpcs s ! i = W_PopWait \<Longrightarrow> spurious_step s (wgo i W_Pop s)"
| pause: "i < length (wpcs s) \<Longrightarrow> wpcs s ! i = W_PauseWait \<Longrightarrow> spurious_step s (wgo i W_PauseCheck s)"
| drain: "i < length (cpcs s) \<Longrightarrow> cpcs s ! i = T_DrainWait \<Longrightarrow> spurious_step s (cgo i T_Drain s)"
| destroy: "opc s = D_DrainWait \<Longrightarrow> spurious_step s (ogo D_Drain s)"
| aging_pause: "apc s = A_PauseWait \<Longrightarrow> spurious_step s (ago A_PauseLock s)"

inductive pool_step :: "sys \<Rightarrow> sys \<Rightarrow> bool" where
  thread: "thread_step s s' \<Longrightarrow> pool_step s s'"
| spurious: "spurious_step s s' \<Longrightarrow> pool_step s s'"
| call: "call_allowed s pc \<Longrightarrow> pool_step s (ogo pc s)"

text \<open>A thread that is ready and whose next operation faults.\<close>

definition can_fault :: "sys \<Rightarrow> bool" where
  "can_fault s \<longleftrightarrow> (\<exists>e. env_ok e s \<and>
     ((\<exists>i. worker_ready s i \<and> worker_step e i s = None) \<or>
      (\<exists>i. client_ready s i \<and> client_step e i s = None) \<or>
      (owner_ready s \<and> owner_step e s = None) \<or> (aging_ready s \<and> aging_step e s = None)))"

text \<open>
  The start: a pool as \<^verbatim>\<open>thread_pool_init\<close> returns it, its workers at the top of their loop, and
  clients about to enter a call, with priorities of the enumeration.
\<close>

definition valid_priority :: "task_priority \<Rightarrow> bool" where
  "valid_priority pr \<longleftrightarrow> 0 \<le> pr \<and> pr < NUM_PRIORITIES"

definition entry :: "client_pc \<Rightarrow> bool" where
  "entry pc =
     (case pc of S_Enter r \<Rightarrow> valid_priority (req_priority r)
      | T_Enter \<Rightarrow> True | P_Enter \<Rightarrow> True | R_Enter \<Rightarrow> True | M_Enter _ \<Rightarrow> True | _ \<Rightarrow> False)"

definition pool_start :: "nat \<Rightarrow> sys \<Rightarrow> bool" where
  "pool_start n s \<longleftrightarrow>
     0 < n \<and> n < 2 ^ 31 \<and> length (cpcs s) < 2 ^ 32 \<and>
     (\<exists>p. pool s = Some p \<and> fresh_pool n p) \<and> mem s = Map.empty \<and>
     wpcs s = replicate n W_Loop \<and> list_all entry (cpcs s) \<and> opc s = O_Idle \<and> apc s = A_None \<and>
     accepted s = [] \<and> executed s = []"

end
