(* ===== verification/Pool_Invariant.thy ===== *)
theory Pool_Invariant
  imports Pool_Machine
begin

text \<open>
  The invariant of the pool's step relation. Every allocated task is owned exactly once (by a
  lane of the queue, by a worker or by a client in \<^verbatim>\<open>thread_pool_submit\<close>), the two counters of the
  pool count what they are meant to count, every accepted call is either executed or pending
  exactly once, the mutexes are held only where the code holds them, and each phase of
  \<^verbatim>\<open>thread_pool_destroy\<close> has established what the next one relies on.
\<close>

declare set_concat [simp del] concat_eq_Nil_conv [simp del] Nil_eq_concat_conv [simp del]

section \<open>What the program counters hold\<close>

fun wnode :: "worker_pc \<Rightarrow> addr multiset" where
  "wnode (W_Busy a) = {#a#}" | "wnode (W_Run a) = {#a#}" | "wnode (W_Free a) = {#a#}" | "wnode _ = {#}"

fun wpend :: "worker_pc \<Rightarrow> addr multiset" where
  "wpend (W_Busy a) = {#a#}" | "wpend (W_Run a) = {#a#}" | "wpend _ = {#}"

fun cnode :: "client_pc \<Rightarrow> addr multiset" where
  "cnode (S_Count a _) = {#a#}" | "cnode (S_Stamp a _) = {#a#}" | "cnode (S_Push a _) = {#a#}"
| "cnode (S_RollCount a) = {#a#}" | "cnode (S_RollFree a) = {#a#}" | "cnode _ = {#}"

fun ccount :: "client_pc \<Rightarrow> nat" where
  "ccount (S_Stamp _ _) = 1" | "ccount (S_Push _ _) = 1" | "ccount (S_RollCount _) = 1" | "ccount _ = 0"

fun cflight :: "client_pc \<Rightarrow> nat" where
  "cflight (S_Shutdown _) = 1" | "cflight (S_Full _) = 1" | "cflight (S_Depth _ _) = 1" | "cflight (S_Create _) = 1"
| "cflight (S_Count _ _) = 1" | "cflight (S_Stamp _ _) = 1" | "cflight (S_Push _ _) = 1"
| "cflight (S_RollCount _) = 1" | "cflight (S_RollFree _) = 1" | "cflight (S_Leave _) = 1" | "cflight _ = 0"

fun req_ok :: "client_pc \<Rightarrow> bool" where
  "req_ok (S_Enter r) = valid_priority (req_priority r)"
| "req_ok (S_Shutdown r) = (valid_priority (req_priority r) \<and> req_fun r \<noteq> None)"
| "req_ok (S_Full r) = (valid_priority (req_priority r) \<and> req_fun r \<noteq> None)"
| "req_ok (S_Depth _ r) = (valid_priority (req_priority r) \<and> req_fun r \<noteq> None)"
| "req_ok (S_Create r) = (valid_priority (req_priority r) \<and> req_fun r \<noteq> None)"
| "req_ok _ = True"


definition holds_pause :: "aging_pc \<Rightarrow> bool" where
  "holds_pause pc \<longleftrightarrow> pc = A_PauseShutdown \<or> pc = A_PauseEnable"

definition holds_aging :: "aging_pc \<Rightarrow> bool" where
  "holds_aging pc \<longleftrightarrow>
     pc = A_Loop \<or> pc = A_Shutdown \<or> pc = A_Enable \<or> pc = A_Flag1 \<or> pc = A_Scan1 \<or> pc = A_Flag2 \<or>
     pc = A_Flag3 \<or> pc = A_Scan2"

definition past_drain :: "owner_pc \<Rightarrow> bool" where
  "past_drain pc = (case pc of D_Monitor \<Rightarrow> True | D_Join _ \<Rightarrow> True | D_Release \<Rightarrow> True | D_Done \<Rightarrow> True | _ \<Rightarrow> False)"

section \<open>The invariant\<close>

definition call_at :: "task_heap \<Rightarrow> addr \<Rightarrow> call" where
  "call_at h a = call_of (the (h a))"

definition node_ok :: "task_t \<Rightarrow> bool" where
  "node_ok t \<longleftrightarrow> func t \<noteq> None \<and> time_ok (submit_time t)"

definition prio_at :: "task_heap \<Rightarrow> addr \<Rightarrow> bool" where
  "prio_at h a \<longleftrightarrow> (case h a of None \<Rightarrow> False | Some t \<Rightarrow> valid_priority (priority t))"

definition mem_inv :: "sys \<Rightarrow> addr lanes \<Rightarrow> bool" where
  "mem_inv s ls \<longleftrightarrow>
     finite (dom (mem s)) \<and>
     mset (concat ls) + tally wnode (wpcs s) + tally cnode (cpcs s) = mset_set (dom (mem s)) \<and>
     (\<forall>a t. mem s a = Some t \<longrightarrow> node_ok t) \<and>
     (\<forall>a \<in># tally cnode (cpcs s). prio_at (mem s) a)"

definition count_inv :: "sys \<Rightarrow> thread_pool \<Rightarrow> addr lanes \<Rightarrow> bool" where
  "count_inv s p ls \<longleftrightarrow>
     total_task_in_system p = of_nat (length (concat ls) + tally wcount (wpcs s) + tally ccount (cpcs s)) \<and>
     length (concat ls) + tally wcount (wpcs s) + tally chold (cpcs s) < 2 ^ 31 \<and>
     in_flight_submits p = of_nat (tally cflight (cpcs s)) \<and> length (cpcs s) < 2 ^ 32"

definition job_inv :: "sys \<Rightarrow> addr lanes \<Rightarrow> bool" where
  "job_inv s ls \<longleftrightarrow>
     mset (accepted s) =
       mset (executed s) + image_mset (call_at (mem s)) (mset (concat ls) + tally wpend (wpcs s))"

fun args_ok :: "owner_pc \<Rightarrow> bool" where
  "args_ok (E_Enter i pr) \<longleftrightarrow> i < 2 ^ 63 \<and> pr \<le> 9000000000000"
| "args_ok _ \<longleftrightarrow> True"

definition req_inv :: "sys \<Rightarrow> bool" where
  "req_inv s \<longleftrightarrow> list_all req_ok (cpcs s) \<and> args_ok (opc s)"

definition sync_inv :: "sys \<Rightarrow> thread_pool \<Rightarrow> bool" where
  "sync_inv s p \<longleftrightarrow>
     drain_mutex p = MFree \<and> drain_cond p \<noteq> CUninit \<and> pause_cond p \<noteq> CUninit \<and> aging_cond p \<noteq> CUninit \<and>
     pause_mutex p = (if holds_pause (apc s) then MHeld else MFree) \<and>
     aging_mutex p = (if holds_aging (apc s) then MHeld else MFree) \<and>
     (\<exists>ws. workers p = Some ws \<and> length ws = length (wpcs s)) \<and> unat (num_workers p) = length (wpcs s) \<and>
     \<not> tid_valid (monitor p) \<and> 0 \<le> aging_promote_ms p \<and> aging_promote_ms p \<le> 9000000000000 \<and>
     aging_interval_ms p < 2 ^ 63"

text \<open>Whether aging is enabled and the aging thread exists, between and within the owner's calls.\<close>

fun aging_rel :: "owner_pc \<Rightarrow> bool \<Rightarrow> aging_pc \<Rightarrow> bool" where
  "aging_rel E_Create en pc \<longleftrightarrow> en \<and> pc = A_None"
| "aging_rel E_Undo en pc \<longleftrightarrow> en \<and> pc = A_None"
| "aging_rel (X_Clear _) en pc \<longleftrightarrow> en \<and> pc \<noteq> A_None"
| "aging_rel (X_Signal _) en pc \<longleftrightarrow> \<not> en \<and> pc \<noteq> A_None"
| "aging_rel (X_WakePause _) en pc \<longleftrightarrow> \<not> en \<and> pc \<noteq> A_None"
| "aging_rel (X_Join _) en pc \<longleftrightarrow> \<not> en \<and> pc \<noteq> A_None"
| "aging_rel D_Drain en pc \<longleftrightarrow> \<not> en \<and> pc = A_None"
| "aging_rel D_DrainWait en pc \<longleftrightarrow> \<not> en \<and> pc = A_None"
| "aging_rel D_Monitor en pc \<longleftrightarrow> \<not> en \<and> pc = A_None"
| "aging_rel (D_Join _) en pc \<longleftrightarrow> \<not> en \<and> pc = A_None"
| "aging_rel D_Release en pc \<longleftrightarrow> \<not> en \<and> pc = A_None"
| "aging_rel _ en pc \<longleftrightarrow> (en \<longleftrightarrow> pc \<noteq> A_None)"

definition aging_inv :: "sys \<Rightarrow> thread_pool \<Rightarrow> bool" where
  "aging_inv s p \<longleftrightarrow> aging_rel (opc s) (aging_enable p) (apc s)"

text \<open>The workers that \<^verbatim>\<open>thread_pool_destroy\<close> has joined.\<close>

fun join_rel :: "owner_pc \<Rightarrow> worker_pc list \<Rightarrow> bool" where
  "join_rel (D_Join n) ws \<longleftrightarrow> n \<le> length ws \<and> (\<forall>j < n. ws ! j = W_Exit)"
| "join_rel D_Release ws \<longleftrightarrow> list_all (\<lambda>pc. pc = W_Exit) ws"
| "join_rel D_Done ws \<longleftrightarrow> False"
| "join_rel _ ws \<longleftrightarrow> True"

definition phase_inv :: "sys \<Rightarrow> thread_pool \<Rightarrow> addr lanes \<Rightarrow> bool" where
  "phase_inv s p ls \<longleftrightarrow>
     (destroying (opc s) \<longrightarrow> list_all (\<lambda>c. \<not> in_control c) (cpcs s)) \<and>
     (destroying (opc s) \<and> opc s \<noteq> D_Enter \<longrightarrow> shutdown p) \<and>
     (past_spin (opc s) \<longrightarrow> tally cflight (cpcs s) = 0) \<and>
     (past_drain (opc s) \<longrightarrow> concat ls = [] \<and> tally wcount (wpcs s) = 0) \<and>
     join_rel (opc s) (wpcs s)"

definition live_inv :: "sys \<Rightarrow> thread_pool \<Rightarrow> addr lanes \<Rightarrow> bool" where
  "live_inv s p ls \<longleftrightarrow>
     pq_inv (mem s) (pool_pq p) ls \<and> not_empty (pool_pq p) = CLive [] \<and>
     mem_inv s ls \<and> count_inv s p ls \<and> job_inv s ls \<and> req_inv s \<and> sync_inv s p \<and> aging_inv s p \<and>
     phase_inv s p ls"

definition gone_inv :: "sys \<Rightarrow> bool" where
  "gone_inv s \<longleftrightarrow>
     opc s = D_Done \<and> apc s = A_None \<and> list_all (\<lambda>pc. pc = W_Exit) (wpcs s) \<and> mem s = Map.empty \<and>
     tally cflight (cpcs s) = 0 \<and> list_all (\<lambda>c. \<not> in_control c) (cpcs s) \<and>
     mset (accepted s) = mset (executed s)"

definition pool_inv :: "sys \<Rightarrow> bool" where
  "pool_inv s \<longleftrightarrow> (case pool s of None \<Rightarrow> gone_inv s | Some p \<Rightarrow> \<exists>ls. live_inv s p ls)"

lemmas inv_defs = mem_inv_def count_inv_def job_inv_def req_inv_def sync_inv_def aging_inv_def phase_inv_def
lemmas go_defs = wgo_def cgo_def ogo_def ago_def

section \<open>Sums over the threads\<close>

lemma no_flight:
  assumes "tally cflight cs = 0"
  shows "tally chold cs = 0" and "tally ccount cs = 0" and "tally cnode cs = {#}"
proof -
  have "cflight c = 0 \<Longrightarrow> chold c = 0 \<and> ccount c = 0 \<and> cnode c = {#}" for c by (cases c) auto
  then show "tally chold cs = 0" "tally ccount cs = 0" "tally cnode cs = {#}"
    using total_zero_other [OF assms] by blast+
qed

lemma no_wcount:
  assumes "tally wcount ws = 0"
  shows "tally wnode ws = {#}" and "tally wpend ws = {#}"
proof -
  have "wcount c = 0 \<Longrightarrow> wnode c = {#} \<and> wpend c = {#}" for c by (cases c) auto
  then show "tally wnode ws = {#}" "tally wpend ws = {#}"
    using total_zero_other [OF assms] by blast+
qed

lemma ccount_le_chold: "tally ccount cs \<le> tally chold cs"
proof (induction cs)
  case (Cons c cs)
  have "ccount c \<le> chold c" by (cases c) auto
  with Cons show ?case by simp
qed simp

lemma wnode_pos: "i < length ws \<Longrightarrow> wcount (ws ! i) \<le> tally wcount ws"
  using tally_others(1) [of i ws wcount] by simp

lemma cflight_pos: "i < length cs \<Longrightarrow> cflight (cs ! i) \<le> tally cflight cs"
  using tally_others(1) [of i cs cflight] by simp

lemma cflight_bound: "tally cflight cs \<le> length cs"
proof (induction cs)
  case (Cons c cs)
  have "cflight c \<le> 1" by (cases c) auto
  with Cons show ?case by simp
qed simp

text \<open>Waking changes no weight.\<close>

lemma wake_weights [simp]:
  "wnode (wake_pop pc) = wnode pc" "wpend (wake_pop pc) = wpend pc" "wcount (wake_pop pc) = wcount pc"
  "wnode (wake_pause pc) = wnode pc" "wpend (wake_pause pc) = wpend pc" "wcount (wake_pause pc) = wcount pc"
  "wake_pop pc = W_Exit \<longleftrightarrow> pc = W_Exit" "wake_pause pc = W_Exit \<longleftrightarrow> pc = W_Exit"
  by (auto simp: wake_pop_def wake_pause_def)

lemma deliver_weights [simp]:
  "tally wnode (deliver k l ws) = tally wnode ws"
  "tally wpend (deliver k l ws) = tally wpend ws"
  "tally wcount (deliver k l ws) = tally wcount ws"
  "length (deliver k l ws) = length ws"
  by (cases "(k, l, ws)" rule: deliver.cases; simp add: tally_same tally_map)+

lemma deliver_nth_exit [simp]: "j < length ws \<Longrightarrow> deliver k l ws ! j = W_Exit \<longleftrightarrow> ws ! j = W_Exit"
  by (cases "(k, l, ws)" rule: deliver.cases) (auto simp: nth_list_update)

lemma deliver_exit [simp]:
  "list_all (\<lambda>pc. pc = W_Exit) (deliver k l ws) \<longleftrightarrow> list_all (\<lambda>pc. pc = W_Exit) ws"
  by (auto simp: list_all_length)

lemma wake_pause_weights [simp]:
  "tally wnode (map wake_pause ws) = tally wnode ws"
  "tally wpend (map wake_pause ws) = tally wpend ws"
  "tally wcount (map wake_pause ws) = tally wcount ws"
  by (simp_all add: tally_map)

section \<open>The counter of the tasks in the system\<close>

lemma count_inv_total:
  assumes "count_inv s p ls"
  shows "sint (total_task_in_system p) =
    int (length (concat ls) + tally wcount (wpcs s) + tally ccount (cpcs s))"
proof -
  have "length (concat ls) + tally wcount (wpcs s) + tally ccount (cpcs s) < 2 ^ 31"
    using assms ccount_le_chold [of "cpcs s"] unfolding count_inv_def by linarith
  then show ?thesis using assms sint_of_nat unfolding count_inv_def by metis
qed

section \<open>Heaps\<close>

lemma same_jobs_dom:
  assumes "same_jobs h h'"
  shows "dom h' = dom h"
proof (rule set_eqI)
  fix a
  show "a \<in> dom h' \<longleftrightarrow> a \<in> dom h" using same_jobs_cases [OF assms, of a] by auto
qed

lemma same_jobs_call: "same_jobs h h' \<Longrightarrow> a \<in> dom h \<Longrightarrow> call_at h' a = call_at h a"
  using same_jobs_cases [of h h' a] by (auto simp: call_at_def call_of_def job_def)

lemma same_jobs_node_ok:
  assumes "same_jobs h h'" and "\<And>a t. h a = Some t \<Longrightarrow> node_ok t" and "h' a = Some t"
  shows "node_ok t"
  using same_jobs_cases [OF assms(1), of a] assms(2,3) by (fastforce simp: node_ok_def job_def)

lemma same_nodes_priority: "same_nodes h h' \<Longrightarrow> prio_at h' a = prio_at h a"
proof -
  assume "same_nodes h h'"
  then have "map_option payload (h' a) = map_option payload (h a)" by (simp add: same_nodes_def)
  then show ?thesis by (cases "h a"; cases "h' a") (auto simp: prio_at_def dest!: payload_eqD)
qed

lemma image_call_cong:
  assumes "\<And>a. a \<in># M \<Longrightarrow> call_at h' a = call_at h a"
  shows "image_mset (call_at h') M = image_mset (call_at h) M"
  using assms by (rule image_mset_cong)

lemma mem_inv_dom:
  assumes "mem_inv s ls"
  shows "a \<in> set (concat ls) \<Longrightarrow> a \<in> dom (mem s)"
    and "a \<in># tally wnode (wpcs s) \<Longrightarrow> a \<in> dom (mem s)"
    and "a \<in># tally cnode (cpcs s) \<Longrightarrow> a \<in> dom (mem s)"
proof -
  have fin: "finite (dom (mem s))"
    and eq: "mset (concat ls) + tally wnode (wpcs s) + tally cnode (cpcs s) = mset_set (dom (mem s))"
    using assms by (simp_all add: mem_inv_def)
  have "a \<in># mset (concat ls) + tally wnode (wpcs s) + tally cnode (cpcs s) \<longleftrightarrow> a \<in> dom (mem s)"
    unfolding eq using fin by simp
  then show "a \<in> set (concat ls) \<Longrightarrow> a \<in> dom (mem s)"
    "a \<in># tally wnode (wpcs s) \<Longrightarrow> a \<in> dom (mem s)"
    "a \<in># tally cnode (cpcs s) \<Longrightarrow> a \<in> dom (mem s)"
    by auto
qed

lemma wpend_wnode: "tally wpend ws \<subseteq># tally wnode ws"
proof (induction ws)
  case (Cons w ws)
  have "wpend w \<subseteq># wnode w" by (cases w) auto
  with Cons show ?case by (simp add: subset_mset.add_mono)
qed simp

lemma wpend_dom: "mem_inv s ls \<Longrightarrow> a \<in># tally wpend (wpcs s) \<Longrightarrow> a \<in> dom (mem s)"
  using wpend_wnode mem_inv_dom(2) mset_subset_eqD by metis

text \<open>A client holds its node alone: it is neither queued nor held by a worker.\<close>

lemma owned_once:
  assumes "mem_inv s ls" and "a \<in># tally cnode (cpcs s)"
  shows "a \<notin> set (concat ls)" and "a \<notin># tally wnode (wpcs s)"
proof -
  have "count (mset (concat ls) + tally wnode (wpcs s) + tally cnode (cpcs s)) a \<le> 1"
    using assms(1) by (simp add: mem_inv_def count_mset_set')
  moreover have "1 \<le> count (tally cnode (cpcs s)) a" using assms(2) by (simp add: Suc_le_eq)
  ultimately have "count (mset (concat ls)) a = 0" "count (tally wnode (wpcs s)) a = 0"
    unfolding count_union by linarith+
  then show "a \<notin> set (concat ls)" "a \<notin># tally wnode (wpcs s)"
    by (simp_all add: count_eq_zero_iff)
qed

lemma worker_owned_once:
  assumes "mem_inv s ls" and "i < length (wpcs s)" and "wnode (wpcs s ! i) = {#a#}"
  shows "a \<notin> set (concat ls)" and "a \<notin># others wnode i (wpcs s)" and "a \<notin># tally cnode (cpcs s)"
    and "a \<in> dom (mem s)"
proof -
  have eq: "tally wnode (wpcs s) = {#a#} + others wnode i (wpcs s)"
    using tally_others(1) [OF assms(2), of wnode] assms(3) by simp
  have "count (mset (concat ls) + tally wnode (wpcs s) + tally cnode (cpcs s)) a \<le> 1"
    using assms(1) by (simp add: mem_inv_def count_mset_set')
  then have z: "count (mset (concat ls)) a = 0" "count (others wnode i (wpcs s)) a = 0"
    "count (tally cnode (cpcs s)) a = 0"
    unfolding eq by auto
  then show "a \<notin> set (concat ls)" by (simp add: count_eq_zero_iff)
  show "a \<notin># others wnode i (wpcs s)" "a \<notin># tally cnode (cpcs s)"
    using z by (simp_all add: count_eq_zero_iff)
  show "a \<in> dom (mem s)" using mem_inv_dom(2) [OF assms(1), of a] unfolding eq by simp
qed

text \<open>A queue operation: the nodes keep their jobs and the lanes their contents.\<close>

lemma mem_inv_heap:
  assumes inv: "mem_inv s ls" and jobs: "same_jobs (mem s) h"
    and frame: "\<forall>a. a \<notin> set (concat ls) \<longrightarrow> prio_at h a = prio_at (mem s) a"
    and lanes: "mset (concat ls') + tally wnode ws = mset (concat ls) + tally wnode (wpcs s)"
  shows "mem_inv (s\<lparr>mem := h, wpcs := ws\<rparr>) ls'"
proof -
  have "prio_at h a" if "a \<in># tally cnode (cpcs s)" for a
    using frame owned_once(1) [OF inv that] inv that by (simp add: mem_inv_def)
  moreover have "node_ok t" if "h a = Some t" for a t
    using same_jobs_node_ok [OF jobs _ that] inv by (simp add: mem_inv_def)
  ultimately show ?thesis using inv same_jobs_dom [OF jobs] lanes by (simp add: mem_inv_def)
qed

lemma job_inv_heap:
  assumes inv: "mem_inv s ls" and job: "job_inv s ls" and jobs: "same_jobs (mem s) h"
    and lanes: "mset (concat ls') + tally wpend ws = mset (concat ls) + tally wpend (wpcs s)"
  shows "job_inv (s\<lparr>mem := h, wpcs := ws\<rparr>) ls'"
proof -
  have "image_mset (call_at h) (mset (concat ls) + tally wpend (wpcs s)) =
      image_mset (call_at (mem s)) (mset (concat ls) + tally wpend (wpcs s))"
    using same_jobs_call [OF jobs] mem_inv_dom(1) [OF inv] wpend_dom [OF inv]
    by (intro image_call_cong) auto
  then show ?thesis using job lanes by (simp add: job_inv_def)
qed

section \<open>Moves of a worker\<close>

text \<open>A move that changes nothing but the program counter and no weight.\<close>

lemma phase_wgo:
  assumes "phase_inv s p ls" and "i < length (wpcs s)" and "wpcs s ! i \<noteq> W_Exit"
    and "wcount pc = wcount (wpcs s ! i)"
  shows "phase_inv (wgo i pc s) p ls"
proof -
  have "join_rel (opc s) (wpcs s) \<Longrightarrow> join_rel (opc s) ((wpcs s)[i := pc])"
    using assms(2,3) by (cases "opc s") (auto simp: list_all_length nth_list_update)
  with assms show ?thesis unfolding phase_inv_def wgo_def by (simp add: tally_same)
qed

lemma live_wgo:
  assumes inv: "live_inv s p ls" and i: "i < length (wpcs s)" "wpcs s ! i \<noteq> W_Exit"
    and pc: "wnode pc = wnode (wpcs s ! i)" "wpend pc = wpend (wpcs s ! i)" "wcount pc = wcount (wpcs s ! i)"
  shows "live_inv (wgo i pc s) p ls"
proof -
  have "phase_inv (wgo i pc s) p ls" using inv i pc phase_wgo by (simp add: live_inv_def)
  moreover have "mem_inv (wgo i pc s) ls" using inv i pc by (simp add: live_inv_def mem_inv_def wgo_def tally_same)
  moreover have "count_inv (wgo i pc s) p ls" using inv i pc by (simp add: live_inv_def count_inv_def wgo_def tally_same)
  moreover have "job_inv (wgo i pc s) ls" using inv i pc by (simp add: live_inv_def job_inv_def wgo_def tally_same)
  moreover have "req_inv (wgo i pc s)" using inv by (simp add: live_inv_def req_inv_def wgo_def)
  moreover have "sync_inv (wgo i pc s) p" using inv by (simp add: live_inv_def sync_inv_def wgo_def)
  moreover have "aging_inv (wgo i pc s) p" using inv by (simp add: live_inv_def aging_inv_def wgo_def)
  ultimately show ?thesis using inv by (simp add: live_inv_def wgo_def)
qed

lemma live_inv_irrelevant [simp]:
  "live_inv (s\<lparr>pool := x\<rparr>) p ls = live_inv s p ls"
  "live_inv (s\<lparr>id_count := c\<rparr>) p ls = live_inv s p ls"
  "live_inv s (p\<lparr>paused := b\<rparr>) ls = live_inv s p ls"
  "live_inv s (p\<lparr>monitor := (monitor p)\<lparr>running := b\<rparr>\<rparr>) ls = live_inv s p ls"
  by (simp_all add: live_inv_def inv_defs)

lemma live_inv_go_pool [simp]:
  "live_inv (wgo i w (s\<lparr>pool := x\<rparr>)) p ls = live_inv (wgo i w s) p ls"
  "live_inv (cgo i c (s\<lparr>pool := x\<rparr>)) p ls = live_inv (cgo i c s) p ls"
  "live_inv (ogo oc (s\<lparr>pool := x\<rparr>)) p ls = live_inv (ogo oc s) p ls"
  "live_inv (ago ac (s\<lparr>pool := x\<rparr>)) p ls = live_inv (ago ac s) p ls"
  by (simp_all add: live_inv_def inv_defs go_defs)

lemma live_inv_go_mem_pool [simp]:
  "live_inv (wgo i w (s\<lparr>mem := h, pool := x\<rparr>)) p ls = live_inv (wgo i w (s\<lparr>mem := h\<rparr>)) p ls"
  "live_inv (cgo i c (s\<lparr>mem := h, pool := x\<rparr>)) p ls = live_inv (cgo i c (s\<lparr>mem := h\<rparr>)) p ls"
  by (simp_all add: live_inv_def inv_defs go_defs)

lemma go_fields [simp]:
  "pool (wgo i w s) = pool s" "pool (cgo i c s) = pool s" "pool (ogo oc s) = pool s" "pool (ago ac s) = pool s"
  "wpcs (cgo i c s) = wpcs s" "wpcs (ogo oc s) = wpcs s" "wpcs (ago ac s) = wpcs s"
  "length (wpcs (wgo i w s)) = length (wpcs s)" "length (cpcs (cgo i c s)) = length (cpcs s)"
  "cpcs (wgo i w s) = cpcs s" "cpcs (ogo oc s) = cpcs s" "cpcs (ago ac s) = cpcs s"
  "opc (wgo i w s) = opc s" "opc (cgo i c s) = opc s" "opc (ago ac s) = opc s" "opc (ogo oc s) = oc"
  "apc (wgo i w s) = apc s" "apc (cgo i c s) = apc s" "apc (ogo oc s) = apc s" "apc (ago ac s) = ac"
  "mem (wgo i w s) = mem s" "mem (cgo i c s) = mem s" "mem (ogo oc s) = mem s" "mem (ago ac s) = mem s"
  by (simp_all add: go_defs)

lemma live_workers:
  "live_inv s p ls \<Longrightarrow> length ws = length (wpcs s) \<Longrightarrow> live_inv s (p\<lparr>workers := Some ws\<rparr>) ls"
  by (simp add: live_inv_def inv_defs)

text \<open>A step that does not fault and keeps the invariant.\<close>

definition good :: "sys option \<Rightarrow> bool" where
  "good r \<longleftrightarrow> (\<exists>s'. r = Some s' \<and> pool_inv s')"

lemma goodI: "pool s' = Some p \<Longrightarrow> live_inv s' p ls \<Longrightarrow> good (Some s')"
  by (auto simp: good_def pool_inv_def)

lemma set_busy_ok:
  assumes "live_inv s p ls" and "i < length (wpcs s)"
  shows "\<exists>ws. set_busy i b p = Some (p\<lparr>workers := Some ws\<rparr>) \<and> length ws = length (wpcs s)"
proof -
  obtain ws where "workers p = Some ws" "length ws = length (wpcs s)"
    using assms(1) by (auto simp: live_inv_def sync_inv_def)
  with assms(2) show ?thesis
    by (intro exI [of _ "ws[i := (ws ! i)\<lparr>busy := b\<rparr>]"]) (simp add: set_busy_def)
qed

lemma live_pop:
  assumes inv: "live_inv s p ls" and i: "i < length (wpcs s)" "wpcs s ! i = W_Pop"
    and pop: "lanes_pop ls = Some (a, ls')"
    and q: "pq_inv h q ls'" "same_nodes (mem s) h" "not_empty q = CLive []"
  shows "live_inv (wgo i (W_Busy a) (s\<lparr>mem := h\<rparr>)) (p\<lparr>pool_pq := q\<rparr>) ls'"
proof -
  have ms: "mset (concat ls) = add_mset a (mset (concat ls'))" using mset_lanes_pop [OF pop] .
  then have len: "length (concat ls) = Suc (length (concat ls'))" by (metis size_add_mset size_mset)
  let ?ws = "(wpcs s)[i := W_Busy a]"
  have w: "tally wnode ?ws = add_mset a (tally wnode (wpcs s))" "tally wpend ?ws = add_mset a (tally wpend (wpcs s))"
    "tally wcount ?ws = Suc (tally wcount (wpcs s))"
    using tally_others [OF i(1), of wnode] tally_others [OF i(1), of wpend] tally_others [OF i(1), of wcount]
    by (simp_all add: i(2))
  have "mem_inv (s\<lparr>mem := h, wpcs := ?ws\<rparr>) ls'"
    using inv same_nodes_jobs [OF q(2)] same_nodes_priority [OF q(2)] ms w
    by (intro mem_inv_heap [of s ls]) (simp_all add: live_inv_def)
  moreover have "job_inv (s\<lparr>mem := h, wpcs := ?ws\<rparr>) ls'"
    using inv same_nodes_jobs [OF q(2)] ms w
    by (intro job_inv_heap [of s ls]) (simp_all add: live_inv_def)
  moreover have "count_inv (s\<lparr>mem := h, wpcs := ?ws\<rparr>) (p\<lparr>pool_pq := q\<rparr>) ls'"
    using inv w len by (simp add: live_inv_def count_inv_def)
  moreover have "phase_inv (s\<lparr>mem := h, wpcs := ?ws\<rparr>) (p\<lparr>pool_pq := q\<rparr>) ls'"
  proof -
    have "join_rel (opc s) (wpcs s) \<Longrightarrow> join_rel (opc s) ?ws"
      using i by (cases "opc s") (auto simp: list_all_length nth_list_update)
    moreover have "concat ls \<noteq> []" using len by auto
    ultimately show ?thesis using inv by (auto simp: live_inv_def phase_inv_def)
  qed
  ultimately show ?thesis
    using inv q by (simp add: live_inv_def wgo_def req_inv_def sync_inv_def aging_inv_def)
qed

lemma live_run:
  assumes inv: "live_inv s p ls" and i: "i < length (wpcs s)" "wpcs s ! i = W_Run a" and t: "mem s a = Some t"
  shows "live_inv (wgo i (W_Free a) (s\<lparr>executed := executed s @ [call_of t]\<rparr>)) p ls"
proof -
  let ?ws = "(wpcs s)[i := W_Free a]"
  have w: "tally wnode ?ws = tally wnode (wpcs s)" "tally wcount ?ws = tally wcount (wpcs s)"
    "tally wpend (wpcs s) = add_mset a (tally wpend ?ws)"
    using tally_others [OF i(1), of wnode] tally_others [OF i(1), of wpend] tally_others [OF i(1), of wcount]
    by (simp_all add: i(2))
  have "phase_inv (wgo i (W_Free a) s) p ls"
    using inv i phase_wgo [of s p ls i "W_Free a"] by (simp add: live_inv_def)
  then have "phase_inv (wgo i (W_Free a) (s\<lparr>executed := executed s @ [call_of t]\<rparr>)) p ls"
    by (simp add: phase_inv_def wgo_def)
  moreover have "call_at (mem s) a = call_of t" using t by (simp add: call_at_def)
  ultimately show ?thesis
    using inv w by (simp add: live_inv_def wgo_def mem_inv_def count_inv_def job_inv_def req_inv_def
        sync_inv_def aging_inv_def)
qed

text \<open>Releasing a node that only its holder owns.\<close>

lemma mem_inv_free:
  assumes inv: "mem_inv s ls" and a: "a \<in> dom (mem s)"
    and ws: "add_mset a (tally wnode ws + tally cnode cs) = tally wnode (wpcs s) + tally cnode (cpcs s)"
    and cs: "set_mset (tally cnode cs) \<subseteq> set_mset (tally cnode (cpcs s))" "a \<notin># tally cnode cs"
  shows "mem_inv (s\<lparr>mem := (mem s)(a := None), wpcs := ws, cpcs := cs\<rparr>) ls"
proof -
  have fin: "finite (dom (mem s))" using inv by (simp add: mem_inv_def)
  have "mset (concat ls) + (tally wnode (wpcs s) + tally cnode (cpcs s)) = mset_set (dom (mem s))"
    using inv by (simp add: mem_inv_def add.assoc)
  then have "add_mset a (mset (concat ls) + (tally wnode ws + tally cnode cs)) = mset_set (dom (mem s))"
    unfolding ws [symmetric] by simp
  also have "mset_set (dom (mem s)) = add_mset a (mset_set (dom (mem s) - {a}))"
    using a fin by (metis mset_set.remove)
  finally have "mset (concat ls) + tally wnode ws + tally cnode cs = mset_set (dom (mem s) - {a})"
    by (simp add: add.assoc)
  moreover have "\<forall>b \<in># tally cnode cs. prio_at ((mem s)(a := None)) b"
  proof
    fix b assume b: "b \<in># tally cnode cs"
    then have "prio_at (mem s) b" using cs(1) inv by (auto simp: mem_inv_def)
    moreover have "b \<noteq> a" using b cs(2) by auto
    ultimately show "prio_at ((mem s)(a := None)) b" by (simp add: prio_at_def)
  qed
  ultimately show ?thesis using inv fin by (simp add: mem_inv_def)
qed

lemma job_inv_free:
  assumes job: "job_inv s ls" and a: "a \<notin> set (concat ls)" "a \<notin># tally wpend (wpcs s)"
    and ws: "tally wpend ws = tally wpend (wpcs s)"
  shows "job_inv (s\<lparr>mem := (mem s)(a := None), wpcs := ws, cpcs := cs\<rparr>) ls"
proof -
  have "image_mset (call_at ((mem s)(a := None))) (mset (concat ls) + tally wpend (wpcs s)) =
      image_mset (call_at (mem s)) (mset (concat ls) + tally wpend (wpcs s))"
    using a by (intro image_call_cong) (auto simp: call_at_def)
  then show ?thesis using job ws by (simp add: job_inv_def)
qed

lemma pq_inv_outside:
  assumes inv: "pq_inv h q ls" and same: "\<And>a. a \<in> set (concat ls) \<Longrightarrow> h' a = h a"
  shows "pq_inv h' q ls"
proof -
  have core: "pq_core h q ls" and len: "length ls = 3" using inv by (auto simp: pq_inv_def pq_core_def)
  have eq: "h' a = h a" if "p < 3" "a \<in> set (ls ! p)" for p a
    using same that len nth_mem [of p ls] by (fastforce simp: set_concat)
  have "lane (links_of h') x e (ls ! p) = lane (links_of h) x e (ls ! p)" if "p < 3" for p x e
    using eq [OF that] by (intro lane_frame) (simp add: links_of_def)
  moreover have "list_all (lane_prio_ok h' p) (ls ! p) = list_all (lane_prio_ok h p) (ls ! p)" if "p < 3" for p
    using eq [OF that] by (auto simp: list_all_iff lane_prio_ok_def)
  ultimately have "pq_core h' q ls" using core by (simp add: pq_core_def)
  then show ?thesis using inv by (simp add: pq_inv_def)
qed

lemma pq_inv_free: "pq_inv h q ls \<Longrightarrow> a \<notin> set (concat ls) \<Longrightarrow> pq_inv (h(a := x)) q ls"
  by (erule pq_inv_outside) auto

lemma live_free:
  assumes inv: "live_inv s p ls" and i: "i < length (wpcs s)" "wpcs s ! i = W_Free a"
  shows "mem s a \<noteq> None" and "live_inv (wgo i W_Idle (s\<lparr>mem := (mem s)(a := None)\<rparr>)) p ls"
proof -
  have mem: "mem_inv s ls" using inv by (simp add: live_inv_def)
  have "wnode (wpcs s ! i) = {#a#}" using i by simp
  note a = worker_owned_once [OF mem i(1) this]
  show "mem s a \<noteq> None" using a(4) by auto
  let ?ws = "(wpcs s)[i := W_Idle]"
  have w: "tally wnode (wpcs s) = add_mset a (tally wnode ?ws)" "tally wcount ?ws = tally wcount (wpcs s)"
    "tally wpend ?ws = tally wpend (wpcs s)"
    and wo: "tally wpend (wpcs s) = others wpend i (wpcs s)"
    using tally_others [OF i(1), of wnode] tally_others [OF i(1), of wpend] tally_others [OF i(1), of wcount]
    by (simp_all add: i(2))
  have "tally wpend (wpcs s) \<subseteq># tally wnode ?ws"
    using wpend_wnode [of ?ws] w by simp
  moreover have "a \<notin># tally wnode ?ws" using a(2) tally_others(2) [OF i(1), of wnode] by simp
  ultimately have "a \<notin># tally wpend (wpcs s)" using mset_subset_eqD by metis
  with inv a w have "job_inv (s\<lparr>mem := (mem s)(a := None), wpcs := ?ws, cpcs := cpcs s\<rparr>) ls"
    by (intro job_inv_free) (simp_all add: live_inv_def)
  moreover have "mem_inv (s\<lparr>mem := (mem s)(a := None), wpcs := ?ws, cpcs := cpcs s\<rparr>) ls"
    using mem a w by (intro mem_inv_free) simp_all
  moreover have "pq_inv ((mem s)(a := None)) (pool_pq p) ls"
    using inv a(1) by (intro pq_inv_free) (simp_all add: live_inv_def)
  moreover have "phase_inv (wgo i W_Idle s) p ls"
    using inv i by (intro phase_wgo) (simp_all add: live_inv_def)
  ultimately show "live_inv (wgo i W_Idle (s\<lparr>mem := (mem s)(a := None)\<rparr>)) p ls"
    using inv w by (simp add: live_inv_def wgo_def count_inv_def req_inv_def sync_inv_def aging_inv_def
        phase_inv_def mem_inv_def job_inv_def)
qed

lemma live_dec:
  assumes inv: "live_inv s p ls" and i: "i < length (wpcs s)" "wpcs s ! i = W_Dec"
    and pc: "pc = W_Signal \<or> pc = W_Loop"
  shows "0 < sint (total_task_in_system p)"
    and "live_inv (wgo i pc s) (p\<lparr>total_task_in_system := total_task_in_system p - 1\<rparr>) ls"
proof -
  let ?ws = "(wpcs s)[i := pc]"
  have w: "tally wnode ?ws = tally wnode (wpcs s)" "tally wcount (wpcs s) = Suc (tally wcount ?ws)"
    "tally wpend ?ws = tally wpend (wpcs s)"
    using tally_others [OF i(1), of wnode] tally_others [OF i(1), of wpend] tally_others [OF i(1), of wcount] pc
    by (auto simp: i(2))
  show "0 < sint (total_task_in_system p)"
    using count_inv_total [of s p ls] inv w by (simp add: live_inv_def)
  have "\<not> past_drain (opc s)" using inv w by (auto simp: live_inv_def phase_inv_def)
  moreover have "join_rel (opc s) (wpcs s) \<Longrightarrow> join_rel (opc s) ?ws"
    using i by (cases "opc s") (auto simp: list_all_length nth_list_update)
  ultimately have "phase_inv (wgo i pc s) (p\<lparr>total_task_in_system := total_task_in_system p - 1\<rparr>) ls"
    using inv by (simp add: live_inv_def phase_inv_def wgo_def)
  then show "live_inv (wgo i pc s) (p\<lparr>total_task_in_system := total_task_in_system p - 1\<rparr>) ls"
    using inv w by (simp add: live_inv_def wgo_def mem_inv_def count_inv_def job_inv_def req_inv_def
        sync_inv_def aging_inv_def)
qed

text \<open>Waking a thread that waits for the pool to drain.\<close>

lemma live_cgo_same:
  assumes inv: "live_inv s p ls" and i: "i < length (cpcs s)"
    and pc: "cnode pc = cnode (cpcs s ! i)" "ccount pc = ccount (cpcs s ! i)" "chold pc = chold (cpcs s ! i)"
      "cflight pc = cflight (cpcs s ! i)" "req_ok pc"
    and ctl: "in_control pc \<Longrightarrow> destroying (opc s) \<Longrightarrow> in_control (cpcs s ! i)"
  shows "live_inv (cgo i pc s) p ls"
proof -
  have "list_all (\<lambda>c. \<not> in_control c) ((cpcs s)[i := pc])"
    if "list_all (\<lambda>c. \<not> in_control c) (cpcs s)" "destroying (opc s)"
    using that ctl i by (auto simp: list_all_length nth_list_update)
  moreover have "list_all req_ok ((cpcs s)[i := pc])" if "list_all req_ok (cpcs s)"
    using that pc(5) i by (auto simp: list_all_length nth_list_update)
  ultimately show ?thesis
    using inv i pc by (simp add: live_inv_def cgo_def mem_inv_def count_inv_def job_inv_def req_inv_def
        sync_inv_def aging_inv_def phase_inv_def tally_same)
qed

lemma live_wake_owner:
  assumes inv: "live_inv s p ls" and pc: "opc s = D_DrainWait"
  shows "live_inv (ogo D_Drain s) p ls"
  using inv pc by (simp add: live_inv_def inv_defs ogo_def destroying_def past_spin_def past_drain_def)

lemma live_signal_drain:
  assumes "live_inv s p ls"
  shows "live_inv (signal_drain k s) p ls"
proof (cases "drain_waiter s k \<and> k < length (cpcs s)")
  case True
  then have "live_inv (cgo k T_Drain s) p ls"
    using assms by (intro live_cgo_same) (auto simp: drain_waiter_def in_control_def)
  with True show ?thesis by (simp add: signal_drain_def cgo_def)
next
  case False
  then show ?thesis
    using assms live_wake_owner [OF assms] by (auto simp: signal_drain_def drain_waiter_def ogo_def split: if_splits)
qed

lemma signal_drain_fields [simp]:
  "wpcs (signal_drain k s) = wpcs s" "pool (signal_drain k s) = pool s"
  by (simp_all add: signal_drain_def)

lemma set_queue_quiet:
  "not_empty q = CLive [] \<Longrightarrow> set_queue k p h q s = s\<lparr>mem := h, pool := Some (p\<lparr>pool_pq := q\<rparr>)\<rparr>"
  by (cases s) (simp add: set_queue_def wakes_def)

lemma pool_pq_same: "p\<lparr>pool_pq := pool_pq p\<rparr> = p" "s\<lparr>mem := mem s, pool := x\<rparr> = s\<lparr>pool := x\<rparr>" for s :: sys
  by simp_all

section \<open>Every step of a worker\<close>

lemma worker_pop_good:
  assumes inv: "live_inv s p ls" and p: "pool s = Some p" and i: "i < length (wpcs s)" "wpcs s ! i = W_Pop"
  shows "good (worker_step e i s)"
proof (cases "lanes_pop ls")
  case None
  have q: "pq_inv (mem s) (pool_pq p) ls" "not_empty (pool_pq p) = CLive []" using inv by (simp_all add: live_inv_def)
  have "concat ls = []" using None by (simp add: lanes_pop_None)
  from pq_pop_until_shutdown_empty [OF q(1) this]
  have "worker_step e i s = Some (wgo i (if shutdown p then W_Exit else W_PopWait) (s\<lparr>pool := Some p\<rparr>))"
    using p i q(2) by (simp add: worker_step_def shutdown_requested_def set_queue_quiet)
  moreover have "live_inv (wgo i (if shutdown p then W_Exit else W_PopWait) s) p ls"
    using inv i by (intro live_wgo) auto
  ultimately show ?thesis using p by (auto intro!: goodI [of _ p ls])
next
  case (Some r)
  then obtain a ls' where pop: "lanes_pop ls = Some (a, ls')" by (cases r) auto
  have q: "pq_inv (mem s) (pool_pq p) ls" "not_empty (pool_pq p) = CLive []" using inv by (simp_all add: live_inv_def)
  obtain h pq' where r: "pq_pop_until_shutdown (mem s) (Some (pool_pq p)) (Some (shutdown p)) = Some (PopTask a, h, Some pq')"
    "pq_inv h pq' ls'" "same_nodes (mem s) h" "not_empty pq' = CLive []"
    using pq_pop_until_shutdown_task [OF q(1) pop, of "Some (shutdown p)"] q(2) by auto
  have "worker_step e i s = Some (wgo i (W_Busy a) (s\<lparr>mem := h, pool := Some (p\<lparr>pool_pq := pq'\<rparr>)\<rparr>))"
    using p i r by (simp add: worker_step_def set_queue_quiet)
  with live_pop [OF inv i pop r(2-)] show ?thesis
    by (auto intro!: goodI [of _ "p\<lparr>pool_pq := pq'\<rparr>" ls'] split: if_splits)
qed

lemma worker_good:
  assumes inv: "live_inv s p ls" and p: "pool s = Some p" and ready: "worker_ready s i"
  shows "good (worker_step e i s)"
proof -
  have i: "i < length (wpcs s)" using ready by (simp add: worker_ready_def)
  have sync: "sync_inv s p" using inv by (simp add: live_inv_def)
  show ?thesis
  proof (cases "wpcs s ! i")
    case W_Pop
    with inv p i show ?thesis by (rule worker_pop_good)
  next
    case (W_Busy a)
    obtain ws where ws: "set_busy i True p = Some (p\<lparr>workers := Some ws\<rparr>)" "length ws = length (wpcs s)"
      using set_busy_ok [OF inv i] by blast
    have "live_inv (wgo i (W_Run a) s) p ls" using inv i W_Busy by (intro live_wgo) auto
    from live_workers [OF this, of ws] ws show ?thesis
      by (auto simp: worker_step_def W_Busy p intro!: goodI)
  next
    case W_Idle
    obtain ws where ws: "set_busy i False p = Some (p\<lparr>workers := Some ws\<rparr>)" "length ws = length (wpcs s)"
      using set_busy_ok [OF inv i] by blast
    have "live_inv (wgo i W_Dec s) p ls" using inv i W_Idle by (intro live_wgo) auto
    from live_workers [OF this, of ws] ws show ?thesis
      by (auto simp: worker_step_def W_Idle p intro!: goodI)
  next
    case (W_Run a)
    have "a \<in> dom (mem s)"
      using worker_owned_once(4) [of s ls i a] inv i W_Run by (simp add: live_inv_def)
    then obtain t where t: "mem s a = Some t" by auto
    then have "func t \<noteq> None" using inv by (auto simp: live_inv_def mem_inv_def node_ok_def)
    with t p live_run [OF inv i W_Run t] show ?thesis
      by (auto simp: worker_step_def W_Run intro!: goodI)
  next
    case (W_Free a)
    with live_free [OF inv i W_Free] p show ?thesis
      by (auto simp: worker_step_def task_destroy_def intro!: goodI)
  next
    case W_Dec
    with live_dec(1) [OF inv i W_Dec, of W_Loop] live_dec(2) [OF inv i W_Dec, of W_Loop]
      live_dec(2) [OF inv i W_Dec, of W_Signal] p show ?thesis
      by (auto simp: worker_step_def Let_def intro!: goodI)
  next
    case W_Signal
    have "live_inv (wgo i W_Loop (signal_drain (e_pick e) s)) p ls"
      using live_signal_drain [OF inv] i W_Signal by (intro live_wgo) auto
    moreover obtain l where "drain_cond p = CLive l" using sync by (cases "drain_cond p") (auto simp: sync_inv_def)
    ultimately show ?thesis using sync p
      by (auto simp: worker_step_def W_Signal sync_inv_def intro!: goodI)
  next
    case W_Loop
    have "live_inv (wgo i pc s) p ls" if "pc = W_PauseCheck \<or> pc = W_Pop" for pc
      using inv i W_Loop that by (intro live_wgo) auto
    then show ?thesis using p by (auto simp: worker_step_def W_Loop intro!: goodI)
  next
    case W_PauseCheck
    have "pause_mutex p = MFree"
      using ready W_PauseCheck sync p by (auto simp: worker_ready_def pause_free_def sync_inv_def)
    moreover have "live_inv (wgo i pc s) p ls" if "pc = W_PauseWait \<or> pc = W_Pop" for pc
      using inv i W_PauseCheck that by (intro live_wgo) auto
    ultimately show ?thesis using p by (auto simp: worker_step_def W_PauseCheck intro!: goodI)
  qed (use ready in \<open>simp_all add: worker_ready_def\<close>)
qed

section \<open>Moves of a client\<close>

text \<open>
  A move of client \<open>i\<close> of \<^verbatim>\<open>thread_pool_submit\<close> that allocates or frees nothing and leaves the queue
  alone; \<open>dt\<close> and \<open>df\<close> are the changes of the two counters.
\<close>

lemma submit_phase:
  assumes inv: "live_inv s p ls" and i: "i < length (cpcs s)" and ctl: "\<not> in_control pc"
    and flight: "past_spin (opc s) \<Longrightarrow> cflight pc = 0" and p': "shutdown p' = shutdown p"
  shows "phase_inv (cgo i pc s) p' ls"
proof -
  have ph: "phase_inv s p ls" using inv by (simp add: live_inv_def)
  have "list_all (\<lambda>c. \<not> in_control c) ((cpcs s)[i := pc])" if "list_all (\<lambda>c. \<not> in_control c) (cpcs s)"
    using that ctl i by (auto simp: list_all_length nth_list_update)
  moreover have "tally cflight ((cpcs s)[i := pc]) = 0" if "past_spin (opc s)"
    using that ph flight [OF that] tally_others [OF i, of cflight] by (simp add: phase_inv_def)
  ultimately show ?thesis using ph p' by (simp add: phase_inv_def cgo_def)
qed

lemma req_cgo:
  assumes "req_inv s" and "req_ok pc" and "i < length (cpcs s)"
  shows "req_inv (cgo i pc s)"
  using assms by (auto simp: req_inv_def cgo_def list_all_length nth_list_update)

text \<open>In flight means not past the spin.\<close>

lemma flight_not_past:
  assumes "live_inv s p ls" and "i < length (cpcs s)" and "cflight (cpcs s ! i) = 1"
  shows "\<not> past_spin (opc s)" and "\<not> past_drain (opc s)"
proof -
  show spin: "\<not> past_spin (opc s)"
    using assms cflight_pos [OF assms(2)] by (auto simp: live_inv_def phase_inv_def)
  have "past_drain pc \<Longrightarrow> past_spin pc" for pc
    by (cases pc) (simp_all add: past_drain_def past_spin_def destroying_def)
  with spin show "\<not> past_drain (opc s)" by blast
qed

lemma live_submit_plain:
  assumes inv: "live_inv s p ls" and i: "i < length (cpcs s)"
    and pc: "cnode pc = cnode (cpcs s ! i)" "chold pc = chold (cpcs s ! i)" "req_ok pc" "\<not> in_control pc"
    and flight: "past_spin (opc s) \<Longrightarrow> cflight pc = 0"
    and p': "p' = p\<lparr>total_task_in_system := t, in_flight_submits := f\<rparr>"
    and t: "t = total_task_in_system p + of_nat (ccount pc) - of_nat (ccount (cpcs s ! i))"
    and f: "f = in_flight_submits p + of_nat (cflight pc) - of_nat (cflight (cpcs s ! i))"
  shows "live_inv (cgo i pc s) p' ls"
proof -
  note o = tally_others [OF i]
  have "phase_inv (cgo i pc s) p' ls"
    using p' by (intro submit_phase [OF inv i pc(4) flight]) simp_all
  moreover have "req_inv (cgo i pc s)" using inv pc i by (intro req_cgo) (simp_all add: live_inv_def)
  moreover have "mem_inv (cgo i pc s) ls" using inv i pc by (simp add: live_inv_def mem_inv_def cgo_def tally_same)
  moreover have "count_inv (cgo i pc s) p' ls"
    using inv i pc(2) unfolding live_inv_def count_inv_def cgo_def
    by (simp add: tally_same p' t f o [of ccount] o [of cflight])
  ultimately show ?thesis
    using inv by (simp add: live_inv_def p' job_inv_def sync_inv_def aging_inv_def)
      (simp add: cgo_def)
qed

lemma live_inv_cong:
  assumes "mem s' = mem s" "wpcs s' = wpcs s" "cpcs s' = cpcs s" "opc s' = opc s" "apc s' = apc s"
    "accepted s' = accepted s" "executed s' = executed s"
  shows "live_inv s' p ls = live_inv s p ls"
  using assms by (simp add: live_inv_def inv_defs)

lemma live_deliver: "live_inv s p ls \<Longrightarrow> live_inv (s\<lparr>wpcs := deliver k l (wpcs s)\<rparr>) p ls"
proof -
  assume inv: "live_inv s p ls"
  have "join_rel (opc s) (wpcs s) \<Longrightarrow> join_rel (opc s) (deliver k l (wpcs s))" by (cases "opc s") auto
  with inv show ?thesis by (simp add: live_inv_def inv_defs)
qed

lemma live_set_queue:
  assumes "live_inv (s\<lparr>mem := h\<rparr>) p' ls"
  shows "live_inv (set_queue k p h q s) p' ls"
proof -
  have "live_inv (set_queue k p h q s) p' ls =
      live_inv ((s\<lparr>mem := h\<rparr>)\<lparr>wpcs := deliver k (wakes (not_empty q)) (wpcs (s\<lparr>mem := h\<rparr>))\<rparr>) p' ls"
    by (rule live_inv_cong) (simp_all add: set_queue_def)
  with live_deliver [OF assms] show ?thesis by simp
qed

text \<open>A client that owns a node: its address is in no lane and in no other hand.\<close>

lemma client_owned_once:
  assumes "mem_inv s ls" and "i < length (cpcs s)" and "cnode (cpcs s ! i) = {#a#}"
  shows "a \<in># tally cnode (cpcs s)" and "a \<notin># others cnode i (cpcs s)"
    and "\<exists>t. mem s a = Some t \<and> node_ok t \<and> valid_priority (priority t)"
proof -
  have eq: "tally cnode (cpcs s) = {#a#} + others cnode i (cpcs s)"
    using tally_others(1) [OF assms(2), of cnode] assms(3) by simp
  then show a: "a \<in># tally cnode (cpcs s)" by simp
  have "count (mset (concat ls) + tally wnode (wpcs s) + tally cnode (cpcs s)) a \<le> 1"
    using assms(1) by (simp add: mem_inv_def count_mset_set')
  then have "count (others cnode i (cpcs s)) a = 0" unfolding eq by auto
  then show "a \<notin># others cnode i (cpcs s)" by (simp add: count_eq_zero_iff)
  have "prio_at (mem s) a" using a assms(1) by (simp add: mem_inv_def)
  then show "\<exists>t. mem s a = Some t \<and> node_ok t \<and> valid_priority (priority t)"
    using assms(1) by (auto simp: mem_inv_def prio_at_def split: option.splits)
qed

lemma live_create:
  assumes inv: "live_inv s p ls" and p: "pool s = Some p" and i: "i < length (cpcs s)" "cpcs s ! i = S_Create r"
    and a: "mem s a = None" "task_load s + 1 < 2 ^ 31"
    and t: "node_ok t" "valid_priority (priority t)"
  shows "live_inv (cgo i (S_Count a n) (s\<lparr>mem := (mem s)(a \<mapsto> t)\<rparr>)) p ls"
proof -
  note o = tally_others [OF i(1)]
  have mem: "mem_inv s ls" and job: "job_inv s ls" and cnt: "count_inv s p ls" and q: "pq_inv (mem s) (pool_pq p) ls"
    using inv by (simp_all add: live_inv_def)
  have out: "a \<notin> set (concat ls)" "a \<notin># tally wpend (wpcs s)" "a \<notin># tally cnode (cpcs s)"
    using mem_inv_dom(1,3) [OF mem, of a] wpend_dom [OF mem, of a] a(1) by auto
  have "\<forall>b \<in># tally cnode (cpcs s). prio_at (mem s) b" using mem by (simp add: mem_inv_def)
  then have prio: "prio_at ((mem s)(a \<mapsto> t)) b" if "b \<in># add_mset a (tally cnode (cpcs s))" for b
    using that t(2) by (auto simp: prio_at_def)
  have c: "tally cnode ((cpcs s)[i := S_Count a n]) = add_mset a (tally cnode (cpcs s))"
    "tally ccount ((cpcs s)[i := S_Count a n]) = tally ccount (cpcs s)"
    "tally chold ((cpcs s)[i := S_Count a n]) = Suc (tally chold (cpcs s))"
    "tally cflight ((cpcs s)[i := S_Count a n]) = tally cflight (cpcs s)"
    using o [of cnode] o [of ccount] o [of chold] o [of cflight] by (simp_all add: i(2))
  have "mem_inv (cgo i (S_Count a n) (s\<lparr>mem := (mem s)(a \<mapsto> t)\<rparr>)) ls"
    using mem c(1) prio t(1) a(1) by (auto simp: mem_inv_def cgo_def domIff)
  moreover have "job_inv (cgo i (S_Count a n) (s\<lparr>mem := (mem s)(a \<mapsto> t)\<rparr>)) ls"
  proof -
    have "image_mset (call_at ((mem s)(a \<mapsto> t))) (mset (concat ls) + tally wpend (wpcs s)) =
        image_mset (call_at (mem s)) (mset (concat ls) + tally wpend (wpcs s))"
      using out by (intro image_call_cong) (auto simp: call_at_def)
    then show ?thesis using job by (simp add: job_inv_def cgo_def)
  qed
  moreover have "count_inv (cgo i (S_Count a n) (s\<lparr>mem := (mem s)(a \<mapsto> t)\<rparr>)) p ls"
  proof -
    have len: "length (concat ls) < 2 ^ 31" using cnt by (simp add: count_inv_def)
    have "pq_count (pool_pq p) = of_nat (length (concat ls))" using q by (simp add: pq_inv_def pq_core_def)
    then have "unat (pq_count (pool_pq p)) = length (concat ls)"
      using len by (simp add: unat_of_nat)
    then have "length (concat ls) + tally wcount (wpcs s) + tally chold (cpcs s) + 1 < 2 ^ 31"
      using a(2) p by (simp add: task_load_def)
    then show ?thesis using cnt c by (simp add: count_inv_def cgo_def)
  qed
  moreover have "phase_inv (cgo i (S_Count a n) s) p ls"
    using flight_not_past(1) [OF inv i(1)] i by (intro submit_phase [OF inv i(1)]) (simp_all add: in_control_def)
  moreover have "req_inv (cgo i (S_Count a n) s)" using inv i by (intro req_cgo) (simp_all add: live_inv_def)
  ultimately show ?thesis
    using inv pq_inv_free [OF q out(1)] by (simp add: live_inv_def sync_inv_def aging_inv_def)
      (simp add: cgo_def phase_inv_def req_inv_def)
qed

lemma live_node_update:
  assumes inv: "live_inv s p ls" and t: "mem s a = Some t" and a: "a \<in># tally cnode (cpcs s)"
    and t': "call_of t' = call_of t" "priority t' = priority t" "node_ok t'"
  shows "live_inv (s\<lparr>mem := (mem s)(a \<mapsto> t')\<rparr>) p ls"
proof -
  have mem: "mem_inv s ls" using inv by (simp add: live_inv_def)
  have "dom ((mem s)(a \<mapsto> t')) = dom (mem s)" using t by auto
  moreover have "prio_at ((mem s)(a \<mapsto> t')) b = prio_at (mem s) b" for b using t t'(2) by (simp add: prio_at_def)
  ultimately have "mem_inv (s\<lparr>mem := (mem s)(a \<mapsto> t')\<rparr>) ls"
    using mem t'(3) by (simp add: mem_inv_def)
  moreover have "call_at ((mem s)(a \<mapsto> t')) = call_at (mem s)"
    using t t'(1) by (auto simp: call_at_def)
  then have "job_inv (s\<lparr>mem := (mem s)(a \<mapsto> t')\<rparr>) ls" using inv by (simp add: live_inv_def job_inv_def)
  moreover have "pq_inv ((mem s)(a \<mapsto> t')) (pool_pq p) ls"
    using inv owned_once(1) [OF mem a] by (intro pq_inv_free) (simp_all add: live_inv_def)
  ultimately show ?thesis
    using inv by (simp add: live_inv_def count_inv_def req_inv_def sync_inv_def aging_inv_def phase_inv_def)
qed

lemma live_push:
  assumes inv: "live_inv s p ls" and i: "i < length (cpcs s)" "cpcs s ! i = S_Push a n"
    and t: "mem s a = Some t" "priority t = int pr" "pr < 3"
    and q: "pq_inv h q (lanes_push pr a ls)" "same_nodes (mem s) h" "not_empty q = CLive []"
  shows "live_inv (cgo i (S_Leave (Accepted n)) (s\<lparr>mem := h, accepted := accepted s @ [call_of t]\<rparr>))
    (p\<lparr>pool_pq := q\<rparr>) (lanes_push pr a ls)"
proof -
  note o = tally_others [OF i(1)]
  let ?pc = "S_Leave (Accepted n)" let ?s = "cgo i ?pc (s\<lparr>mem := h, accepted := accepted s @ [call_of t]\<rparr>)"
  let ?ls = "lanes_push pr a ls"
  have mem: "mem_inv s ls" and job: "job_inv s ls" and cnt: "count_inv s p ls"
    using inv by (simp_all add: live_inv_def)
  have "length ls = 3" using inv pq_inv_length [of "mem s" "pool_pq p" ls] by (simp add: live_inv_def)
  then have ms: "mset (concat ?ls) = add_mset a (mset (concat ls))" using t(3) by (intro mset_lanes_push) simp
  then have len: "length (concat ?ls) = Suc (length (concat ls))" by (metis size_add_mset size_mset)
  have c: "tally cnode (cpcs s) = add_mset a (tally cnode ((cpcs s)[i := ?pc]))"
    "tally ccount (cpcs s) = Suc (tally ccount ((cpcs s)[i := ?pc]))"
    "tally chold (cpcs s) = Suc (tally chold ((cpcs s)[i := ?pc]))"
    "tally cflight ((cpcs s)[i := ?pc]) = tally cflight (cpcs s)"
    using o [of cnode] o [of ccount] o [of chold] o [of cflight] by (simp_all add: i(2))
  note jobs = same_nodes_jobs [OF q(2)]
  have "mem_inv (s\<lparr>mem := h, wpcs := wpcs s\<rparr>) ls"
    using mem jobs same_nodes_priority [OF q(2)] by (intro mem_inv_heap [of s ls]) simp_all
  then have mem': "mem_inv ?s ?ls" using ms c(1) by (simp add: mem_inv_def cgo_def)
  have "job_inv (s\<lparr>mem := h, wpcs := wpcs s\<rparr>) ls"
    using mem job jobs by (intro job_inv_heap [of s ls]) simp_all
  moreover have "call_at h a = call_of t"
    using same_jobs_call [OF jobs, of a] t(1) by (auto simp: call_at_def)
  ultimately have job': "job_inv ?s ?ls" using ms by (simp add: job_inv_def cgo_def)
  have cnt': "count_inv ?s (p\<lparr>pool_pq := q\<rparr>) ?ls" using cnt c len by (simp add: count_inv_def cgo_def)
  have "\<not> past_spin (opc s)" "\<not> past_drain (opc s)" using flight_not_past [OF inv i(1)] i(2) by simp_all
  then have "phase_inv ?s (p\<lparr>pool_pq := q\<rparr>) ?ls"
    using submit_phase [OF inv i(1), of ?pc p] by (simp add: in_control_def phase_inv_def cgo_def)
  moreover have "req_inv (cgo i ?pc s)" using inv i by (intro req_cgo) (simp_all add: live_inv_def)
  ultimately show ?thesis
    using inv mem' job' cnt' q by (simp add: live_inv_def sync_inv_def aging_inv_def req_inv_def cgo_def)
qed

lemma live_client_free:
  assumes inv: "live_inv s p ls" and i: "i < length (cpcs s)" "cpcs s ! i = S_RollFree a"
  shows "live_inv (cgo i (S_Leave r) (s\<lparr>mem := (mem s)(a := None)\<rparr>)) p ls"
proof -
  note o = tally_others [OF i(1)]
  let ?cs = "(cpcs s)[i := S_Leave r]"
  have mem: "mem_inv s ls" and job: "job_inv s ls" using inv by (simp_all add: live_inv_def)
  have cn: "cnode (cpcs s ! i) = {#a#}" using i by simp
  note a = client_owned_once [OF mem i(1) cn]
  have out: "a \<notin> set (concat ls)" "a \<notin># tally wnode (wpcs s)" using owned_once [OF mem a(1)] by auto
  then have pend: "a \<notin># tally wpend (wpcs s)" using wpend_wnode mset_subset_eqD by metis
  have c: "tally cnode (cpcs s) = add_mset a (tally cnode ?cs)" "tally cnode ?cs = others cnode i (cpcs s)"
    "tally ccount ?cs = tally ccount (cpcs s)" "tally chold (cpcs s) = Suc (tally chold ?cs)"
    "tally cflight ?cs = tally cflight (cpcs s)"
    using o [of cnode] o [of ccount] o [of chold] o [of cflight] by (simp_all add: i(2))
  have "mem_inv (s\<lparr>mem := (mem s)(a := None), wpcs := wpcs s, cpcs := ?cs\<rparr>) ls"
    using mem a c by (intro mem_inv_free) auto
  moreover have "job_inv (s\<lparr>mem := (mem s)(a := None), wpcs := wpcs s, cpcs := ?cs\<rparr>) ls"
    using job out(1) pend by (intro job_inv_free) simp_all
  moreover have "count_inv (cgo i (S_Leave r) (s\<lparr>mem := (mem s)(a := None)\<rparr>)) p ls"
    using inv c by (simp add: live_inv_def count_inv_def cgo_def)
  moreover have "phase_inv (cgo i (S_Leave r) s) p ls"
    using flight_not_past(1) [OF inv i(1)] i by (intro submit_phase [OF inv i(1)]) (simp_all add: in_control_def)
  moreover have "req_inv (cgo i (S_Leave r) s)" using inv i by (intro req_cgo) (simp_all add: live_inv_def)
  moreover have "pq_inv ((mem s)(a := None)) (pool_pq p) ls"
    using inv out(1) by (intro pq_inv_free) (simp_all add: live_inv_def)
  ultimately show ?thesis
    using inv by (simp add: live_inv_def sync_inv_def aging_inv_def mem_inv_def job_inv_def phase_inv_def
        req_inv_def cgo_def)
qed

section \<open>Every step of a submitting client\<close>

lemma submit_push_good:
  assumes inv: "live_inv s p ls" and p: "pool s = Some p" and i: "i < length (cpcs s)" "cpcs s ! i = S_Push a n"
  shows "good (submit_step e i s)"
proof -
  have q: "pq_inv (mem s) (pool_pq p) ls" "not_empty (pool_pq p) = CLive []" and mem: "mem_inv s ls"
    using inv by (simp_all add: live_inv_def)
  have cn: "cnode (cpcs s ! i) = {#a#}" using i by simp
  note a = client_owned_once [OF mem i(1) cn]
  from a(3) obtain t where t: "mem s a = Some t" "valid_priority (priority t)" by blast
  then obtain pr where pr: "priority t = int pr" "pr < 3"
    by (auto simp: valid_priority_def priority_defs intro: that [of "nat (priority t)"])
  show ?thesis
  proof (cases "pq_full (pool_pq p)")
    case True
    have "live_inv (cgo i (S_RollCount a) s) p ls"
      using inv i flight_not_past(1) [OF inv i(1)]
      by (intro live_submit_plain) (auto simp: in_control_def)
    with pq_try_push_full [OF q(1) True] p t i q(2) show ?thesis
      by (auto simp: submit_step_def set_queue_quiet intro!: goodI)
  next
    case False
    obtain h q' where r: "pq_try_push (mem s) (Some (pool_pq p)) (Some a) = Some (True, h, Some q')"
      "pq_inv h q' (lanes_push pr a ls)" "same_nodes (mem s) h"
      using pq_try_push_room [OF q(1) False t(1) pr owned_once(1) [OF mem a(1)]] by blast
    let ?q = "q'\<lparr>not_empty := CLive []\<rparr>"
    have "pq_inv h ?q (lanes_push pr a ls)" using r(2) by (simp add: pq_inv_def)
    from live_push [OF inv i t(1) pr this r(3)]
    have "live_inv (cgo i (S_Leave (Accepted n)) (s\<lparr>mem := h, accepted := accepted s @ [call_of t]\<rparr>))
      (p\<lparr>pool_pq := ?q\<rparr>) (lanes_push pr a ls)" by simp
    from live_deliver [OF this, of "e_pick e" "wakes (not_empty q')"]
    have "live_inv (cgo i (S_Leave (Accepted n))
        ((set_queue (e_pick e) p h q' s)\<lparr>accepted := accepted s @ [call_of t]\<rparr>))
      (p\<lparr>pool_pq := ?q\<rparr>) (lanes_push pr a ls)"
      by (rule back_subst [where P = "\<lambda>b. b"]) (rule live_inv_cong; simp add: set_queue_def cgo_def)
    with r(1) p t i show ?thesis
      by (auto simp: submit_step_def set_queue_def intro!: goodI)
  qed
qed

lemma submit_create_good:
  assumes inv: "live_inv s p ls" and p: "pool s = Some p" and i: "i < length (cpcs s)" "cpcs s ! i = S_Create r"
    and env: "env_ok e s"
  shows "good (submit_step e i s)"
proof -
  have "req_ok (cpcs s ! i)" using inv i by (auto simp: live_inv_def req_inv_def list_all_length)
  then obtain f where r: "valid_priority (req_priority r)" "req_fun r = Some f" using i by auto
  have spin: "\<not> past_spin (opc s)" using flight_not_past(1) [OF inv i(1)] i by simp
  show ?thesis
  proof (cases "e_malloc e")
    case None
    have "live_inv (cgo i (S_Leave (Rejected ENOMEM)) s) p ls"
      using inv i spin by (intro live_submit_plain) (auto simp: in_control_def)
    moreover have "live_inv (cgo i (S_Leave (Rejected ENOMEM)) (s\<lparr>mem := mem s, id_count := id_count s\<rparr>)) p ls =
        live_inv (cgo i (S_Leave (Rejected ENOMEM)) s) p ls" by (rule live_inv_cong) (simp_all add: cgo_def)
    ultimately show ?thesis using None r i p
      by (auto simp: submit_step_def task_create_def intro!: goodI)
  next
    case (Some a)
    define t where "t = \<lparr>task_id = id_count s, func = Some f, arg = req_arg r, priority = req_priority r,
      submit_time = \<lparr>tv_sec = 0, tv_nsec = 0\<rparr>, task_next = None\<rparr>"
    have a: "mem s a = None" "task_load s + 1 < 2 ^ 31" using env Some by (simp_all add: env_ok_def)
    have t: "node_ok t" "valid_priority (priority t)" using r by (simp_all add: t_def node_ok_def time_ok_def)
    have "task_create (e_malloc e) (mem s) (id_count s) (req_fun r) (req_arg r) (req_priority r) =
        (Some a, (mem s)(a \<mapsto> t), id_count s + 1)" using Some r by (simp add: task_create_def t_def)
    then have "submit_step e i s = Some (cgo i (S_Count a (task_id t))
        (s\<lparr>mem := (mem s)(a \<mapsto> t), id_count := id_count s + 1\<rparr>))" using i by (simp add: submit_step_def)
    moreover have "live_inv (cgo i (S_Count a (task_id t))
          (s\<lparr>mem := (mem s)(a \<mapsto> t), id_count := id_count s + 1\<rparr>)) p ls =
        live_inv (cgo i (S_Count a (task_id t)) (s\<lparr>mem := (mem s)(a \<mapsto> t)\<rparr>)) p ls"
      by (rule live_inv_cong) (simp_all add: cgo_def)
    moreover note live_create [OF inv p i a t, of "task_id t"]
    ultimately show ?thesis using p by (auto intro!: goodI)
  qed
qed

lemma submit_stamp_good:
  assumes inv: "live_inv s p ls" and p: "pool s = Some p" and i: "i < length (cpcs s)" "cpcs s ! i = S_Stamp a n"
    and env: "env_ok e s"
  shows "good (submit_step e i s)"
proof -
  have mem: "mem_inv s ls" using inv by (simp add: live_inv_def)
  have cn: "cnode (cpcs s ! i) = {#a#}" using i by simp
  note a = client_owned_once [OF mem i(1) cn]
  from a(3) obtain t where t: "mem s a = Some t" "node_ok t" by blast
  let ?t = "if aging_enable p then t\<lparr>submit_time := e_clock e\<rparr> else t"
  have "live_inv (s\<lparr>mem := (mem s)(a \<mapsto> ?t)\<rparr>) p ls"
    using t env by (intro live_node_update [OF inv t(1) a(1)]) (auto simp: call_of_def node_ok_def env_ok_def)
  then have "live_inv (cgo i (S_Push a n) (s\<lparr>mem := (mem s)(a \<mapsto> ?t)\<rparr>)) p ls"
    using i flight_not_past(1) [OF inv i(1)] by (intro live_submit_plain) (auto simp: in_control_def)
  with p t i show ?thesis by (auto simp: submit_step_def Let_def intro!: goodI)
qed

lemma submit_good:
  assumes inv: "live_inv s p ls" and p: "pool s = Some p" and ready: "client_ready s i" and env: "env_ok e s"
    and sub: "is_submit (cpcs s ! i)"
  shows "good (submit_step e i s)"
proof -
  have i: "i < length (cpcs s)" using ready by (simp add: client_ready_def)
  have req: "req_ok (cpcs s ! i)" using inv i by (auto simp: live_inv_def req_inv_def list_all_length)
  note spin = flight_not_past(1) [OF inv i]
  show ?thesis
  proof (cases "cpcs s ! i")
    case (S_Enter r)
    have "live_inv (cgo i (S_Done (Rejected EINVAL)) s) p ls"
      using inv i S_Enter by (intro live_submit_plain) (auto simp: in_control_def)
    moreover have "live_inv (cgo i (S_Shutdown r) s) (p\<lparr>in_flight_submits := in_flight_submits p + 1\<rparr>) ls"
      if "req_fun r \<noteq> None"
      using inv i S_Enter ready req that
      by (intro live_submit_plain) (auto simp: in_control_def client_ready_def client_allowed_def)
    ultimately show ?thesis using p S_Enter by (auto simp: submit_step_def Let_def intro!: goodI)
  next
    case (S_Shutdown r)
    have "live_inv (cgo i pc s) p ls" if "pc = S_Leave (Rejected ESHUTDOWN) \<or> pc = S_Full r" for pc
      using inv i S_Shutdown that req spin by (intro live_submit_plain) (auto simp: in_control_def)
    then show ?thesis using p S_Shutdown by (auto simp: submit_step_def intro!: goodI)
  next
    case (S_Full r)
    have "live_inv (cgo i (S_Depth c r) s) p ls" for c
      using inv i S_Full req spin by (intro live_submit_plain) (auto simp: in_control_def)
    then show ?thesis using p S_Full by (auto simp: submit_step_def intro!: goodI)
  next
    case (S_Depth c r)
    have "live_inv (cgo i pc s) p ls" if "pc = S_Leave (Rejected EAGAIN) \<or> pc = S_Create r" for pc
      using inv i S_Depth that req spin by (intro live_submit_plain) (auto simp: in_control_def)
    then show ?thesis using p S_Depth by (auto simp: submit_step_def intro!: goodI)
  next
    case (S_Create r)
    with inv p i env show ?thesis by (intro submit_create_good)
  next
    case (S_Count a n)
    have "live_inv (cgo i (S_Stamp a n) s) (p\<lparr>total_task_in_system := total_task_in_system p + 1\<rparr>) ls"
      using inv i S_Count spin by (intro live_submit_plain) (auto simp: in_control_def)
    then show ?thesis using p S_Count by (auto simp: submit_step_def Let_def intro!: goodI)
  next
    case (S_Stamp a n)
    with inv p i env show ?thesis by (intro submit_stamp_good)
  next
    case (S_Push a n)
    with inv p i show ?thesis by (intro submit_push_good)
  next
    case (S_RollCount a)
    have "live_inv (cgo i (S_RollFree a) s) (p\<lparr>total_task_in_system := total_task_in_system p - 1\<rparr>) ls"
      using inv i S_RollCount spin by (intro live_submit_plain) (auto simp: in_control_def)
    then show ?thesis using p S_RollCount by (auto simp: submit_step_def Let_def intro!: goodI)
  next
    case (S_RollFree a)
    have mem: "mem_inv s ls" using inv by (simp add: live_inv_def)
    have cn: "cnode (cpcs s ! i) = {#a#}" using S_RollFree by simp
    obtain t where "mem s a = Some t" using client_owned_once(3) [OF mem i cn] by blast
    with live_client_free [OF inv i S_RollFree] p S_RollFree show ?thesis
      by (auto simp: submit_step_def task_destroy_def intro!: goodI)
  next
    case (S_Leave r)
    have "live_inv (cgo i (S_Done r) s) (p\<lparr>in_flight_submits := in_flight_submits p - 1\<rparr>) ls"
      using inv i S_Leave by (intro live_submit_plain) (auto simp: in_control_def)
    then show ?thesis using p S_Leave by (auto simp: submit_step_def Let_def intro!: goodI)
  qed (use sub ready in \<open>simp_all add: is_submit_def client_ready_def\<close>)
qed

end
