(* ===== verification/Pool_Safety.thy ===== *)
theory Pool_Safety
  imports Pool_Invariant
begin

text \<open>
  The remaining threads keep the invariant: the clients in the control calls, the owner and the
  aging thread. The invariant is then an instance of the interface of inductive invariants, and
  the safety properties of the pool follow from it.
\<close>

section \<open>Shared critical sections\<close>

lemma live_broadcast_pause:
  assumes inv: "live_inv s p ls"
  shows "live_inv (broadcast_pause s) p ls"
proof -
  let ?a = "if apc s = A_PauseWait then A_PauseLock else apc s"
  have "join_rel (opc s) (map wake_pause (wpcs s)) = join_rel (opc s) (wpcs s)"
    by (cases "opc s") (auto simp: list_all_length)
  moreover have "aging_rel (opc s) b ?a = aging_rel (opc s) b (apc s)" for b by (cases "opc s") auto
  moreover have "holds_pause ?a = holds_pause (apc s)" "holds_aging ?a = holds_aging (apc s)"
    by (simp_all add: holds_pause_def holds_aging_def)
  ultimately show ?thesis
    using inv by (simp add: live_inv_def broadcast_pause_def mem_inv_def count_inv_def job_inv_def req_inv_def
        sync_inv_def aging_inv_def phase_inv_def del: if_split)
qed

lemma broadcast_pause_fields [simp]:
  "pool (broadcast_pause s) = pool s" "cpcs (broadcast_pause s) = cpcs s" "opc (broadcast_pause s) = opc s"
  "mem (broadcast_pause s) = mem s" "length (wpcs (broadcast_pause s)) = length (wpcs s)"
  by (simp_all add: broadcast_pause_def)

lemma wake_pause_ok:
  assumes "live_inv s p ls" and "pool s = Some p" and "pause_free s"
  shows "thread_pool_wake_pause s = Some (broadcast_pause s)"
proof -
  have "pause_mutex p = MFree" "pause_cond p \<noteq> CUninit"
    using assms by (auto simp: live_inv_def sync_inv_def pause_free_def split: if_splits)
  with assms(2) show ?thesis by (cases "pause_cond p") (simp_all add: thread_pool_wake_pause_def)
qed

lemma live_new_pq:
  "live_inv s p ls \<Longrightarrow> pq_inv (mem s) q ls \<Longrightarrow> not_empty q = CLive [] \<Longrightarrow> live_inv s (p\<lparr>pool_pq := q\<rparr>) ls"
  by (simp add: live_inv_def inv_defs)

lemma wake_pq_ok:
  assumes inv: "live_inv s p ls" and p: "pool s = Some p"
  shows "\<exists>s' p'. pool_wake_pq e s = Some s' \<and> pool s' = Some p' \<and> live_inv s' p' ls \<and>
    cpcs s' = cpcs s \<and> opc s' = opc s \<and> apc s' = apc s \<and> shutdown p' = shutdown p \<and> aging_enable p' = aging_enable p"
proof -
  have q: "pq_inv (mem s) (pool_pq p) ls" using inv by (simp add: live_inv_def)
  obtain q' where q': "pq_wake_all (Some (pool_pq p)) = Some (Some q')" "pq_inv (mem s) q' ls"
    using pq_wake_all_ok [OF q] by blast
  let ?p = "p\<lparr>pool_pq := q'\<lparr>not_empty := CLive []\<rparr>\<rparr>"
  have "pq_inv (mem s) (q'\<lparr>not_empty := CLive []\<rparr>) ls" using q'(2) by (simp add: pq_inv_def)
  from live_new_pq [OF inv this] have "live_inv (set_queue (e_pick e) p (mem s) q' s) ?p ls"
    by (intro live_set_queue) simp
  with q'(1) p show ?thesis by (simp add: pool_wake_pq_def set_queue_def)
qed

lemma drain_round_ok:
  assumes "live_inv s p ls" and "pool s = Some p"
  shows "drain_round s =
    Some (0 < length (concat ls) + tally wcount (wpcs s) + tally ccount (cpcs s))"
proof -
  have "sint (total_task_in_system p) = int (length (concat ls) + tally wcount (wpcs s) + tally ccount (cpcs s))"
    using assms(1) count_inv_total by (simp add: live_inv_def)
  with assms show ?thesis by (simp add: drain_round_def live_inv_def sync_inv_def del: of_nat_add)
qed

section \<open>The control calls\<close>

lemma control_good:
  assumes inv: "live_inv s p ls" and p: "pool s = Some p" and ready: "client_ready s i"
    and ctl: "\<not> is_submit (cpcs s ! i)"
  shows "good (control_step e i s)"
proof -
  have i: "i < length (cpcs s)" using ready by (simp add: client_ready_def)
  show ?thesis
  proof (cases "cpcs s ! i")
    case T_Enter
    have "live_inv (cgo i pc s) p ls" if "pc = T_Clear \<or> pc = T_Drain" for pc
      using inv i T_Enter ready that
      by (intro live_cgo_same) (auto simp: client_ready_def client_allowed_def)
    then show ?thesis using p T_Enter by (auto simp: control_step_def intro!: goodI)
  next
    case T_Clear
    have "live_inv (cgo i T_WakePause s) p ls"
      using inv i T_Clear by (intro live_cgo_same) (auto simp: in_control_def)
    then show ?thesis using p T_Clear by (auto simp: control_step_def set_paused_def intro!: goodI)
  next
    case T_WakePause
    have "pause_free s" using ready T_WakePause by (simp add: client_ready_def)
    moreover have "live_inv (cgo i T_Drain (broadcast_pause s)) p ls"
      using live_broadcast_pause [OF inv] i T_WakePause by (intro live_cgo_same) (auto simp: in_control_def)
    ultimately show ?thesis using p T_WakePause wake_pause_ok [OF inv p]
      by (auto simp: control_step_def intro!: goodI)
  next
    case T_Drain
    have "live_inv (cgo i pc s) p ls" if "pc = T_DrainWait \<or> pc = C_Done" for pc
      using inv i T_Drain that by (intro live_cgo_same) (auto simp: in_control_def)
    then show ?thesis using p T_Drain drain_round_ok [OF inv p] by (auto simp: control_step_def intro!: goodI)
  next
    case P_Enter
    have "live_inv (cgo i P_Wake s) p ls"
      using inv i P_Enter ready by (intro live_cgo_same) (auto simp: client_ready_def client_allowed_def)
    then show ?thesis using p P_Enter by (auto simp: control_step_def set_paused_def intro!: goodI)
  next
    case P_Wake
    obtain s' p' where s': "pool_wake_pq e s = Some s'" "pool s' = Some p'" "live_inv s' p' ls" "cpcs s' = cpcs s"
      using wake_pq_ok [OF inv p, of e] by blast
    have "live_inv (cgo i C_Done s') p' ls"
      using s' i P_Wake by (intro live_cgo_same) (auto simp: in_control_def)
    then show ?thesis using s' P_Wake by (auto simp: control_step_def intro!: goodI)
  next
    case R_Enter
    have "live_inv (cgo i R_WakePause s) p ls"
      using inv i R_Enter ready by (intro live_cgo_same) (auto simp: client_ready_def client_allowed_def)
    then show ?thesis using p R_Enter by (auto simp: control_step_def set_paused_def intro!: goodI)
  next
    case R_WakePause
    have "pause_free s" using ready R_WakePause by (simp add: client_ready_def)
    moreover have "live_inv (cgo i C_Done (broadcast_pause s)) p ls"
      using live_broadcast_pause [OF inv] i R_WakePause by (intro live_cgo_same) (auto simp: in_control_def)
    ultimately show ?thesis using p R_WakePause wake_pause_ok [OF inv p]
      by (auto simp: control_step_def intro!: goodI)
  next
    case (M_Enter n)
    have "live_inv (cgo i C_Done s) p ls"
      using inv i M_Enter by (intro live_cgo_same) (auto simp: in_control_def)
    moreover have "pq_inv (mem s) ((pool_pq p)\<lparr>max_tasks := n\<rparr>) ls" "not_empty (pool_pq p) = CLive []"
      using inv by (simp_all add: live_inv_def pq_inv_def)
    ultimately have "live_inv (cgo i C_Done s) (p\<lparr>pool_pq := (pool_pq p)\<lparr>max_tasks := n\<rparr>\<rparr>) ls"
      by (intro live_new_pq) simp_all
    then show ?thesis using p M_Enter
      by (auto simp: control_step_def thread_pool_set_max_tasks_def pq_set_max_tasks_def intro!: goodI)
  qed (use ctl ready in \<open>simp_all add: is_submit_def client_ready_def\<close>)
qed

lemma client_good:
  assumes "live_inv s p ls" and "pool s = Some p" and "client_ready s i" and "env_ok e s"
  shows "good (client_step e i s)"
  using submit_good [OF assms] control_good [OF assms(1-3)] by (simp add: client_step_def)

section \<open>The owner\<close>

lemmas phase_defs = phase_inv_def destroying_def past_spin_def past_drain_def ogo_def

lemma live_ogo:
  assumes "live_inv s p ls" and "args_ok pc" and "aging_rel pc (aging_enable p) (apc s)" and "phase_inv (ogo pc s) p ls"
  shows "live_inv (ogo pc s) p ls"
  using assms by (simp add: live_inv_def mem_inv_def count_inv_def job_inv_def req_inv_def sync_inv_def
      aging_inv_def) (simp add: ogo_def)

lemma aging_mutex_free: "live_inv s p ls \<Longrightarrow> pool s = Some p \<Longrightarrow> aging_free s \<Longrightarrow> aging_mutex p = MFree"
  by (auto simp: live_inv_def sync_inv_def aging_free_def split: if_splits)

lemma live_enable_flag:
  assumes "live_inv s p ls" and "0 \<le> pr" "pr \<le> 9000000000000" "iv < 2 ^ 63"
    and "args_ok pc" and "aging_rel pc b (apc s)" and "phase_inv (ogo pc s) p ls"
  shows "live_inv (ogo pc s) (p\<lparr>aging_interval_ms := iv, aging_promote_ms := pr, aging_enable := b\<rparr>) ls"
    and "live_inv (ogo pc s) (p\<lparr>aging_enable := b\<rparr>) ls"
  using assms by (simp_all add: live_inv_def mem_inv_def count_inv_def job_inv_def req_inv_def sync_inv_def
      aging_inv_def phase_inv_def ogo_def)

lemma enable_good:
  assumes inv: "live_inv s p ls" and p: "pool s = Some p" and ready: "owner_ready s"
    and pc: "(\<exists>i pr. opc s = E_Enter i pr) \<or> opc s = E_Create \<or> opc s = E_Undo"
  shows "good (enable_step e s)"
proof -
  have ag: "aging_rel (opc s) (aging_enable p) (apc s)" and args: "args_ok (opc s)"
    and rng: "0 \<le> aging_promote_ms p" "aging_promote_ms p \<le> 9000000000000" "aging_interval_ms p < 2 ^ 63"
    using inv by (simp_all add: live_inv_def aging_inv_def req_inv_def sync_inv_def)
  from pc consider (enter) iv pr where "opc s = E_Enter iv pr" | (create) "opc s = E_Create" | (undo) "opc s = E_Undo"
    by blast
  then show ?thesis
  proof cases
    case enter
    have idle: "live_inv (ogo O_Idle s) p ls" using inv ag enter by (intro live_ogo) (simp_all add: phase_defs)
    have "live_inv (ogo E_Create s) (p\<lparr>aging_interval_ms := iv, aging_promote_ms := pr, aging_enable := True\<rparr>) ls"
      if "\<not> aging_enable p" "0 < pr"
      using inv ag args enter that by (intro live_enable_flag(1)) (auto simp: phase_defs)
    moreover have "aging_mutex p = MFree" if "\<not> (iv \<le> 0 \<or> pr \<le> 0)"
      using aging_mutex_free [OF inv p] ready enter that by (auto simp: owner_ready_def)
    ultimately show ?thesis using idle p enter by (auto simp: enable_step_def Let_def intro!: goodI)
  next
    case create
    have "live_inv (ogo E_Undo s) p ls" using inv ag create by (intro live_ogo) (simp_all add: phase_defs)
    moreover have "live_inv (ogo O_Idle (s\<lparr>apc := A_Start\<rparr>)) p ls"
      using inv ag create
      by (simp add: live_inv_def inv_defs ogo_def destroying_def past_spin_def past_drain_def
          holds_pause_def holds_aging_def)
    ultimately show ?thesis using p create by (auto simp: enable_step_def intro!: goodI)
  next
    case undo
    have "live_inv (ogo O_Idle s) (p\<lparr>aging_enable := False\<rparr>) ls"
      using inv ag undo by (intro live_enable_flag(2) [where pr = 0 and iv = 0]) (auto simp: phase_defs)
    then show ?thesis using p undo by (auto simp: enable_step_def intro!: goodI)
  qed
qed

lemma phase_within:
  assumes "phase_inv s p ls" and "destroying pc = destroying (opc s)" and "past_spin pc = past_spin (opc s)"
    and "past_drain pc = past_drain (opc s)" and "opc s \<noteq> D_Enter" and "pc \<noteq> D_Enter"
    and "join_rel pc (wpcs s)"
  shows "phase_inv (ogo pc s) p ls"
  using assms by (simp add: phase_inv_def ogo_def)

lemma disable_good:
  assumes inv: "live_inv s p ls" and p: "pool s = Some p" and ready: "owner_ready s"
    and pc: "\<exists>d. opc s = X_Enter d \<or> opc s = X_Clear d \<or> opc s = X_Signal d \<or> opc s = X_WakePause d \<or> opc s = X_Join d"
  shows "good (disable_step s)"
proof -
  have ag: "aging_rel (opc s) (aging_enable p) (apc s)" and ph: "phase_inv s p ls"
    using inv by (simp_all add: live_inv_def aging_inv_def)
  have within: "phase_inv (ogo q s) p ls"
    if "opc s \<in> {X_Enter d, X_Clear d, X_Signal d, X_WakePause d, X_Join d}"
      "q \<in> {X_Clear d, X_Signal d, X_WakePause d, X_Join d, after_disable d}" for q d
    using that by (intro phase_within [OF ph])
      (auto simp: destroying_def past_spin_def past_drain_def after_disable_def split: if_splits)
  from pc consider (enter) d where "opc s = X_Enter d" | (clear) d where "opc s = X_Clear d"
    | (signal) d where "opc s = X_Signal d" | (wake) d where "opc s = X_WakePause d"
    | (join) d where "opc s = X_Join d" by blast
  then show ?thesis
  proof cases
    case enter
    have "live_inv (ogo (X_Clear d) s) p ls" if "aging_enable p"
      using inv ag enter within that by (intro live_ogo) auto
    moreover have "live_inv (ogo (after_disable d) s) p ls" if "\<not> aging_enable p"
      using inv ag enter within that by (intro live_ogo) (auto simp: after_disable_def)
    ultimately show ?thesis using p enter by (auto simp: disable_step_def intro!: goodI)
  next
    case clear
    have "live_inv (ogo (X_Signal d) s) (p\<lparr>aging_enable := False\<rparr>) ls"
      using inv ag clear within by (intro live_enable_flag(2) [where pr = 0 and iv = 0]) auto
    then show ?thesis using p clear by (auto simp: disable_step_def intro!: goodI)
  next
    case signal
    let ?a = "if apc s = A_Wait then A_Woken else apc s"
    have "aging_mutex p = MFree" using aging_mutex_free [OF inv p] ready signal by (simp add: owner_ready_def)
    moreover obtain l where "aging_cond p = CLive l"
      using inv by (cases "aging_cond p") (auto simp: live_inv_def sync_inv_def)
    moreover have "live_inv (ogo (X_WakePause d) s) p ls"
      using inv ag signal within by (intro live_ogo) auto
    then have "live_inv (ogo (X_WakePause d) (s\<lparr>apc := ?a\<rparr>)) p ls"
      by (simp add: live_inv_def inv_defs ogo_def holds_pause_def holds_aging_def)
    ultimately show ?thesis using p signal by (auto simp: disable_step_def intro!: goodI)
  next
    case wake
    have "live_inv (ogo (X_Join d) s) p ls" using inv ag wake within by (intro live_ogo) auto
    from live_broadcast_pause [OF this] have "live_inv (ogo (X_Join d) (broadcast_pause s)) p ls"
      by (rule back_subst [where P = "\<lambda>b. b"]) (rule live_inv_cong; simp add: broadcast_pause_def ogo_def)
    then show ?thesis using p wake wake_pause_ok [OF inv p] ready
      by (auto simp: disable_step_def owner_ready_def intro!: goodI)
  next
    case join
    then have apc: "apc s = A_Exit" using ready by (simp add: owner_ready_def)
    have "phase_inv (ogo (after_disable d) s) p ls" using join within by auto
    then have "live_inv (ogo (after_disable d) (s\<lparr>apc := A_None\<rparr>)) p ls"
      using inv ag join apc
      by (simp add: live_inv_def inv_defs ogo_def after_disable_def holds_pause_def holds_aging_def)
    then show ?thesis using p join by (auto simp: disable_step_def intro!: goodI)
  qed
qed

lemma spin_exit:
  assumes "live_inv s p ls" and "\<not> in_flight_submits p > 0"
  shows "tally cflight (cpcs s) = 0"
proof -
  have c: "in_flight_submits p = of_nat (tally cflight (cpcs s))" "length (cpcs s) < 2 ^ 32"
    using assms(1) by (simp_all add: live_inv_def count_inv_def)
  have "tally cflight (cpcs s) < 2 ^ 32" using c(2) cflight_bound [of "cpcs s"] by linarith
  moreover have "(of_nat (tally cflight (cpcs s)) :: u32) = of_nat 0"
    using assms(2) c(1) word_neq_0_conv by fastforce
  ultimately show ?thesis by (subst (asm) word_of_nat_inject) simp_all
qed

lemma shutdown_good:
  assumes inv: "live_inv s p ls" and p: "pool s = Some p"
    and pc: "opc s = D_Enter \<or> opc s = D_Unpause \<or> opc s = D_Spin"
  shows "good (destroy_step e s)"
proof -
  have ag: "aging_rel (opc s) (aging_enable p) (apc s)" and ph: "phase_inv s p ls"
    using inv by (simp_all add: live_inv_def aging_inv_def)
  from pc consider (enter) "opc s = D_Enter" | (unpause) "opc s = D_Unpause" | (spin) "opc s = D_Spin" by blast
  then show ?thesis
  proof cases
    case enter
    have "live_inv (ogo D_Unpause s) (p\<lparr>shutdown := True\<rparr>) ls"
      using inv enter by (simp add: live_inv_def inv_defs ogo_def destroying_def past_spin_def past_drain_def)
    then show ?thesis using p enter by (auto simp: destroy_step_def intro!: goodI)
  next
    case unpause
    have "live_inv (ogo D_Spin s) p ls" using inv ag ph unpause by (intro live_ogo) (simp_all add: phase_defs)
    then show ?thesis using p unpause by (auto simp: destroy_step_def set_paused_def intro!: goodI)
  next
    case spin
    have "live_inv (ogo D_WakePq s) p ls" if "\<not> in_flight_submits p > 0"
      using inv ag ph spin spin_exit [OF inv that] by (intro live_ogo) (simp_all add: phase_defs)
    then show ?thesis using p spin inv by (auto simp: destroy_step_def intro!: goodI)
  qed
qed

lemma wake_good:
  assumes inv: "live_inv s p ls" and p: "pool s = Some p" and ready: "owner_ready s"
    and pc: "opc s = D_WakePq \<or> opc s = D_WakePause"
  shows "good (destroy_step e s)"
  using pc
proof
  assume pc: "opc s = D_WakePq"
  obtain s' p' where s': "pool_wake_pq e s = Some s'" "pool s' = Some p'" "live_inv s' p' ls" "opc s' = opc s"
    using wake_pq_ok [OF inv p, of e] by blast
  have "live_inv (ogo D_WakePause s') p' ls"
    using s' pc by (intro live_ogo) (auto simp: live_inv_def aging_inv_def phase_defs)
  then show ?thesis using s' pc by (auto simp: destroy_step_def intro!: goodI)
next
  assume pc: "opc s = D_WakePause"
  have "live_inv (ogo (X_Enter True) (broadcast_pause s)) p ls"
    using live_broadcast_pause [OF inv] pc
    by (intro live_ogo) (auto simp: live_inv_def aging_inv_def phase_defs)
  then show ?thesis using p pc wake_pause_ok [OF inv p] ready
    by (auto simp: destroy_step_def owner_ready_def intro!: goodI)
qed

lemma join_good:
  assumes inv: "live_inv s p ls" and p: "pool s = Some p" and ready: "owner_ready s"
    and pc: "opc s = D_Drain \<or> opc s = D_Monitor \<or> (\<exists>n. opc s = D_Join n)"
  shows "good (destroy_step e s)"
proof -
  have ag: "aging_rel (opc s) (aging_enable p) (apc s)" and ph: "phase_inv s p ls"
    and mon: "\<not> tid_valid (monitor p)" and nw: "unat (num_workers p) = length (wpcs s)"
    using inv by (simp_all add: live_inv_def aging_inv_def sync_inv_def)
  obtain ws where ws: "workers p = Some ws" "length ws = length (wpcs s)"
    using inv by (auto simp: live_inv_def sync_inv_def)
  from pc consider (drain) "opc s = D_Drain" | (monitor) "opc s = D_Monitor" | (join) n where "opc s = D_Join n" by blast
  then show ?thesis
  proof cases
    case drain
    have "live_inv (ogo D_DrainWait s) p ls" using inv ag ph drain by (intro live_ogo) (simp_all add: phase_defs)
    moreover have "live_inv (ogo D_Monitor s) p ls"
      if "\<not> 0 < length (concat ls) + tally wcount (wpcs s) + tally ccount (cpcs s)"
      using inv ag ph drain that by (intro live_ogo) (simp_all add: phase_defs)
    ultimately show ?thesis using p drain drain_round_ok [OF inv p]
      by (auto simp: destroy_step_def intro!: goodI split: if_splits)
  next
    case monitor
    have "live_inv (ogo (D_Join 0) s) p ls" using inv ag ph monitor by (intro live_ogo) (simp_all add: phase_defs)
    moreover have "(monitor p)\<lparr>running := False, tid_valid := False\<rparr> = (monitor p)\<lparr>running := False\<rparr>"
      using mon by (cases "monitor p") simp
    ultimately show ?thesis using p monitor by (auto simp: destroy_step_def intro!: goodI)
  next
    case join
    show ?thesis
    proof (cases "n < length (wpcs s)")
      case True
      then have "wpcs s ! n = W_Exit" using ready join by (simp add: owner_ready_def)
      then have "live_inv (ogo (D_Join (Suc n)) s) p ls"
        using inv ag ph join True by (intro live_ogo) (auto simp: phase_defs less_Suc_eq)
      then show ?thesis using p nw ws join True by (auto simp: destroy_step_def intro!: goodI)
    next
      case False
      then have "live_inv (ogo D_Release s) p ls"
        using inv ag ph join by (intro live_ogo) (auto simp: phase_defs list_all_length)
      then show ?thesis using p nw join False by (auto simp: destroy_step_def intro!: goodI)
    qed
  qed
qed

lemma release_good:
  assumes inv: "live_inv s p ls" and p: "pool s = Some p" and pc: "opc s = D_Release"
  shows "good (destroy_step e s)"
proof -
  have q: "pq_inv (mem s) (pool_pq p) ls" and mem: "mem_inv s ls" and job: "job_inv s ls"
    and sync: "sync_inv s p" and ph: "phase_inv s p ls" and apc: "apc s = A_None"
    using inv pc by (simp_all add: live_inv_def aging_inv_def)
  have empty: "concat ls = []" "tally wcount (wpcs s) = 0" "tally cflight (cpcs s) = 0"
    and exit: "list_all (\<lambda>pc. pc = W_Exit) (wpcs s)" and ctl: "list_all (\<lambda>c. \<not> in_control c) (cpcs s)"
    using ph pc by (simp_all add: phase_inv_def destroying_def past_spin_def past_drain_def)
  have "mset_set (dom (mem s)) = {#}" "finite (dom (mem s))"
    using mem empty no_wcount [OF empty(2)] no_flight [OF empty(3)] by (simp_all add: mem_inv_def)
  then have "mem s = Map.empty" by (simp add: mset_set_empty_iff)
  moreover have "mset (accepted s) = mset (executed s)"
    using job empty no_wcount [OF empty(2)] by (simp add: job_inv_def)
  moreover have "\<exists>p'. release_pool (mem s) p = Some (mem s |` (- set (concat ls)), p') \<and> released p'"
    using sync apc by (intro release_pool_ok [OF q]) (auto simp: sync_inv_def holds_pause_def holds_aging_def)
  ultimately show ?thesis
    using p pc empty exit ctl apc by (auto simp: destroy_step_def good_def pool_inv_def gone_inv_def ogo_def)
qed

lemma owner_good:
  assumes "live_inv s p ls" and "pool s = Some p" and "owner_ready s"
  shows "good (owner_step e s)"
  using enable_good [OF assms, of e] disable_good [OF assms] shutdown_good [OF assms(1,2), of e]
    wake_good [OF assms, of e] join_good [OF assms, of e] release_good [OF assms(1,2), of e] assms(3)
  by (cases "opc s") (simp_all add: owner_step_def owner_ready_def)

section \<open>The aging thread\<close>

lemma live_ago:
  assumes inv: "live_inv s p ls" and pc: "apc s \<noteq> A_None" "pc \<noteq> A_None"
    and p': "p' = p\<lparr>pause_mutex := (if holds_pause pc then MHeld else MFree),
      aging_mutex := (if holds_aging pc then MHeld else MFree)\<rparr>"
  shows "live_inv (ago pc s) p' ls"
proof -
  have "aging_rel (opc s) b pc = aging_rel (opc s) b (apc s)" for b using pc by (cases "opc s") auto
  then show ?thesis
    using inv by (simp add: live_inv_def inv_defs ago_def p' del: if_split)
qed

lemma live_ago_same:
  assumes inv: "live_inv s p ls" and pc: "apc s \<noteq> A_None" "pc \<noteq> A_None"
    and "holds_pause pc = holds_pause (apc s)" "holds_aging pc = holds_aging (apc s)"
  shows "live_inv (ago pc s) p ls"
proof -
  have "p\<lparr>pause_mutex := (if holds_pause pc then MHeld else MFree),
      aging_mutex := (if holds_aging pc then MHeld else MFree)\<rparr> = p"
    using inv assms(4,5) by (cases p) (simp add: live_inv_def sync_inv_def)
  with live_ago [OF inv pc refl] show ?thesis by simp
qed

text \<open>The four moves that take or give back one of its two mutexes.\<close>

lemma live_aging_mutex:
  assumes inv: "live_inv s p ls" and pc: "apc s \<noteq> A_None" "pc \<noteq> A_None"
    and same: "holds_pause pc = holds_pause (apc s)"
  shows "live_inv (ago pc s) (p\<lparr>aging_mutex := (if holds_aging pc then MHeld else MFree)\<rparr>) ls"
proof -
  have "(if holds_pause pc then MHeld else MFree) = pause_mutex p"
    using inv same by (simp add: live_inv_def sync_inv_def)
  from live_ago [OF inv pc refl, unfolded this] show ?thesis by simp
qed

lemma live_pause_mutex:
  assumes inv: "live_inv s p ls" and pc: "apc s \<noteq> A_None" "pc \<noteq> A_None"
    and same: "holds_aging pc = holds_aging (apc s)"
  shows "live_inv (ago pc s) (p\<lparr>pause_mutex := (if holds_pause pc then MHeld else MFree)\<rparr>) ls"
proof -
  have "(if holds_aging pc then MHeld else MFree) = aging_mutex p"
    using inv same by (simp add: live_inv_def sync_inv_def)
  from live_ago [OF inv pc refl, unfolded this] show ?thesis by simp
qed

lemma aging_mutex_moves:
  assumes inv: "live_inv s p ls" and p: "pool s = Some p" and pc: "apc s \<noteq> A_None" "pc \<noteq> A_None"
    and same: "holds_pause pc = holds_pause (apc s)"
  shows "\<not> holds_aging (apc s) \<Longrightarrow> holds_aging pc \<Longrightarrow> good (do { s \<leftarrow> aging_lock s; Some (ago pc s) })"
    and "holds_aging (apc s) \<Longrightarrow> \<not> holds_aging pc \<Longrightarrow> good (do { s \<leftarrow> aging_unlock s; Some (ago pc s) })"
proof -
  note live = live_aging_mutex [OF inv pc same]
  have m: "aging_mutex p = (if holds_aging (apc s) then MHeld else MFree)"
    using inv by (simp add: live_inv_def sync_inv_def)
  show "good (do { s \<leftarrow> aging_lock s; Some (ago pc s) })" if "\<not> holds_aging (apc s)" "holds_aging pc"
    using live that m p by (simp add: aging_lock_def goodI)
  show "good (do { s \<leftarrow> aging_unlock s; Some (ago pc s) })" if "holds_aging (apc s)" "\<not> holds_aging pc"
    using live that m p by (simp add: aging_unlock_def goodI)
qed

lemma pause_mutex_moves:
  assumes inv: "live_inv s p ls" and p: "pool s = Some p" and pc: "apc s \<noteq> A_None" "pc \<noteq> A_None"
    and same: "holds_aging pc = holds_aging (apc s)"
  shows "\<not> holds_pause (apc s) \<Longrightarrow> holds_pause pc \<Longrightarrow> good (do { s \<leftarrow> pause_lock s; Some (ago pc s) })"
    and "holds_pause (apc s) \<Longrightarrow> \<not> holds_pause pc \<Longrightarrow> good (do { s \<leftarrow> pause_unlock s; Some (ago pc s) })"
proof -
  note live = live_pause_mutex [OF inv pc same]
  have m: "pause_mutex p = (if holds_pause (apc s) then MHeld else MFree)"
    using inv by (simp add: live_inv_def sync_inv_def)
  show "good (do { s \<leftarrow> pause_lock s; Some (ago pc s) })" if "\<not> holds_pause (apc s)" "holds_pause pc"
    using live that m p by (simp add: pause_lock_def goodI)
  show "good (do { s \<leftarrow> pause_unlock s; Some (ago pc s) })" if "holds_pause (apc s)" "\<not> holds_pause pc"
    using live that m p by (simp add: pause_unlock_def goodI)
qed

lemma live_scan:
  assumes inv: "live_inv s p ls" and p: "pool s = Some p" and pc: "apc s \<noteq> A_None" and env: "env_ok e s"
    and sd: "src < 3" "dst < 3" "src \<noteq> dst"
  shows "\<exists>s' p' ls'. aging_scan e (int src) (int dst) s = Some s' \<and> pool s' = Some p' \<and> live_inv s' p' ls' \<and>
    apc s' = apc s"
proof -
  have q: "pq_inv (mem s) (pool_pq p) ls" and mem: "mem_inv s ls" and job: "job_inv s ls"
    and rng: "0 \<le> aging_promote_ms p" "aging_promote_ms p \<le> 9000000000000"
    using inv by (simp_all add: live_inv_def sync_inv_def)
  have len: "length ls = 3" using q by (rule pq_inv_length)
  have "scan_ok (mem s) (e_clock e) (aging_promote_ms p) (ls ! src)"
    using env rng mem by (auto simp: scan_ok_def env_ok_def list_all_iff mem_inv_def node_ok_def split: option.splits)
  from promote_prefix_ok [OF q sd this, of "Some False"] obtain b h q' where
    r: "pq_aging_promote_prefix (mem s) (pool_pq p) (int src) (int dst) (Some False) (e_clock e) (aging_promote_ms p) =
      Some (b, h, q')"
    and q': "pq_inv h q' (lanes_promote src dst (aged (mem s) (e_clock e) (aging_promote_ms p)) ls)"
    and jobs: "same_jobs (mem s) h" and frame: "\<forall>x. x \<notin> set (ls ! src) \<longrightarrow> h x = mem s x"
    by (auto simp: shutdown_requested_def)
  let ?ls = "lanes_promote src dst (aged (mem s) (e_clock e) (aging_promote_ms p)) ls"
  let ?p = "p\<lparr>pool_pq := q'\<lparr>not_empty := CLive []\<rparr>\<rparr>"
  have ms: "mset (concat ?ls) = mset (concat ls)" using sd len by (intro mset_lanes_promote) simp_all
  then have size: "length (concat ?ls) = length (concat ls)" by (metis size_mset)
  have "set (ls ! src) \<subseteq> set (concat ls)" using sd len nth_mem [of src ls] by (fastforce simp: set_concat)
  with frame have "prio_at h a = prio_at (mem s) a" if "a \<notin> set (concat ls)" for a
    using that by (auto simp: prio_at_def)
  then have "mem_inv (s\<lparr>mem := h, wpcs := wpcs s\<rparr>) ?ls"
    using mem jobs ms by (intro mem_inv_heap [of s ls]) simp_all
  moreover have "job_inv (s\<lparr>mem := h, wpcs := wpcs s\<rparr>) ?ls"
    using mem job jobs ms by (intro job_inv_heap [of s ls]) simp_all
  moreover have "concat ?ls = [] \<longleftrightarrow> concat ls = []" using size by (metis length_0_conv)
  ultimately have "live_inv (s\<lparr>mem := h\<rparr>) ?p ?ls"
    using inv q' size by (simp add: live_inv_def mem_inv_def job_inv_def count_inv_def req_inv_def sync_inv_def
        aging_inv_def phase_inv_def pq_inv_def)
  from live_set_queue [OF this] r p show ?thesis by (auto simp: aging_scan_def set_queue_def)
qed

lemma aging_good:
  assumes inv: "live_inv s p ls" and p: "pool s = Some p" and ready: "aging_ready s" and env: "env_ok e s"
  shows "good (aging_step e s)"
proof -
  have pc: "apc s \<noteq> A_None" using ready by (auto simp: aging_ready_def)
  have sync: "pause_mutex p = (if holds_pause (apc s) then MHeld else MFree)"
    "aging_mutex p = (if holds_aging (apc s) then MHeld else MFree)" "aging_interval_ms p < 2 ^ 63"
    using inv by (simp_all add: live_inv_def sync_inv_def)
  note moves = aging_mutex_moves [OF inv p pc] and pause = pause_mutex_moves [OF inv p pc]
  have move: "good (Some (ago x s))"
    if "x \<noteq> A_None" "holds_pause x = holds_pause (apc s)" "holds_aging x = holds_aging (apc s)" for x
    using live_ago_same [OF inv pc that] p by (auto intro!: goodI)
  have scan: "good (do { s \<leftarrow> aging_scan e (int src) (int dst) s; Some (ago x s) })"
    if "src < 3" "dst < 3" "src \<noteq> dst" "x \<noteq> A_None" "holds_pause x = holds_pause (apc s)"
      "holds_aging x = holds_aging (apc s)" for src dst x
    using live_scan [OF inv p pc env that(1-3)] that(4-) pc by (auto intro!: goodI live_ago_same)
  have ts: "timespec_add_ms (e_clock e) (aging_interval_ms p) \<noteq> None"
    using timespec_add_ms_ok [of "e_clock e" "aging_interval_ms p"] env sync(3) by (auto simp: env_ok_def time_ok_def)
  show ?thesis
  proof (cases "apc s")
    case A_Scan1
    then show ?thesis using scan [of 1 2 A_Flag2]
      by (simp add: aging_step_def priority_defs holds_pause_def holds_aging_def)
  next
    case A_Scan2
    then show ?thesis using scan [of 0 1 A_Loop]
      by (simp add: aging_step_def priority_defs holds_pause_def holds_aging_def)
  next
    case A_Enable
    then show ?thesis using p ts moves(2) [of A_Wait] moves(2) [of A_Exit]
      by (auto simp: aging_step_def holds_pause_def holds_aging_def)
  next
    case A_PauseLock
    then have "pause_mutex p = MFree" using sync by (simp add: holds_pause_def)
    with A_PauseLock show ?thesis using p move [of A_Relock] pause(1) [of A_PauseShutdown]
      by (auto simp: aging_step_def holds_pause_def holds_aging_def)
  next
    case A_PauseEnable
    then show ?thesis using p pause(2) [of A_PauseWait] pause(2) [of A_Relock]
      by (auto simp: aging_step_def holds_pause_def holds_aging_def)
  next
    case A_PauseShutdown
    then show ?thesis using p move [of A_PauseEnable] pause(2) [of A_Relock]
      by (auto simp: aging_step_def holds_pause_def holds_aging_def)
  next
    case A_Shutdown
    then show ?thesis using p move [of A_Enable] moves(2) [of A_Exit]
      by (auto simp: aging_step_def holds_pause_def holds_aging_def)
  next
    case A_Loop
    then show ?thesis using p move [of A_Shutdown] moves(2) [of A_PauseLock]
      by (auto simp: aging_step_def holds_pause_def holds_aging_def)
  qed (use p ready sync moves(1) [of A_Loop] moves(1) [of A_Shutdown] moves(1) [of A_Flag1]
      move [of A_Woken] move [of A_Scan1] move [of A_Flag2] move [of A_Flag3] move [of A_Scan2] move [of A_Loop]
      in \<open>auto simp: aging_step_def aging_ready_def holds_pause_def holds_aging_def\<close>)
qed

section \<open>Spurious wakeups and new calls\<close>

lemma spurious_live:
  assumes step: "spurious_step s s'" and inv: "live_inv s p ls"
  shows "live_inv s' p ls \<and> pool s' = pool s"
  using step
proof cases
  case (pop i)
  with inv show ?thesis by (auto intro!: live_wgo)
next
  case (pause i)
  with inv show ?thesis by (auto intro!: live_wgo)
next
  case (drain i)
  with inv show ?thesis by (auto intro!: live_cgo_same simp: in_control_def)
next
  case destroy
  with inv show ?thesis by (auto intro!: live_wake_owner)
next
  case aging_pause
  with inv show ?thesis by (auto intro!: live_ago_same simp: holds_pause_def holds_aging_def)
qed

lemma call_live:
  assumes call: "call_allowed s pc" and inv: "live_inv s p ls"
  shows "live_inv (ogo pc s) p ls"
proof -
  have idle: "opc s = O_Idle" and pc: "owner_call pc" using call by (simp_all add: call_allowed_def)
  have "aging_rel O_Idle (aging_enable p) (apc s)" using inv idle by (simp add: live_inv_def aging_inv_def)
  then show ?thesis
    using call idle by (intro live_ogo [OF inv])
      (cases pc; auto simp: call_allowed_def owner_call_def phase_defs)+
qed

text \<open>After the release no thread is ready.\<close>

lemma gone_quiet:
  assumes "gone_inv s"
  shows "\<not> worker_ready s i" and "\<not> client_ready s i" and "\<not> owner_ready s" and "\<not> aging_ready s"
proof -
  have g: "opc s = D_Done" "apc s = A_None" "list_all (\<lambda>pc. pc = W_Exit) (wpcs s)"
    "tally cflight (cpcs s) = 0" "list_all (\<lambda>c. \<not> in_control c) (cpcs s)"
    using assms by (simp_all add: gone_inv_def)
  show "\<not> worker_ready s i" using g(3) by (auto simp: worker_ready_def list_all_length)
  show "\<not> owner_ready s" "\<not> aging_ready s" using g(1,2) by (simp_all add: owner_ready_def aging_ready_def)
  show "\<not> client_ready s i"
  proof
    assume r: "client_ready s i"
    then have i: "i < length (cpcs s)" by (simp add: client_ready_def)
    have "cflight (cpcs s ! i) = 0" using cflight_pos [OF i] g(4) by simp
    moreover have "\<not> in_control (cpcs s ! i)" using g(5) i by (simp add: list_all_length)
    ultimately show False using r g(1)
      by (cases "cpcs s ! i")
        (auto simp: client_ready_def client_allowed_def past_spin_def destroying_def in_control_def)
  qed
qed

lemma gone_no_spurious: "gone_inv s \<Longrightarrow> \<not> spurious_step s s'"
  by (auto simp: gone_inv_def list_all_length in_control_def elim!: spurious_step.cases)

section \<open>The invariant is inductive\<close>

lemma tally_zero: "list_all (\<lambda>x. f x = 0) xs \<Longrightarrow> tally f xs = 0"
  by (induction xs) auto

lemma tally_entry:
  assumes "list_all entry cs"
  shows "tally cnode cs = {#}" "tally ccount cs = 0" "tally chold cs = 0" "tally cflight cs = 0"
    "list_all req_ok cs"
proof -
  have "entry c \<Longrightarrow> cnode c = {#} \<and> ccount c = 0 \<and> chold c = 0 \<and> cflight c = 0 \<and> req_ok c" for c
    by (cases c) (auto simp: entry_def)
  with assms show "tally cnode cs = {#}" "tally ccount cs = 0" "tally chold cs = 0" "tally cflight cs = 0"
    "list_all req_ok cs"
    by (auto intro!: tally_zero simp: list_all_iff)
qed

lemma tally_loop: "tally f (replicate n W_Loop) = 0" if "f W_Loop = 0"
  using that by (intro tally_zero) (simp add: list_all_iff)

lemma start_inv:
  assumes "pool_start n s"
  shows "pool_inv s"
proof -
  obtain p where p: "pool s = Some p" and fresh: "fresh_pool n p" and s: "n < 2 ^ 31" "length (cpcs s) < 2 ^ 32"
    "mem s = Map.empty" "wpcs s = replicate n W_Loop" "list_all entry (cpcs s)" "opc s = O_Idle" "apc s = A_None"
    "accepted s = []" "executed s = []"
    using assms by (auto simp: pool_start_def)
  note t = tally_entry [OF s(5)]
  have w: "tally wnode (wpcs s) = {#}" "tally wpend (wpcs s) = {#}" "tally wcount (wpcs s) = 0"
    unfolding s(4) by (simp_all add: tally_loop)
  have "live_inv s p [[], [], []]"
    unfolding live_inv_def
  proof (intro conjI)
    show "pq_inv (mem s) (pool_pq p) [[], [], []]" "not_empty (pool_pq p) = CLive []"
      using fresh pq_fresh_inv by (simp_all add: fresh_pool_def)
    show "mem_inv s [[], [], []]" "job_inv s [[], [], []]" using s t w by (simp_all add: mem_inv_def job_inv_def)
    show "count_inv s p [[], [], []]" using fresh s t w by (simp add: count_inv_def fresh_pool_def)
    show "req_inv s" using s t by (simp add: req_inv_def)
    show "sync_inv s p"
      using fresh s by (auto simp: sync_inv_def fresh_pool_def holds_pause_def holds_aging_def unat_of_nat)
    show "aging_inv s p" using fresh s by (simp add: aging_inv_def fresh_pool_def)
    show "phase_inv s p [[], [], []]" using s by (simp add: phase_inv_def destroying_def past_spin_def past_drain_def)
  qed
  with p show ?thesis by (auto simp: pool_inv_def)
qed

lemma good_simps [simp]: "good (Some t) = pool_inv t" "\<not> good None"
  by (simp_all add: good_def)

lemma thread_step_inv:
  assumes inv: "pool_inv s" and step: "thread_step s t"
  shows "pool_inv t"
proof (cases "pool s")
  case None
  then have "gone_inv s" using inv by (simp add: pool_inv_def)
  from gone_quiet [OF this] step show ?thesis by (auto elim!: thread_step.cases)
next
  case (Some p)
  then obtain ls where "live_inv s p ls" using inv by (auto simp: pool_inv_def)
  note good = worker_good [OF this Some] client_good [OF this Some] owner_good [OF this Some] aging_good [OF this Some]
  from step show ?thesis
  proof cases
    case (worker i e)
    with good(1) [of i e] show ?thesis by simp
  next
    case (client i e)
    with good(2) [of i e] show ?thesis by simp
  next
    case (owner e)
    with good(3) [of e] show ?thesis by simp
  next
    case (aging e)
    with good(4) [of e] show ?thesis by simp
  qed
qed

interpretation pool_run: inductive_invariant "pool_start n" pool_step pool_inv for n
proof
  show "pool_start n s \<Longrightarrow> pool_inv s" for s by (rule start_inv)
  show "pool_inv t" if inv: "pool_inv s" and step: "pool_step s t" for s t
    using step
  proof cases
    case thread
    with inv show ?thesis by (rule thread_step_inv)
  next
    case spurious
    show ?thesis
    proof (cases "pool s")
      case None
      with inv spurious gone_no_spurious show ?thesis by (auto simp: pool_inv_def)
    next
      case (Some p)
      with inv obtain ls where "live_inv s p ls" by (auto simp: pool_inv_def)
      with spurious_live [OF spurious this] Some show ?thesis by (auto simp: pool_inv_def)
    qed
  next
    case (call pc)
    with inv show ?thesis
      using call_live [OF call(2)]
      by (auto simp: pool_inv_def gone_inv_def call_allowed_def split: option.splits)
  qed
qed

lemma reachable_live:
  assumes "reachable (pool_start n) pool_step s" and "pool s = Some p"
  obtains ls where "live_inv s p ls"
  using pool_run.reachable_inv [OF assms(1)] assms(2) by (auto simp: pool_inv_def)

lemma pool_inv_no_fault:
  assumes inv: "pool_inv s"
  shows "\<not> can_fault s"
proof (cases "pool s")
  case None
  then have "gone_inv s" using inv by (simp add: pool_inv_def)
  from gone_quiet [OF this] show ?thesis by (auto simp: can_fault_def)
next
  case (Some p)
  then obtain ls where "live_inv s p ls" using inv by (auto simp: pool_inv_def)
  note good = worker_good [OF this Some] client_good [OF this Some] owner_good [OF this Some] aging_good [OF this Some]
  show ?thesis unfolding can_fault_def using good by (metis good_simps(2))
qed

section \<open>Where calls are accepted\<close>

lemma accepted_simps [simp]:
  "accepted (wgo i w s) = accepted s" "accepted (cgo i c s) = accepted s" "accepted (ogo oc s) = accepted s"
  "accepted (ago ac s) = accepted s" "accepted (set_queue k p h q s) = accepted s"
  "accepted (signal_drain k s) = accepted s" "accepted (broadcast_pause s) = accepted s"
  by (simp_all add: go_defs set_queue_def signal_drain_def broadcast_pause_def)

lemma worker_step_accepted: "worker_step e i s = Some t \<Longrightarrow> accepted t = accepted s"
  by (cases "wpcs s ! i") (auto simp: worker_step_def bind_Some_iff Let_def split: if_splits prod.splits)

lemma submit_step_accepted:
  assumes "submit_step e i s = Some t" and "\<And>a n. cpcs s ! i \<noteq> S_Push a n"
  shows "accepted t = accepted s"
  using assms by (cases "cpcs s ! i")
    (auto simp: submit_step_def bind_Some_iff Let_def split: if_splits prod.splits option.splits)

lemma section_accepted [dest!]:
  "set_paused b s = Some t \<Longrightarrow> accepted t = accepted s" "thread_pool_wake_pause s = Some t \<Longrightarrow> accepted t = accepted s"
  "pool_wake_pq e s = Some t \<Longrightarrow> accepted t = accepted s" "aging_lock s = Some t \<Longrightarrow> accepted t = accepted s"
  "aging_unlock s = Some t \<Longrightarrow> accepted t = accepted s" "pause_lock s = Some t \<Longrightarrow> accepted t = accepted s"
  "pause_unlock s = Some t \<Longrightarrow> accepted t = accepted s" "aging_scan e x y s = Some t \<Longrightarrow> accepted t = accepted s"
  by (auto simp: set_paused_def thread_pool_wake_pause_def pool_wake_pq_def aging_lock_def aging_unlock_def
      pause_lock_def pause_unlock_def aging_scan_def bind_Some_iff split: prod.splits)

lemma control_step_accepted: "control_step e i s = Some t \<Longrightarrow> accepted t = accepted s"
  by (cases "cpcs s ! i") (auto simp: control_step_def bind_Some_iff)

lemma owner_step_accepted: "owner_step e s = Some t \<Longrightarrow> accepted t = accepted s"
  by (cases "opc s") (auto simp: owner_step_def enable_step_def disable_step_def destroy_step_def bind_Some_iff
      Let_def split: if_splits prod.splits)

lemma aging_step_accepted: "aging_step e s = Some t \<Longrightarrow> accepted t = accepted s"
  by (cases "apc s") (auto simp: aging_step_def bind_Some_iff split: if_splits)

lemma thread_step_accepted:
  assumes "thread_step s t" and "\<And>i a n. client_ready s i \<Longrightarrow> cpcs s ! i \<noteq> S_Push a n"
  shows "accepted t = accepted s"
  using assms(1)
proof cases
  case (client i e)
  then show ?thesis
    using assms(2) [of i] submit_step_accepted [of e i s t] control_step_accepted [of e i s t]
    by (auto simp: client_step_def split: if_splits)
qed (auto dest: worker_step_accepted owner_step_accepted aging_step_accepted)

end
