(* ===== verification/Pool_Runs.thy ===== *)
theory Pool_Runs
  imports Pool_Safety
begin

text \<open>
  Concrete runs of the pool's step relation: an executable scheduler that performs a given list
  of moves, and the pool and requests that the examples start from.
\<close>

section \<open>A scheduler\<close>

datatype move = Do_Worker nat | Do_Client nat | Do_Owner | Do_Aging | Do_Call owner_pc

definition fire :: "move \<times> env \<Rightarrow> sys \<Rightarrow> sys option" where
  "fire x s =
     (case x of (m, e) \<Rightarrow>
        if \<not> env_ok e s then None
        else (case m of
           Do_Worker i \<Rightarrow>
             if worker_ready s i \<and> (wpcs s ! i = W_Signal \<longrightarrow> fair_drain s (e_pick e)) then worker_step e i s else None
         | Do_Client i \<Rightarrow> if client_ready s i \<and> fair_pop s (e_pick e) then client_step e i s else None
         | Do_Owner \<Rightarrow> if owner_ready s then owner_step e s else None
         | Do_Aging \<Rightarrow> if aging_ready s then aging_step e s else None
         | Do_Call pc \<Rightarrow> if call_allowed s pc then Some (ogo pc s) else None))"

fun run :: "(move \<times> env) list \<Rightarrow> sys \<Rightarrow> sys option" where
  "run [] s = Some s"
| "run (x # xs) s = Option.bind (fire x s) (run xs)"

lemma fire_step:
  assumes "fire x s = Some t"
  shows "pool_step s t"
proof -
  obtain m e where x: "x = (m, e)" by (cases x)
  have env: "env_ok e s" using assms x by (auto simp: fire_def split: if_splits)
  show ?thesis
  proof (cases m)
    case (Do_Call pc)
    then show ?thesis using assms x by (auto simp: fire_def intro: pool_step.call split: if_splits)
  qed (use assms x env in \<open>auto simp: fire_def intro!: pool_step.thread intro: thread_step.intros split: if_splits\<close>)
qed

lemma run_steps: "run xs s = Some t \<Longrightarrow> pool_step\<^sup>*\<^sup>* s t"
  by (induction xs arbitrary: s) (auto simp: bind_Some_iff intro: fire_step converse_rtranclp_into_rtranclp)

lemma steps_reachable: "pool_step\<^sup>*\<^sup>* s t \<Longrightarrow> reachable init pool_step s \<Longrightarrow> reachable init pool_step t"
  by (induction rule: rtranclp_induct) (auto intro: reachable.advance)

lemma run_reachable: "run xs s = Some t \<Longrightarrow> init s \<Longrightarrow> reachable init pool_step t"
  using steps_reachable [OF run_steps] by (blast intro: reachable.start)

section \<open>Starting points\<close>

definition demo_pool :: thread_pool where
  "demo_pool = sample_raw\<lparr>workers := Some [\<lparr>tid = 100, worker_id = 0, core_id = - 1, busy = False\<rparr>], num_workers := 1,
     pool_pq := pq_fresh, total_task_in_system := 0, shutdown := False, drain_mutex := MFree, drain_cond := CLive [],
     in_flight_submits := 0, paused := False, pause_mutex := MFree, pause_cond := CLive [], aging_mutex := MFree,
     aging_cond := CLive [], aging_enable := False, aging_interval_ms := 0, aging_promote_ms := 0,
     monitor := \<lparr>mon_tid = 0, tid_valid = False, running = False, ever_init = False\<rparr>\<rparr>"

definition demo_start :: "client_pc list \<Rightarrow> sys" where
  "demo_start cs = \<lparr>mem = Map.empty, id_count = 0, pool = Some demo_pool, wpcs = [W_Loop], cpcs = cs, opc = O_Idle,
     apc = A_None, accepted = [], executed = []\<rparr>"

definition demo_req :: request where
  "demo_req = \<lparr>req_fun = Some 7, req_arg = None, req_priority = PRIORITY_MEDIUM\<rparr>"

definition ev :: "ptr \<Rightarrow> nat \<Rightarrow> env" where
  "ev a k = \<lparr>e_malloc = a, e_clock = \<lparr>tv_sec = 1, tv_nsec = 0\<rparr>, e_create = True, e_pick = k\<rparr>"

lemma demo_pool_fresh: "fresh_pool 1 demo_pool"
  by (simp add: fresh_pool_def demo_pool_def fresh_workers_def)

lemma demo_start_ok: "list_all entry cs \<Longrightarrow> length cs < 2 ^ 32 \<Longrightarrow> pool_start 1 (demo_start cs)"
  using demo_pool_fresh by (auto simp: pool_start_def demo_start_def)

lemma run_ends:
  assumes "case run xs s of None \<Rightarrow> False | Some t \<Rightarrow> P t"
  shows "\<exists>t. pool_step\<^sup>*\<^sup>* s t \<and> P t"
  using assms run_steps [of xs s] by (auto split: option.splits)

lemma run_reaches:
  assumes "pool_start n s" and "case run xs s of None \<Rightarrow> False | Some t \<Rightarrow> P t"
  shows "\<exists>t. reachable (pool_start n) pool_step t \<and> P t"
  using assms run_reachable [of xs s _ "pool_start n"] by (auto split: option.splits)

text \<open>No thread can move: what is left are spurious wakeups and new calls.\<close>

definition stuck :: "sys \<Rightarrow> bool" where
  "stuck s \<longleftrightarrow> list_all (\<lambda>i. \<not> worker_ready s i) [0 ..< length (wpcs s)] \<and>
     list_all (\<lambda>i. \<not> client_ready s i) [0 ..< length (cpcs s)] \<and> \<not> owner_ready s \<and> \<not> aging_ready s"

lemma stuck_no_step: "stuck s \<Longrightarrow> \<not> thread_step s t"
proof
  assume "stuck s" and "thread_step s t"
  from this(2) this(1) show False
    by cases (auto simp: stuck_def list_all_iff worker_ready_def client_ready_def)
qed

section \<open>Schedules\<close>

definition quiet :: env where "quiet = ev None 0"

definition cl :: "nat \<Rightarrow> nat \<Rightarrow> (move \<times> env) list" where "cl n i = replicate n (Do_Client i, quiet)"
definition wk :: "nat \<Rightarrow> nat \<Rightarrow> (move \<times> env) list" where "wk n i = replicate n (Do_Worker i, quiet)"
definition ow :: "nat \<Rightarrow> (move \<times> env) list" where "ow n = replicate n (Do_Owner, quiet)"

text \<open>Client \<open>i\<close> runs \<^verbatim>\<open>thread_pool_submit\<close> to its end; its task gets address \<open>a\<close>.\<close>

definition submit_all :: "nat \<Rightarrow> addr \<Rightarrow> (move \<times> env) list" where
  "submit_all i a = cl 4 i @ [(Do_Client i, ev (Some a) 0)] @ cl 4 i"

lemma highest_of_medium: "get_highest_priority 2 = Some 1"
  by code_simp

lemma free_lanes_eval: "free_lane h None = Some h" "free_lanes 3 h q p = free_lanes (Suc (Suc (Suc 0))) h q p"
  by (simp_all add: free_lane.simps numeral_3_eq_3)

lemmas run_defs = fire_def env_ok_def worker_ready_def worker_step_def client_ready_def client_allowed_def
  client_step_def is_submit_def submit_step_def control_step_def owner_ready_def owner_step_def destroy_step_def
  disable_step_def call_allowed_def owner_call_def fair_pop_def fair_drain_def go_defs aging_ready_def
  demo_start_def demo_pool_def demo_req_def ev_def sample_raw_def pq_zero_def task_load_def time_ok_def
  past_spin_def destroying_def in_control_def Let_def quiet_def cl_def wk_def ow_def submit_all_def stuck_def
lemmas queue_eval = pq_is_full_approx_def task_create_def task_destroy_def pq_try_push_def pq_insert_locked_def
  pq_lock_def pq_unlock_def pq_signal_def pq_broadcast_def mask_set_def mask_clear_def shift_1UL_def array_get_def
  array_set_def pq_pop_until_shutdown_def shutdown_requested_def priority_defs pq_wake_all_def
  pq_pop_locked_def highest_of_medium pq_set_max_tasks_def
lemmas pool_eval = set_queue_def wakes_def wake_pop_def set_busy_def call_of_def signal_drain_def drain_waiter_def
  thread_pool_wake_pause_def broadcast_pause_def wake_pause_def drain_round_def pool_wake_pq_def set_paused_def
  after_disable_def pause_free_def aging_free_def thread_pool_set_max_tasks_def release_pool_def pq_destroy_def
  free_lanes_eval
lemmas run_eval = run_defs queue_eval pool_eval replicate_numeral

end
