(* ===== verification/Pool_Properties.thy ===== *)
theory Pool_Properties
  imports Pool_Runs
begin

text \<open>
  What the invariant of the pool's step relation shows about every run, and four runs that
  depart from the documented behaviour.
\<close>

section \<open>Concrete schedules\<close>

text \<open>A whole life: one task is submitted and executed, then the pool is destroyed.\<close>

definition life_run :: "(move \<times> env) list" where
  "life_run = submit_all 0 1 @ wk 9 0 @ [(Do_Call D_Enter, quiet)] @ ow 5 @ wk 1 0 @ ow 6"

text \<open>
  A client passes the shutdown check of \<^verbatim>\<open>thread_pool_submit\<close>, then \<^verbatim>\<open>thread_pool_destroy\<close> sets the
  flag, the idle worker leaves, and only then the client pushes its task.
\<close>

definition late_push_run :: "(move \<times> env) list" where
  "late_push_run = cl 2 0 @ [(Do_Call D_Enter, quiet)] @ ow 1 @ wk 2 0 @
     cl 2 0 @ [(Do_Client 0, ev (Some 1) 0)] @ cl 4 0 @ ow 6"

text \<open>
  Capacity 1: client 3 counts its task before client 0 fills the queue, its push is refused, the
  worker finishes the task of client 0, client 1 starts to wait, and client 3 rolls back.
\<close>

definition rollback_run :: "(move \<times> env) list" where
  "rollback_run = cl 1 2 @ cl 4 3 @ [(Do_Client 3, ev (Some 2) 0)] @ cl 2 3 @ submit_all 0 1 @ cl 1 3 @ wk 7 0 @
     cl 2 1 @ cl 3 3 @ wk 2 0"

text \<open>Clients 1 and 2 both wait for the task of client 0.\<close>

definition two_waiters_run :: "(move \<times> env) list" where
  "two_waiters_run = submit_all 0 1 @ cl 2 1 @ cl 2 2 @ wk 7 0 @ [(Do_Worker 0, ev None 1)] @ wk 2 0 @ cl 1 1"

text \<open>The worker waits for a task; client 1 pauses the pool, and the worker goes back to waiting.\<close>

definition paused_run :: "(move \<times> env) list" where
  "paused_run = wk 2 0 @ cl 2 1 @ wk 1 0"

definition after_pause_run :: "(move \<times> env) list" where
  "after_pause_run = submit_all 0 1 @ wk 4 0"

lemmas schedule_defs = life_run_def late_push_run_def rollback_run_def two_waiters_run_def paused_run_def
  after_pause_run_def

lemma demo_entries [simp]:
  "entry (S_Enter demo_req)" "entry T_Enter" "entry P_Enter" "entry (M_Enter n)"
  by (simp_all add: entry_def demo_req_def valid_priority_def priority_defs)

lemma demo_starts:
  "pool_start 1 (demo_start [S_Enter demo_req])"
  "pool_start 1 (demo_start [S_Enter demo_req, T_Enter])"
  "pool_start 1 (demo_start [S_Enter demo_req, T_Enter, M_Enter 1, S_Enter demo_req])"
  "pool_start 1 (demo_start [S_Enter demo_req, T_Enter, T_Enter])"
  "pool_start 1 (demo_start [S_Enter demo_req, P_Enter])"
  by (rule demo_start_ok; simp)+

lemma life_run_ends:
  "\<exists>s. reachable (pool_start 1) pool_step s \<and> opc s = D_Done \<and> executed s = [(0, Some 7, None)]"
  by (rule run_reaches [OF demo_starts(1), where xs = life_run])
    (simp add: schedule_defs run_eval)

section \<open>Safety\<close>

text \<open>
  C1: No reachable state of the pool can fault. Under any interleaving of the workers, the aging
  thread, the owner and any number of clients, no thread accesses a freed task or a freed pool,
  frees a task twice, leaves an array, overflows a signed integer, unlocks a mutex it does not
  hold or uses a destroyed one, provided the callers respect the contract of the calls.
\<close>

theorem pool_never_faults:
  assumes "reachable (pool_start n) pool_step s"
  shows "\<not> can_fault s"
  using pool_inv_no_fault [OF pool_run.reachable_inv [OF assms]] .

theorem pool_never_faults_witness: "\<not> can_fault (demo_start [S_Enter demo_req])"
  using pool_never_faults [OF reachable.start [of "pool_start 1", OF demo_starts(1)]] .

text \<open>
  C2: \<^verbatim>\<open>thread_pool_destroy\<close> is a graceful shutdown: when it returns, every accepted call has been
  executed exactly once, every task has been freed, all workers and the aging thread have
  terminated, and the pool object is freed.
\<close>

theorem destroy_is_graceful:
  assumes "reachable (pool_start n) pool_step s" and "opc s = D_Done"
  shows "mset (executed s) = mset (accepted s) \<and> mem s = Map.empty \<and> pool s = None \<and>
    list_all (\<lambda>pc. pc = W_Exit) (wpcs s) \<and> apc s = A_None"
proof -
  have inv: "pool_inv s" using assms(1) by (rule pool_run.reachable_inv)
  then have "gone_inv s \<and> pool s = None"
    using assms(2) by (cases "pool s") (auto simp: pool_inv_def live_inv_def phase_inv_def)
  then show ?thesis by (simp add: gone_inv_def)
qed

theorem destroy_is_graceful_witness:
  "\<exists>s. reachable (pool_start 1) pool_step s \<and> opc s = D_Done \<and> executed s = [(0, Some 7, None)] \<and>
    mset (accepted s) = {#(0, Some 7, None)#} \<and> mem s = Map.empty \<and> pool s = None"
proof -
  obtain s where s: "reachable (pool_start 1) pool_step s" "opc s = D_Done" "executed s = [(0, Some 7, None)]"
    using life_run_ends by blast
  with destroy_is_graceful [OF s(1,2)] show ?thesis by auto
qed

text \<open>
  C3: In every reachable state the accepted calls are, as a multiset, the executed calls together
  with the calls of the queued tasks and of the tasks that workers have taken and not started:
  no accepted call is lost, duplicated or executed twice. Every allocated task is owned exactly
  once, so that no task leaks.
\<close>

theorem every_call_accounted_for:
  assumes "reachable (pool_start n) pool_step s" and "pool s = Some p"
  shows "\<exists>ls. pq_inv (mem s) (pool_pq p) ls \<and>
    mset (accepted s) =
      mset (executed s) + image_mset (call_at (mem s)) (mset (concat ls) + tally wpend (wpcs s)) \<and>
    mset (concat ls) + tally wnode (wpcs s) + tally cnode (cpcs s) = mset_set (dom (mem s))"
proof -
  obtain ls where "live_inv s p ls" using reachable_live [OF assms] .
  then show ?thesis unfolding live_inv_def job_inv_def mem_inv_def by blast
qed

theorem every_call_accounted_for_witness:
  "\<exists>ls. pq_inv (mem (demo_start [S_Enter demo_req])) (pool_pq demo_pool) ls \<and> concat ls = []"
proof -
  have p: "pool (demo_start [S_Enter demo_req]) = Some demo_pool" by (simp add: demo_start_def)
  have m: "dom (mem (demo_start [S_Enter demo_req])) = {}" by (simp add: demo_start_def)
  from every_call_accounted_for [OF reachable.start [of "pool_start 1", OF demo_starts(1)] p] m
  show ?thesis by auto
qed

text \<open>
  C4: \<^verbatim>\<open>total_task_in_system\<close>, read as a signed integer, is exactly the number of queued tasks plus
  the tasks that workers have not yet accounted for plus the tasks that clients have counted and
  not yet pushed or rolled back; it never wraps and is never negative.
\<close>

theorem task_counter_exact:
  assumes "reachable (pool_start n) pool_step s" and "pool s = Some p"
  shows "\<exists>ls. pq_inv (mem s) (pool_pq p) ls \<and>
    sint (total_task_in_system p) =
      int (length (concat ls) + tally wcount (wpcs s) + tally ccount (cpcs s)) \<and>
    unat (in_flight_submits p) = tally cflight (cpcs s)"
proof -
  obtain ls where inv: "live_inv s p ls" using reachable_live [OF assms] .
  have "in_flight_submits p = of_nat (tally cflight (cpcs s))" "tally cflight (cpcs s) < 2 ^ 32"
    using inv cflight_bound [of "cpcs s"] by (simp_all add: live_inv_def count_inv_def)
  then have "unat (in_flight_submits p) = tally cflight (cpcs s)" by (simp add: unat_of_nat)
  with inv count_inv_total [of s p ls] show ?thesis by (auto simp: live_inv_def)
qed

theorem task_counter_exact_witness:
  "\<exists>s p ls. reachable (pool_start 1) pool_step s \<and> pool s = Some p \<and> pq_inv (mem s) (pool_pq p) ls \<and>
    sint (total_task_in_system p) = 1 \<and> length (concat ls) = 1"
proof -
  have "case run (submit_all 0 1) (demo_start [S_Enter demo_req]) of None \<Rightarrow> False
    | Some s \<Rightarrow> \<exists>p. pool s = Some p \<and> sint (total_task_in_system p) = 1 \<and> wpcs s = [W_Loop] \<and> cpcs s = [S_Done (Accepted 0)]"
    by (simp add: run_eval)
  from run_reaches [OF demo_starts(1) this] obtain s p where s: "reachable (pool_start 1) pool_step s" "pool s = Some p" "sint (total_task_in_system p) = 1"
      "wpcs s = [W_Loop]" "cpcs s = [S_Done (Accepted 0)]"
    by blast
  then show ?thesis using task_counter_exact [OF s(1,2)] by auto
qed

text \<open>
  C5: When the loop of \<^verbatim>\<open>thread_pool_wait\<close> lets its caller return, every call accepted up to that
  moment has been executed, and no task is queued or held by a worker.
\<close>

theorem wait_returns_drained:
  assumes reach: "reachable (pool_start n) pool_step s" and i: "i < length (cpcs s)" "cpcs s ! i = T_Drain"
    and step: "client_step e i s = Some s'" and ret: "cpcs s' ! i = C_Done"
  shows "mset (executed s) = mset (accepted s) \<and> tally wcount (wpcs s) = 0"
proof -
  have "client_step e i s = control_step e i s" using i by (simp add: client_step_def is_submit_def)
  with step have "control_step e i s = Some s'" by simp
  then obtain w where w: "drain_round s = Some w" "s' = cgo i (if w then T_DrainWait else C_Done) s"
    using i by (auto simp: control_step_def bind_Some_iff)
  then have "\<not> w" using ret i by (auto simp: cgo_def split: if_splits)
  obtain p where p: "pool s = Some p" using w(1) by (auto simp: drain_round_def bind_Some_iff)
  obtain ls where inv: "live_inv s p ls" using reachable_live [OF reach p] .
  have "concat ls = []" "tally wcount (wpcs s) = 0"
    using drain_round_ok [OF inv p] w(1) \<open>\<not> w\<close> by auto
  moreover from this(2) have "tally wpend (wpcs s) = {#}" by (rule no_wcount)
  ultimately show ?thesis using inv by (simp add: live_inv_def job_inv_def)
qed

theorem wait_returns_drained_witness:
  "\<exists>s s'. reachable (pool_start 1) pool_step s \<and> client_step quiet 1 s = Some s' \<and> cpcs s' ! 1 = C_Done \<and>
    mset (executed s) = mset (accepted s)"
proof -
  have "case run (cl 1 1) (demo_start [S_Enter demo_req, T_Enter]) of None \<Rightarrow> False
    | Some s \<Rightarrow> 1 < length (cpcs s) \<and> cpcs s ! 1 = T_Drain \<and> (\<exists>s'. client_step quiet 1 s = Some s' \<and> cpcs s' ! 1 = C_Done)"
    by (simp add: run_eval)
  from run_reaches [OF demo_starts(2) this] obtain s where s: "reachable (pool_start 1) pool_step s" "1 < length (cpcs s)" "cpcs s ! 1 = T_Drain"
      "\<exists>s'. client_step quiet 1 s = Some s' \<and> cpcs s' ! 1 = C_Done"
    by blast
  then show ?thesis using wait_returns_drained [OF s(1-3)] by blast
qed



section \<open>Runs that depart from the documentation\<close>

text \<open>
  C16: \<^verbatim>\<open>thread_pool_destroy\<close> can hang. A call of \<^verbatim>\<open>thread_pool_submit\<close> that overlaps with it may push
  its task after the last worker has seen the shutdown flag with an empty queue and has left: the
  task is accepted and never executed, and the owner waits for it forever.
\<close>

theorem destroy_can_hang:
  "\<exists>s. reachable (pool_start 1) pool_step s \<and> opc s = D_DrainWait \<and> wpcs s = [W_Exit] \<and>
    cpcs s = [S_Done (Accepted 0)] \<and> accepted s = [(0, Some 7, None)] \<and> executed s = [] \<and>
    (\<forall>t. \<not> thread_step s t)"
proof -
  have "case run (late_push_run) (demo_start [S_Enter demo_req]) of None \<Rightarrow> False
    | Some s \<Rightarrow> opc s = D_DrainWait \<and> wpcs s = [W_Exit] \<and> cpcs s = [S_Done (Accepted 0)] \<and>
          accepted s = [(0, Some 7, None)] \<and> executed s = [] \<and> stuck s"
    by (simp add: schedule_defs run_eval)
  from run_reaches [OF demo_starts(1) this] obtain s where "reachable (pool_start 1) pool_step s" "opc s = D_DrainWait" "wpcs s = [W_Exit]"
    "cpcs s = [S_Done (Accepted 0)]" "accepted s = [(0, Some 7, None)]" "executed s = []" "stuck s"
    by blast
  then show ?thesis using stuck_no_step by blast
qed

text \<open>
  C17: \<^verbatim>\<open>thread_pool_wait\<close> can miss its wakeup. When the authoritative capacity check refuses a task,
  \<^verbatim>\<open>thread_pool_submit\<close> takes the task out of \<^verbatim>\<open>total_task_in_system\<close> without signalling
  \<^verbatim>\<open>drain_cond\<close>: a waiting client stays blocked although no task is left and no thread can move.
\<close>

theorem rollback_loses_wakeup:
  "\<exists>s p. reachable (pool_start 1) pool_step s \<and> pool s = Some p \<and> total_task_in_system p = 0 \<and>
    cpcs s = [S_Done (Accepted 1), T_DrainWait, C_Done, S_Done (Rejected EAGAIN)] \<and>
    mset (executed s) = mset (accepted s) \<and> (\<forall>t. \<not> thread_step s t)"
proof -
  have "case run (rollback_run) (demo_start [S_Enter demo_req, T_Enter, M_Enter 1, S_Enter demo_req]) of None \<Rightarrow> False
    | Some s \<Rightarrow> \<exists>p. pool s = Some p \<and> total_task_in_system p = 0 \<and>
          cpcs s = [S_Done (Accepted 1), T_DrainWait, C_Done, S_Done (Rejected EAGAIN)] \<and>
          mset (executed s) = mset (accepted s) \<and> stuck s"
    by (simp add: schedule_defs run_eval)
  from run_reaches [OF demo_starts(3) this] obtain s p where "reachable (pool_start 1) pool_step s" "pool s = Some p" "total_task_in_system p = 0"
    "cpcs s = [S_Done (Accepted 1), T_DrainWait, C_Done, S_Done (Rejected EAGAIN)]"
    "mset (executed s) = mset (accepted s)" "stuck s"
    by blast
  then show ?thesis using stuck_no_step by blast
qed

text \<open>
  C18: Two clients in \<^verbatim>\<open>thread_pool_wait\<close> do not both return: the worker that finishes the last task
  uses \<^verbatim>\<open>pthread_cond_signal\<close>, which wakes one of them; the other stays blocked with no task left.
\<close>

theorem second_waiter_stays_blocked:
  "\<exists>s p. reachable (pool_start 1) pool_step s \<and> pool s = Some p \<and> total_task_in_system p = 0 \<and>
    cpcs s = [S_Done (Accepted 0), C_Done, T_DrainWait] \<and> (\<forall>t. \<not> thread_step s t)"
proof -
  have "case run (two_waiters_run) (demo_start [S_Enter demo_req, T_Enter, T_Enter]) of None \<Rightarrow> False
    | Some s \<Rightarrow> \<exists>p. pool s = Some p \<and> total_task_in_system p = 0 \<and>
          cpcs s = [S_Done (Accepted 0), C_Done, T_DrainWait] \<and> stuck s"
    by (simp add: schedule_defs run_eval)
  from run_reaches [OF demo_starts(4) this] obtain s p where "reachable (pool_start 1) pool_step s" "pool s = Some p" "total_task_in_system p = 0"
    "cpcs s = [S_Done (Accepted 0), C_Done, T_DrainWait]" "stuck s"
    by blast
  then show ?thesis using stuck_no_step by blast
qed

text \<open>
  \<^verbatim>\<open>thread_pool_pause\<close> does not stop a worker that waits in \<^verbatim>\<open>pq_pop_until_shutdown\<close>: from a state in
  which the call has returned, the pool is paused and nothing has been submitted, a task that is
  submitted afterwards is executed while the pool stays paused.
\<close>

theorem paused_pool_executes:
  "\<exists>s t p q. reachable (pool_start 1) pool_step s \<and> pool s = Some p \<and> paused p \<and> accepted s = [] \<and>
    cpcs s = [S_Enter demo_req, C_Done] \<and> pool_step\<^sup>*\<^sup>* s t \<and> pool t = Some q \<and> paused q \<and>
    executed t = [(0, Some 7, None)]"
proof -
  have "case run (paused_run) (demo_start [S_Enter demo_req, P_Enter]) of None \<Rightarrow> False
    | Some s \<Rightarrow> \<exists>p. pool s = Some p \<and> paused p \<and> accepted s = [] \<and> cpcs s = [S_Enter demo_req, C_Done] \<and>
          (case run after_pause_run s of None \<Rightarrow> False
            | Some t \<Rightarrow> \<exists>q. pool t = Some q \<and> paused q \<and> executed t = [(0, Some 7, None)])"
    by (simp add: schedule_defs run_eval)
  from run_reaches [OF demo_starts(5) this] obtain s p where "reachable (pool_start 1) pool_step s" "pool s = Some p" "paused p" "accepted s = []"
    "cpcs s = [S_Enter demo_req, C_Done]"
    and "case run after_pause_run s of None \<Rightarrow> False
      | Some t \<Rightarrow> \<exists>q. pool t = Some q \<and> paused q \<and> executed t = [(0, Some 7, None)]"
    by blast
  with run_ends [OF this(6)] show ?thesis by blast
qed

end
