(* ===== verification/Baseline_Queue.thy ===== *)
theory Baseline_Queue
  imports Priority_Queue
begin

text \<open>
  The FIFO of the baseline pool (\<^verbatim>\<open>src/baseline/baseline.c\<close>): one linked list with a head and a
  tail pointer, a mutex and a condition variable. It is a second provider of the queue
  interface, with a single lane.
\<close>

section \<open>Data\<close>

record baseline_task_t =
  b_task_id :: u16
  b_func :: ptr
  b_arg :: ptr
  b_next :: ptr

type_synonym b_heap = "addr \<rightharpoonup> baseline_task_t"

record baseline_queue_t =
  q_head :: ptr
  q_tail :: ptr
  q_mutex :: mutex
  q_cond :: cond

definition b_links :: "b_heap \<Rightarrow> links" where
  "b_links h a = map_option b_next (h a)"

section \<open>Operations\<close>

definition q_push :: "b_heap \<Rightarrow> baseline_queue_t \<Rightarrow> addr \<Rightarrow> (int \<times> b_heap \<times> baseline_queue_t) option" where
  "q_push h q task = do {
     m \<leftarrow> mutex_lock (q_mutex q);
     let q = q\<lparr>q_mutex := m\<rparr>;
     (h, q) \<leftarrow>
       (case q_tail q of
          Some b \<Rightarrow> do { last_node \<leftarrow> h b; Some (h(b \<mapsto> last_node\<lparr>b_next := Some task\<rparr>), q) }
        | None \<Rightarrow> Some (h, q\<lparr>q_head := Some task\<rparr>));
     let q = q\<lparr>q_tail := Some task\<rparr>;
     m \<leftarrow> mutex_unlock (q_mutex q);
     let q = q\<lparr>q_mutex := m\<rparr>;
     c \<leftarrow> cond_signal (q_cond q);
     Some (0, h, q\<lparr>q_cond := c\<rparr>) }"

text \<open>One run of the loop body, as for the priority queue.\<close>

definition q_pop_until_shutdown ::
  "b_heap \<Rightarrow> baseline_queue_t \<Rightarrow> bool \<Rightarrow> (pop_result \<times> b_heap \<times> baseline_queue_t) option" where
  "q_pop_until_shutdown h q flag = do {
     m \<leftarrow> mutex_lock (q_mutex q);
     let q = q\<lparr>q_mutex := m\<rparr>;
     (case q_head q of
        None \<Rightarrow> do {
          m \<leftarrow> mutex_unlock (q_mutex q);
          Some (if flag then PopNull else PopWait, h, q\<lparr>q_mutex := m\<rparr>) }
      | Some task \<Rightarrow> do {
          t \<leftarrow> h task;
          let q = q\<lparr>q_head := b_next t\<rparr>;
          let q = (if q_head q = None then q\<lparr>q_tail := None\<rparr> else q);
          m \<leftarrow> mutex_unlock (q_mutex q);
          Some (PopTask task, h, q\<lparr>q_mutex := m\<rparr>) }) }"

definition q_wake_all :: "baseline_queue_t \<Rightarrow> (int \<times> baseline_queue_t) option" where
  "q_wake_all q = do {
     m \<leftarrow> mutex_lock (q_mutex q);
     c \<leftarrow> cond_broadcast (q_cond q);
     m \<leftarrow> mutex_unlock m;
     Some (0, q\<lparr>q_mutex := m, q_cond := c\<rparr>) }"

text \<open>The node that \<^verbatim>\<open>baseline_pool_submit\<close> fills in; \<^verbatim>\<open>task_id\<close> keeps what the memory held.\<close>

definition new_task :: "u16 \<Rightarrow> ptr \<Rightarrow> ptr \<Rightarrow> baseline_task_t" where
  "new_task garbage fn a = \<lparr>b_task_id = garbage, b_func = fn, b_arg = a, b_next = None\<rparr>"

section \<open>The invariant\<close>

definition q_inv :: "b_heap \<Rightarrow> baseline_queue_t \<Rightarrow> addr list \<Rightarrow> bool" where
  "q_inv h q xs \<longleftrightarrow> lane (b_links h) (q_head q) (q_tail q) xs \<and> q_mutex q = MFree \<and> q_cond q \<noteq> CUninit"

lemma b_links_upd [simp]: "b_links (h(a \<mapsto> t)) = (b_links h)(a := Some (b_next t))"
  by (auto simp: b_links_def)

lemma b_links_None_iff [simp]: "b_links h a = None \<longleftrightarrow> h a = None"
  by (simp add: b_links_def)

lemma q_inv_outside:
  assumes "q_inv h q xs" and "\<And>a. a \<in> set xs \<Longrightarrow> h' a = h a"
  shows "q_inv h' q xs"
proof -
  have "lane (b_links h') (q_head q) (q_tail q) xs = lane (b_links h) (q_head q) (q_tail q) xs"
    using assms(2) by (intro lane_frame) (simp add: b_links_def)
  with assms(1) show ?thesis by (simp add: q_inv_def)
qed

text \<open>What a queue operation keeps of the nodes.\<close>

definition b_call :: "baseline_task_t \<Rightarrow> ptr \<times> ptr" where
  "b_call t = (b_func t, b_arg t)"

definition same_calls :: "b_heap \<Rightarrow> b_heap \<Rightarrow> bool" where
  "same_calls h h' \<longleftrightarrow> (\<forall>a. map_option b_call (h' a) = map_option b_call (h a))"

lemma q_push_ok:
  assumes inv: "q_inv h q xs" and t: "h a = Some t" "b_next t = None" and fresh: "a \<notin> set xs"
  shows "\<exists>h' q'. q_push h q a = Some (0, h', q') \<and> q_inv h' q' (xs @ [a]) \<and> same_calls h h' \<and>
    (\<forall>x. x \<notin> set xs \<longrightarrow> h' x = h x) \<and> (\<forall>l. q_cond q = CLive l \<longrightarrow> q_cond q' = CLive (Signal # l))"
proof -
  have lane: "lane (b_links h) (q_head q) (q_tail q) xs" and m: "q_mutex q = MFree"
    using inv by (auto simp: q_inv_def)
  obtain l where l: "q_cond q = CLive l" using inv by (cases "q_cond q") (auto simp: q_inv_def)
  show ?thesis
  proof (cases "q_tail q")
    case None
    then have xs: "xs = []" using lane_tail_None [OF lane] by simp
    have "lane (b_links h) (Some a) (Some a) [a]" using t by (simp add: lane_Cons_iff b_links_def)
    with None m l xs show ?thesis by (simp add: q_push_def q_inv_def same_calls_def)
  next
    case (Some b)
    have b: "xs \<noteq> []" "b = last xs" using lane Some by (auto simp: lane_def tail_of_def split: if_splits)
    then have "b \<in> set xs" by simp
    then have "b_links h b \<noteq> None" using lane_allocated [OF lane] by blast
    then obtain tb where tb: "h b = Some tb" by (auto simp: b_links_def)
    let ?h = "h(b \<mapsto> tb\<lparr>b_next := Some a\<rparr>)"
    have "a \<noteq> b" using fresh \<open>b \<in> set xs\<close> by auto
    then have links: "b_links ?h = (b_links h)(b := Some (Some a), a := Some None)"
      using t by (auto simp: b_links_def)
    have "lane (b_links ?h) (q_head q) (Some a) (xs @ [a])"
      unfolding links using lane Some fresh by (intro lane_snoc) simp_all
    moreover have "same_calls h ?h" using tb by (simp add: same_calls_def b_call_def)
    ultimately show ?thesis using Some m l tb \<open>b \<in> set xs\<close> by (auto simp: q_push_def q_inv_def)
  qed
qed

lemma q_pop_task:
  assumes inv: "q_inv h q (a # xs)"
  shows "\<exists>q'. q_pop_until_shutdown h q flag = Some (PopTask a, h, q') \<and> q_inv h q' xs \<and> q_cond q' = q_cond q \<and> h a \<noteq> None"
proof -
  have lane: "lane (b_links h) (q_head q) (q_tail q) (a # xs)" and m: "q_mutex q = MFree"
    using inv by (auto simp: q_inv_def)
  obtain z where z: "b_links h a = Some z" "lane (b_links h) z (tail_of xs) xs" "q_head q = Some a"
    "q_tail q = Some (last (a # xs))"
    using lane by (auto simp: lane_Cons_iff)
  then obtain t where t: "h a = Some t" "b_next t = z" by (auto simp: b_links_def)
  have "z = None \<longleftrightarrow> xs = []" using lane_head_None [OF z(2)] .
  with z t m inv show ?thesis
    by (cases xs) (auto simp: q_pop_until_shutdown_def q_inv_def tail_of_def Let_def)
qed

lemma q_pop_empty:
  assumes "q_inv h q []"
  shows "q_pop_until_shutdown h q flag = Some (if flag then PopNull else PopWait, h, q)"
  using assms by (simp add: q_pop_until_shutdown_def q_inv_def)

lemma q_wake_all_ok:
  assumes "q_inv h q xs"
  shows "\<exists>q'. q_wake_all q = Some (0, q') \<and> q_inv h q' xs \<and> (\<forall>l. q_cond q = CLive l \<longrightarrow> q_cond q' = CLive (Broadcast # l))"
  using assms by (cases "q_cond q") (auto simp: q_wake_all_def q_inv_def)

section \<open>The queue interface\<close>

definition b_rep :: "b_heap \<times> baseline_queue_t \<Rightarrow> addr lanes \<Rightarrow> bool" where
  "b_rep q L \<longleftrightarrow> (\<exists>xs. L = [xs] \<and> q_inv (fst q) (snd q) xs)"

definition b_lane_of :: "b_heap \<times> baseline_queue_t \<Rightarrow> addr \<Rightarrow> nat option" where
  "b_lane_of q = (\<lambda>a. Some 0)"

text \<open>Fill in a node at a fresh address and push it, as \<^verbatim>\<open>baseline_pool_submit\<close> does.\<close>

definition b_enqueue ::
  "u16 \<Rightarrow> ptr \<Rightarrow> ptr \<Rightarrow> b_heap \<times> baseline_queue_t \<Rightarrow> addr \<Rightarrow> (b_heap \<times> baseline_queue_t) option" where
  "b_enqueue g fn ar q a = do {
     (_, h, q') \<leftarrow> q_push ((fst q)(a \<mapsto> new_task g fn ar)) (snd q) a;
     Some (h, q') }"

text \<open>A pop with the shutdown flag set, which returns NULL on an empty queue instead of waiting.\<close>

definition b_dequeue :: "b_heap \<times> baseline_queue_t \<Rightarrow> (ptr \<times> b_heap \<times> baseline_queue_t) option" where
  "b_dequeue q = do {
     (r, h, q') \<leftarrow> q_pop_until_shutdown (fst q) (snd q) True;
     Some (case r of PopTask a \<Rightarrow> Some a | _ \<Rightarrow> None, h, q') }"

lemma lanes_single:
  "lanes_push 0 x [xs] = [xs @ [x]]" "lanes_pop [[]] = None" "lanes_pop [x # xs] = Some (x, [xs])"
  by (simp_all add: lanes_push_def lanes_pop_def top_lane_def)

interpretation fifo: priority_lanes b_rep b_lane_of "b_enqueue g fn ar" b_dequeue for g fn ar
proof unfold_locales
  fix q :: "b_heap \<times> baseline_queue_t" and L x p
  obtain h bq where q: "q = (h, bq)" by (cases q)
  assume "b_rep q L"
  then obtain xs where L: "L = [xs]" and inv: "q_inv h bq xs" by (auto simp: q b_rep_def)
  then show "distinct (concat L)" by (simp add: q_inv_def lane_def)
  {
    assume "b_lane_of q x = Some p"
    then have p: "p = 0" by (simp add: b_lane_of_def)
    then show "p < length L" by (simp add: L)
    assume x: "x \<notin> set (concat L)"
    have "q_inv (h(x \<mapsto> new_task g fn ar)) bq xs" using x by (intro q_inv_outside [OF inv]) (auto simp: L)
    from q_push_ok [OF this, of x "new_task g fn ar"] x
    show "\<exists>q'. b_enqueue g fn ar q x = Some q' \<and> b_rep q' (lanes_push p x L) \<and> b_lane_of q' = b_lane_of q"
      by (auto simp: L p q b_enqueue_def b_rep_def b_lane_of_def lanes_single new_task_def)
  }
  {
    assume "lanes_pop L = None"
    then have "xs = []" by (cases xs) (simp_all add: L lanes_single)
    with inv q_pop_empty show "\<exists>q'. b_dequeue q = Some (None, q') \<and> b_rep q' L \<and> b_lane_of q' = b_lane_of q"
      by (auto simp: b_dequeue_def q L b_rep_def)
  }
  {
    fix L' assume "lanes_pop L = Some (x, L')"
    then obtain ys where "xs = x # ys" "L' = [ys]" by (cases xs) (simp_all add: L lanes_single)
    with inv q_pop_task [of h bq x ys True]
    show "\<exists>q'. b_dequeue q = Some (Some x, q') \<and> b_rep q' L' \<and> b_lane_of q' = b_lane_of q"
      by (auto simp: b_dequeue_def q b_rep_def b_lane_of_def)
  }
qed

end
