(* ===== verification/Baseline_Pool.thy ===== *)
theory Baseline_Pool
  imports Baseline_Queue
begin

text \<open>
  The baseline pool (\<^verbatim>\<open>src/baseline/baseline.c\<close>): its construction with every failure of a library
  call, and the threads that use it, as step functions cut at the atomic operations and the lock
  regions of the source. A step returns \<open>None\<close> when the code faults.
\<close>

section \<open>Construction\<close>

record baseline_pool_t =
  worker_thread :: "nat list option"
  b_num_workers :: u32
  b_shutdown :: bool
  b_drain_mutex :: mutex
  b_drain_cond :: cond
  b_in_flight :: u32
  b_total :: u32
  b_queue :: baseline_queue_t

text \<open>What the library calls return.\<close>

record b_init_env =
  b_pool_malloc :: bool
  b_threads_malloc :: bool
  b_drain_mutex_rc :: int
  b_drain_cond_rc :: int
  b_q_mutex_rc :: int
  b_q_cond_rc :: int
  b_create_rc :: "nat \<Rightarrow> int"
  b_create_tid :: "nat \<Rightarrow> nat"

datatype b_init_result = BNull | BFreed baseline_pool_t "nat list" | BOk baseline_pool_t "nat list"

type_synonym b_cleanup = "baseline_pool_t \<Rightarrow> nat list \<Rightarrow> b_init_result option"

definition error_pool :: b_cleanup where
  "error_pool p ths = Some (BFreed p ths)"

definition error_worker :: b_cleanup where
  "error_worker p ths = do { _ \<leftarrow> worker_thread p; error_pool (p\<lparr>worker_thread := None\<rparr>) ths }"

definition error_mutex :: b_cleanup where
  "error_mutex p ths = do {
     m \<leftarrow> mutex_destroy (b_drain_mutex p);
     error_worker (p\<lparr>b_drain_mutex := m\<rparr>) ths }"

definition error_cond :: b_cleanup where
  "error_cond p ths = do {
     c \<leftarrow> cond_destroy (b_drain_cond p);
     error_mutex (p\<lparr>b_drain_cond := c\<rparr>) ths }"

definition error_mutex_q :: b_cleanup where
  "error_mutex_q p ths = do {
     m \<leftarrow> mutex_destroy (q_mutex (b_queue p));
     error_cond (p\<lparr>b_queue := (b_queue p)\<lparr>q_mutex := m\<rparr>\<rparr>) ths }"

definition error_cond_q :: b_cleanup where
  "error_cond_q p ths = do {
     c \<leftarrow> cond_destroy (q_cond (b_queue p));
     error_mutex_q (p\<lparr>b_queue := (b_queue p)\<lparr>q_cond := c\<rparr>\<rparr>) ths }"

fun b_join :: "nat \<Rightarrow> nat list \<Rightarrow> int \<Rightarrow> nat list \<Rightarrow> nat list option" where
  "b_join 0 ts j ths = Some ths"
| "b_join (Suc n) ts j ths = do {
     t \<leftarrow> array_get ts j;
     if t \<in> set ths then b_join n ts (j + 1) (remove1 t ths) else None }"

text \<open>The spawning loop from index \<open>i\<close> with \<open>n\<close> rounds to go.\<close>

fun b_spawn :: "b_init_env \<Rightarrow> nat \<Rightarrow> nat \<Rightarrow> b_cleanup" where
  "b_spawn e 0 i p ths = Some (BOk p ths)"
| "b_spawn e (Suc n) i p ths = do {
     ts \<leftarrow> worker_thread p;
     if b_create_rc e i \<noteq> 0 then do {
       let p = p\<lparr>b_shutdown := True\<rparr>;
       (_, q) \<leftarrow> q_wake_all (b_queue p);
       ths \<leftarrow> b_join i ts 0 ths;
       error_cond_q (p\<lparr>b_queue := q\<rparr>) ths }
     else do {
       ts \<leftarrow> array_set ts (int i) (b_create_tid e i);
       b_spawn e n (Suc i) (p\<lparr>worker_thread := Some ts\<rparr>) (ths @ [b_create_tid e i]) } }"

text \<open>\<open>raw\<close> and \<open>raws\<close> are the contents of the two fresh memory blocks.\<close>

definition baseline_pool_init :: "b_init_env \<Rightarrow> baseline_pool_t \<Rightarrow> nat list \<Rightarrow> int \<Rightarrow> b_init_result option" where
  "baseline_pool_init e raw raws n =
     (if n \<le> 0 then Some BNull
      else if \<not> b_pool_malloc e then Some BNull
      else if \<not> b_threads_malloc e then error_pool (raw\<lparr>worker_thread := None\<rparr>) []
      else do {
        let p = raw\<lparr>worker_thread := Some raws, b_num_workers := of_int n, b_shutdown := False,
              b_in_flight := 0, b_total := 0\<rparr>;
        if b_drain_mutex_rc e \<noteq> 0 then error_worker p []
        else do {
          let p = p\<lparr>b_drain_mutex := MFree\<rparr>;
          if b_drain_cond_rc e \<noteq> 0 then error_mutex p []
          else do {
            let p = p\<lparr>b_drain_cond := CLive []\<rparr>;
            let p = p\<lparr>b_queue := (b_queue p)\<lparr>q_head := None, q_tail := None\<rparr>\<rparr>;
            if b_q_mutex_rc e \<noteq> 0 then error_cond p []
            else do {
              let p = p\<lparr>b_queue := (b_queue p)\<lparr>q_mutex := MFree\<rparr>\<rparr>;
              if b_q_cond_rc e \<noteq> 0 then error_mutex_q p []
              else do {
                let p = p\<lparr>b_queue := (b_queue p)\<lparr>q_cond := CLive []\<rparr>\<rparr>;
                b_spawn e (nat n) 0 p [] } } } } })"

section \<open>Release\<close>

definition b_release :: "baseline_pool_t \<Rightarrow> baseline_pool_t option" where
  "b_release p = do {
     c \<leftarrow> cond_destroy (q_cond (b_queue p));
     let p = p\<lparr>b_queue := (b_queue p)\<lparr>q_cond := c\<rparr>\<rparr>;
     m \<leftarrow> mutex_destroy (q_mutex (b_queue p));
     let p = p\<lparr>b_queue := (b_queue p)\<lparr>q_mutex := m\<rparr>\<rparr>;
     c \<leftarrow> cond_destroy (b_drain_cond p);
     let p = p\<lparr>b_drain_cond := c\<rparr>;
     m \<leftarrow> mutex_destroy (b_drain_mutex p);
     let p = p\<lparr>b_drain_mutex := m\<rparr>;
     _ \<leftarrow> worker_thread p;
     Some (p\<lparr>worker_thread := None\<rparr>) }"

section \<open>Threads\<close>

datatype bw_pc = BW_Pop | BW_PopWait | BW_Run addr | BW_Free addr | BW_Dec | BW_Bcast | BW_Exit

text \<open>
  \<open>BS\<close> is \<^verbatim>\<open>baseline_pool_submit\<close> with its function and argument, \<open>BT\<close> is \<^verbatim>\<open>baseline_pool_wait\<close>.
\<close>

datatype bc_pc =
    BS_Enter ptr ptr | BS_Flight ptr ptr | BS_Create ptr ptr | BS_Undo
  | BS_Count addr | BS_Push addr | BS_Leave | BS_Done int
  | BT_Enter | BT_Drain | BT_DrainWait | BT_Done

datatype bo_pc =
    BO_Idle | BO_Flag | BO_Wake | BO_Spin | BO_Drain | BO_DrainWait | BO_Join nat | BO_Release | BO_Done

record bsys =
  b_mem :: b_heap
  b_pool :: "baseline_pool_t option"
  b_ws :: "bw_pc list"
  b_cs :: "bc_pc list"
  b_op :: bo_pc
  b_accepted :: "(ptr \<times> ptr) list"
  b_executed :: "(ptr \<times> ptr) list"

text \<open>The choices of the environment: \<^verbatim>\<open>malloc\<close>, the old contents of its block, and who is signalled.\<close>

record benv =
  be_malloc :: ptr
  be_garbage :: u16
  be_pick :: nat

definition b_wake_pop :: "bw_pc \<Rightarrow> bw_pc" where
  "b_wake_pop pc = (if pc = BW_PopWait then BW_Pop else pc)"

fun b_deliver :: "nat \<Rightarrow> wake list \<Rightarrow> bw_pc list \<Rightarrow> bw_pc list" where
  "b_deliver k [] ws = ws"
| "b_deliver k (Signal # _) ws = (if k < length ws then ws[k := b_wake_pop (ws ! k)] else ws)"
| "b_deliver k (Broadcast # _) ws = map b_wake_pop ws"

definition b_wakes :: "cond \<Rightarrow> wake list" where
  "b_wakes c = (case c of CUninit \<Rightarrow> [] | CLive l \<Rightarrow> l)"

definition b_set_queue :: "nat \<Rightarrow> baseline_pool_t \<Rightarrow> b_heap \<Rightarrow> baseline_queue_t \<Rightarrow> bsys \<Rightarrow> bsys" where
  "b_set_queue k p h q s =
     s\<lparr>b_mem := h, b_pool := Some (p\<lparr>b_queue := q\<lparr>q_cond := CLive []\<rparr>\<rparr>),
       b_ws := b_deliver k (b_wakes (q_cond q)) (b_ws s)\<rparr>"

text \<open>A broadcast on \<^verbatim>\<open>drain_cond\<close>.\<close>

definition b_wake_drain :: "bsys \<Rightarrow> bsys" where
  "b_wake_drain s =
     s\<lparr>b_cs := map (\<lambda>pc. if pc = BT_DrainWait then BT_Drain else pc) (b_cs s),
       b_op := (if b_op s = BO_DrainWait then BO_Drain else b_op s)\<rparr>"

definition bw_go :: "nat \<Rightarrow> bw_pc \<Rightarrow> bsys \<Rightarrow> bsys" where
  "bw_go i pc s = s\<lparr>b_ws := (b_ws s)[i := pc]\<rparr>"

definition bc_go :: "nat \<Rightarrow> bc_pc \<Rightarrow> bsys \<Rightarrow> bsys" where
  "bc_go i pc s = s\<lparr>b_cs := (b_cs s)[i := pc]\<rparr>"

definition bo_go :: "bo_pc \<Rightarrow> bsys \<Rightarrow> bsys" where
  "bo_go pc s = s\<lparr>b_op := pc\<rparr>"

text \<open>\<^verbatim>\<open>worker_func\<close>.\<close>

definition b_worker_step :: "benv \<Rightarrow> nat \<Rightarrow> bsys \<Rightarrow> bsys option" where
  "b_worker_step e i s =
     (case b_ws s ! i of
        BW_Pop \<Rightarrow> do {
          p \<leftarrow> b_pool s;
          (r, h, q) \<leftarrow> q_pop_until_shutdown (b_mem s) (b_queue p) (b_shutdown p);
          Some (bw_go i (case r of PopTask a \<Rightarrow> BW_Run a | PopNull \<Rightarrow> BW_Exit | PopWait \<Rightarrow> BW_PopWait)
            (b_set_queue (be_pick e) p h q s)) }
      | BW_Run a \<Rightarrow> do {
          t \<leftarrow> b_mem s a;
          _ \<leftarrow> b_func t;
          Some (bw_go i (BW_Free a) (s\<lparr>b_executed := b_executed s @ [b_call t]\<rparr>)) }
      | BW_Free a \<Rightarrow> do {
          _ \<leftarrow> b_mem s a;
          Some (bw_go i BW_Dec (s\<lparr>b_mem := (b_mem s)(a := None)\<rparr>)) }
      | BW_Dec \<Rightarrow> do {
          p \<leftarrow> b_pool s;
          let old = sint (b_total p);
          if old = - (2 ^ 31) then None
          else Some (bw_go i (if old - 1 \<le> 0 then BW_Bcast else BW_Pop)
            (s\<lparr>b_pool := Some (p\<lparr>b_total := b_total p - 1\<rparr>)\<rparr>)) }
      | BW_Bcast \<Rightarrow> do {
          p \<leftarrow> b_pool s;
          _ \<leftarrow> mutex_lock (b_drain_mutex p);
          _ \<leftarrow> cond_broadcast (b_drain_cond p);
          Some (bw_go i BW_Pop (b_wake_drain s)) }
      | _ \<Rightarrow> Some s)"

text \<open>One round of the two drain loops, which tells whether it waits.\<close>

definition b_drain_round :: "bsys \<Rightarrow> bool option" where
  "b_drain_round s = do {
     p \<leftarrow> b_pool s;
     _ \<leftarrow> mutex_lock (b_drain_mutex p);
     Some (b_total p \<noteq> 0) }"

text \<open>\<^verbatim>\<open>baseline_pool_submit\<close> and \<^verbatim>\<open>baseline_pool_wait\<close>.\<close>

definition b_client_step :: "benv \<Rightarrow> nat \<Rightarrow> bsys \<Rightarrow> bsys option" where
  "b_client_step e i s =
     (case b_cs s ! i of
        BS_Enter fn ar \<Rightarrow>
          if fn = None then Some (bc_go i (BS_Done (- 1)) s)
          else do {
            p \<leftarrow> b_pool s;
            Some (bc_go i (if b_shutdown p then BS_Done (- 1) else BS_Flight fn ar) s) }
      | BS_Flight fn ar \<Rightarrow> do {
          p \<leftarrow> b_pool s;
          Some (bc_go i (BS_Create fn ar) (s\<lparr>b_pool := Some (p\<lparr>b_in_flight := b_in_flight p + 1\<rparr>)\<rparr>)) }
      | BS_Create fn ar \<Rightarrow>
          (case be_malloc e of
             None \<Rightarrow> Some (bc_go i BS_Undo s)
           | Some a \<Rightarrow>
               Some (bc_go i (BS_Count a) (s\<lparr>b_mem := (b_mem s)(a \<mapsto> new_task (be_garbage e) fn ar)\<rparr>)))
      | BS_Undo \<Rightarrow> do {
          p \<leftarrow> b_pool s;
          Some (bc_go i (BS_Done (- 1)) (s\<lparr>b_pool := Some (p\<lparr>b_in_flight := b_in_flight p - 1\<rparr>)\<rparr>)) }
      | BS_Count a \<Rightarrow> do {
          p \<leftarrow> b_pool s;
          Some (bc_go i (BS_Push a) (s\<lparr>b_pool := Some (p\<lparr>b_total := b_total p + 1\<rparr>)\<rparr>)) }
      | BS_Push a \<Rightarrow> do {
          p \<leftarrow> b_pool s;
          t \<leftarrow> b_mem s a;
          (_, h, q) \<leftarrow> q_push (b_mem s) (b_queue p) a;
          Some (bc_go i BS_Leave
            ((b_set_queue (be_pick e) p h q s)\<lparr>b_accepted := b_accepted s @ [b_call t]\<rparr>)) }
      | BS_Leave \<Rightarrow> do {
          p \<leftarrow> b_pool s;
          Some (bc_go i (BS_Done 0) (s\<lparr>b_pool := Some (p\<lparr>b_in_flight := b_in_flight p - 1\<rparr>)\<rparr>)) }
      | BT_Enter \<Rightarrow> Some (bc_go i BT_Drain s)
      | BT_Drain \<Rightarrow> do { w \<leftarrow> b_drain_round s; Some (bc_go i (if w then BT_DrainWait else BT_Done) s) }
      | _ \<Rightarrow> Some s)"

text \<open>\<^verbatim>\<open>baseline_pool_shutdown\<close>.\<close>

definition b_shutdown_step :: "benv \<Rightarrow> bsys \<Rightarrow> bsys option" where
  "b_shutdown_step e s =
     (case b_op s of
        BO_Flag \<Rightarrow> do {
          p \<leftarrow> b_pool s;
          Some (bo_go BO_Wake (s\<lparr>b_pool := Some (p\<lparr>b_shutdown := True\<rparr>)\<rparr>)) }
      | BO_Wake \<Rightarrow> do {
          p \<leftarrow> b_pool s;
          (_, q) \<leftarrow> q_wake_all (b_queue p);
          Some (bo_go BO_Spin (b_set_queue (be_pick e) p (b_mem s) q s)) }
      | BO_Spin \<Rightarrow> do { p \<leftarrow> b_pool s; Some (bo_go (if b_in_flight p = 0 then BO_Drain else BO_Spin) s) }
      | BO_Drain \<Rightarrow> do { w \<leftarrow> b_drain_round s; Some (bo_go (if w then BO_DrainWait else BO_Join 0) s) }
      | BO_Join n \<Rightarrow> do {
          p \<leftarrow> b_pool s;
          Some (bo_go (if n < unat (b_num_workers p) then BO_Join (Suc n) else BO_Release) s) }
      | BO_Release \<Rightarrow> do {
          p \<leftarrow> b_pool s;
          _ \<leftarrow> b_release p;
          Some (bo_go BO_Done (s\<lparr>b_pool := None\<rparr>)) }
      | _ \<Rightarrow> Some s)"

section \<open>Readiness and runs\<close>

definition b_worker_ready :: "bsys \<Rightarrow> nat \<Rightarrow> bool" where
  "b_worker_ready s i \<longleftrightarrow> i < length (b_ws s) \<and> b_ws s ! i \<noteq> BW_PopWait \<and> b_ws s ! i \<noteq> BW_Exit"

text \<open>A call may begin only before \<^verbatim>\<open>baseline_pool_shutdown\<close> has been called.\<close>

definition b_client_ready :: "bsys \<Rightarrow> nat \<Rightarrow> bool" where
  "b_client_ready s i \<longleftrightarrow> i < length (b_cs s) \<and>
     (case b_cs s ! i of
        BS_Enter _ _ \<Rightarrow> b_op s = BO_Idle | BT_Enter \<Rightarrow> b_op s = BO_Idle
      | BS_Done _ \<Rightarrow> False | BT_Done \<Rightarrow> False | BT_DrainWait \<Rightarrow> False | _ \<Rightarrow> True)"

text \<open>The spin is a loop without an effect until the counter is 0; a join waits for its thread.\<close>

definition b_owner_ready :: "bsys \<Rightarrow> bool" where
  "b_owner_ready s \<longleftrightarrow>
     (case b_op s of
        BO_Idle \<Rightarrow> False | BO_Done \<Rightarrow> False | BO_DrainWait \<Rightarrow> False
      | BO_Spin \<Rightarrow> (case b_pool s of None \<Rightarrow> True | Some p \<Rightarrow> b_in_flight p = 0)
      | BO_Join n \<Rightarrow> (n < length (b_ws s) \<longrightarrow> b_ws s ! n = BW_Exit)
      | _ \<Rightarrow> True)"

text \<open>
  The tasks between their creation and their accounting: the nodes in memory, and those that a
  worker has freed and not yet counted.
\<close>

definition bw_dec :: "bw_pc \<Rightarrow> nat" where
  "bw_dec pc = (if pc = BW_Dec then 1 else 0)"

definition b_load :: "bsys \<Rightarrow> nat" where
  "b_load s = card (dom (b_mem s)) + tally bw_dec (b_ws s)"

text \<open>\<^verbatim>\<open>malloc\<close> returns unused memory, and fails before \<open>2 ^ 31\<close> tasks exist.\<close>

definition benv_ok :: "benv \<Rightarrow> bsys \<Rightarrow> bool" where
  "benv_ok e s \<longleftrightarrow>
     (case be_malloc e of None \<Rightarrow> True | Some a \<Rightarrow> b_mem s a = None \<and> b_load s + 1 < 2 ^ 31)"

definition b_fair :: "bsys \<Rightarrow> nat \<Rightarrow> bool" where
  "b_fair s k \<longleftrightarrow> list_all (\<lambda>pc. pc \<noteq> BW_PopWait) (b_ws s) \<or> (k < length (b_ws s) \<and> b_ws s ! k = BW_PopWait)"

inductive b_thread_step :: "bsys \<Rightarrow> bsys \<Rightarrow> bool" where
  worker: "b_worker_ready s i \<Longrightarrow> benv_ok e s \<Longrightarrow> b_worker_step e i s = Some s' \<Longrightarrow> b_thread_step s s'"
| client: "b_client_ready s i \<Longrightarrow> benv_ok e s \<Longrightarrow> b_fair s (be_pick e) \<Longrightarrow> b_client_step e i s = Some s' \<Longrightarrow>
    b_thread_step s s'"
| owner: "b_owner_ready s \<Longrightarrow> benv_ok e s \<Longrightarrow> b_shutdown_step e s = Some s' \<Longrightarrow> b_thread_step s s'"

text \<open>Whether a client is outside every call, and outside \<^verbatim>\<open>baseline_pool_wait\<close>.\<close>

definition bc_out :: "bc_pc \<Rightarrow> bool" where
  "bc_out pc = (case pc of BS_Enter _ _ \<Rightarrow> True | BS_Done _ \<Rightarrow> True | BT_Enter \<Rightarrow> True | BT_Done \<Rightarrow> True | _ \<Rightarrow> False)"

definition bc_waiting :: "bc_pc \<Rightarrow> bool" where
  "bc_waiting pc \<longleftrightarrow> pc = BT_Drain \<or> pc = BT_DrainWait"

text \<open>
  \<^verbatim>\<open>baseline_pool_shutdown\<close> is called while nobody waits. With \<open>overlap\<close>, calls of
  \<^verbatim>\<open>baseline_pool_submit\<close> that began before it may still be running.
\<close>

definition b_call_allowed :: "bool \<Rightarrow> bsys \<Rightarrow> bool" where
  "b_call_allowed overlap s \<longleftrightarrow> b_op s = BO_Idle \<and>
     list_all (\<lambda>c. if overlap then \<not> bc_waiting c else bc_out c) (b_cs s)"

inductive b_step :: "bool \<Rightarrow> bsys \<Rightarrow> bsys \<Rightarrow> bool" for overlap where
  thread: "b_thread_step s s' \<Longrightarrow> b_step overlap s s'"
| spurious_pop: "i < length (b_ws s) \<Longrightarrow> b_ws s ! i = BW_PopWait \<Longrightarrow> b_step overlap s (bw_go i BW_Pop s)"
| spurious_wait: "i < length (b_cs s) \<Longrightarrow> b_cs s ! i = BT_DrainWait \<Longrightarrow> b_step overlap s (bc_go i BT_Drain s)"
| spurious_drain: "b_op s = BO_DrainWait \<Longrightarrow> b_step overlap s (bo_go BO_Drain s)"
| call: "b_call_allowed overlap s \<Longrightarrow> b_step overlap s (bo_go BO_Flag s)"

definition b_can_fault :: "bsys \<Rightarrow> bool" where
  "b_can_fault s \<longleftrightarrow> (\<exists>e. benv_ok e s \<and>
     ((\<exists>i. b_worker_ready s i \<and> b_worker_step e i s = None) \<or>
      (\<exists>i. b_client_ready s i \<and> b_client_step e i s = None) \<or>
      (b_owner_ready s \<and> b_shutdown_step e s = None)))"

text \<open>The pool as \<^verbatim>\<open>baseline_pool_init\<close> returns it, and the states in which it is first used.\<close>

definition b_fresh :: "nat \<Rightarrow> baseline_pool_t \<Rightarrow> bool" where
  "b_fresh n p \<longleftrightarrow>
     (\<exists>ts. worker_thread p = Some ts \<and> length ts = n) \<and> b_num_workers p = of_nat n \<and> \<not> b_shutdown p \<and>
     b_drain_mutex p = MFree \<and> b_drain_cond p = CLive [] \<and> b_in_flight p = 0 \<and> b_total p = 0 \<and>
     b_queue p = \<lparr>q_head = None, q_tail = None, q_mutex = MFree, q_cond = CLive []\<rparr>"

definition b_start :: "nat \<Rightarrow> bsys \<Rightarrow> bool" where
  "b_start n s \<longleftrightarrow>
     0 < n \<and> n < 2 ^ 31 \<and> length (b_cs s) < 2 ^ 32 \<and>
     (\<exists>p. b_pool s = Some p \<and> b_fresh n p) \<and> b_mem s = Map.empty \<and> b_ws s = replicate n BW_Pop \<and>
     list_all (\<lambda>c. c = BT_Enter \<or> (\<exists>fn ar. c = BS_Enter fn ar)) (b_cs s) \<and> b_op s = BO_Idle \<and>
     b_accepted s = [] \<and> b_executed s = []"

end
