(* ===== verification/Baseline_Safety.thy ===== *)
theory Baseline_Safety
  imports Baseline_Pool
begin

text \<open>
  The invariant of the baseline pool when no submit overlaps the shutdown: ownership of the task
  nodes, exact counters, no lost call, the phases of \<^verbatim>\<open>baseline_pool_shutdown\<close>, and the facts
  about sleeping threads from which the absence of deadlocks follows.
\<close>

declare set_concat [simp del]

section \<open>The invariant\<close>

fun bw_node :: "bw_pc \<Rightarrow> addr multiset" where
  "bw_node (BW_Run a) = {#a#}" | "bw_node (BW_Free a) = {#a#}" | "bw_node _ = {#}"

fun bw_pend :: "bw_pc \<Rightarrow> addr multiset" where
  "bw_pend (BW_Run a) = {#a#}" | "bw_pend _ = {#}"

fun bw_count :: "bw_pc \<Rightarrow> nat" where
  "bw_count (BW_Run _) = 1" | "bw_count (BW_Free _) = 1" | "bw_count BW_Dec = 1" | "bw_count _ = 0"

fun bc_node :: "bc_pc \<Rightarrow> addr multiset" where
  "bc_node (BS_Count a) = {#a#}" | "bc_node (BS_Push a) = {#a#}" | "bc_node _ = {#}"

fun bc_count :: "bc_pc \<Rightarrow> nat" where
  "bc_count (BS_Push _) = 1" | "bc_count _ = 0"

fun bc_flight :: "bc_pc \<Rightarrow> nat" where
  "bc_flight (BS_Create _ _) = 1" | "bc_flight BS_Undo = 1" | "bc_flight (BS_Count _) = 1"
| "bc_flight (BS_Push _) = 1" | "bc_flight BS_Leave = 1" | "bc_flight _ = 0"

fun bc_ok :: "b_heap \<Rightarrow> bc_pc \<Rightarrow> bool" where
  "bc_ok h (BS_Flight fn _) \<longleftrightarrow> fn \<noteq> None"
| "bc_ok h (BS_Create fn _) \<longleftrightarrow> fn \<noteq> None"
| "bc_ok h (BS_Count a) \<longleftrightarrow> (\<exists>t. h a = Some t \<and> b_next t = None)"
| "bc_ok h (BS_Push a) \<longleftrightarrow> (\<exists>t. h a = Some t \<and> b_next t = None)"
| "bc_ok h _ \<longleftrightarrow> True"

definition b_call_at :: "b_heap \<Rightarrow> addr \<Rightarrow> ptr \<times> ptr" where
  "b_call_at h a = b_call (the (h a))"

definition b_mem_inv :: "bsys \<Rightarrow> addr list \<Rightarrow> bool" where
  "b_mem_inv s xs \<longleftrightarrow>
     finite (dom (b_mem s)) \<and>
     mset xs + tally bw_node (b_ws s) + tally bc_node (b_cs s) = mset_set (dom (b_mem s)) \<and>
     (\<forall>a t. b_mem s a = Some t \<longrightarrow> b_func t \<noteq> None) \<and> list_all (bc_ok (b_mem s)) (b_cs s)"

definition b_count_inv :: "bsys \<Rightarrow> baseline_pool_t \<Rightarrow> addr list \<Rightarrow> bool" where
  "b_count_inv s p xs \<longleftrightarrow>
     b_total p = of_nat (length xs + tally bw_count (b_ws s) + tally bc_count (b_cs s)) \<and> b_load s < 2 ^ 31 \<and>
     b_in_flight p = of_nat (tally bc_flight (b_cs s)) \<and> length (b_cs s) < 2 ^ 32"

definition b_job_inv :: "bsys \<Rightarrow> addr list \<Rightarrow> bool" where
  "b_job_inv s xs \<longleftrightarrow>
     mset (b_accepted s) =
       mset (b_executed s) + image_mset (b_call_at (b_mem s)) (mset xs + tally bw_pend (b_ws s))"

definition b_sync_inv :: "bsys \<Rightarrow> baseline_pool_t \<Rightarrow> bool" where
  "b_sync_inv s p \<longleftrightarrow>
     b_drain_mutex p = MFree \<and> b_drain_cond p \<noteq> CUninit \<and> worker_thread p \<noteq> None \<and>
     unat (b_num_workers p) = length (b_ws s) \<and> b_ws s \<noteq> []"

fun bo_joined :: "bo_pc \<Rightarrow> bw_pc list \<Rightarrow> bool" where
  "bo_joined (BO_Join n) ws \<longleftrightarrow> n \<le> length ws \<and> (\<forall>j < n. ws ! j = BW_Exit)"
| "bo_joined BO_Release ws \<longleftrightarrow> list_all (\<lambda>pc. pc = BW_Exit) ws"
| "bo_joined BO_Done ws \<longleftrightarrow> False"
| "bo_joined _ ws \<longleftrightarrow> True"

definition bo_drained :: "bo_pc \<Rightarrow> bool" where
  "bo_drained pc = (case pc of BO_Join _ \<Rightarrow> True | BO_Release \<Rightarrow> True | BO_Done \<Rightarrow> True | _ \<Rightarrow> False)"

definition b_phase_inv :: "bsys \<Rightarrow> baseline_pool_t \<Rightarrow> addr list \<Rightarrow> bool" where
  "b_phase_inv s p xs \<longleftrightarrow>
     (b_op s \<noteq> BO_Idle \<longrightarrow> list_all bc_out (b_cs s)) \<and>
     (b_shutdown p \<longleftrightarrow> b_op s \<noteq> BO_Idle \<and> b_op s \<noteq> BO_Flag) \<and>
     (bo_drained (b_op s) \<longrightarrow> xs = [] \<and> tally bw_count (b_ws s) = 0) \<and>
     bo_joined (b_op s) (b_ws s)"

text \<open>
  Sleeping threads. A queued task keeps a worker awake; nobody waits for the pool to drain once
  it has drained, unless a worker is about to broadcast; after the broadcast of the shutdown no
  worker waits for a task; a worker leaves only after the shutdown.
\<close>

definition b_awake :: "bw_pc \<Rightarrow> bool" where
  "b_awake pc \<longleftrightarrow> pc \<noteq> BW_PopWait \<and> pc \<noteq> BW_Exit"

definition b_waiter :: "bsys \<Rightarrow> bool" where
  "b_waiter s \<longleftrightarrow> BT_DrainWait \<in> set (b_cs s) \<or> b_op s = BO_DrainWait"

definition b_live_inv :: "bsys \<Rightarrow> baseline_pool_t \<Rightarrow> addr list \<Rightarrow> bool" where
  "b_live_inv s p xs \<longleftrightarrow>
     (xs \<noteq> [] \<longrightarrow> list_ex b_awake (b_ws s)) \<and>
     (b_waiter s \<longrightarrow>
        0 < length xs + tally bw_count (b_ws s) + tally bc_count (b_cs s) \<or> BW_Bcast \<in> set (b_ws s)) \<and>
     (b_shutdown p \<and> b_op s \<noteq> BO_Wake \<longrightarrow> BW_PopWait \<notin> set (b_ws s)) \<and>
     (\<not> b_shutdown p \<longrightarrow> BW_Exit \<notin> set (b_ws s))"

definition b_pool_inv :: "bsys \<Rightarrow> baseline_pool_t \<Rightarrow> addr list \<Rightarrow> bool" where
  "b_pool_inv s p xs \<longleftrightarrow>
     q_inv (b_mem s) (b_queue p) xs \<and> q_cond (b_queue p) = CLive [] \<and>
     b_mem_inv s xs \<and> b_count_inv s p xs \<and> b_job_inv s xs \<and> b_sync_inv s p \<and> b_phase_inv s p xs \<and>
     b_live_inv s p xs"

definition b_gone_inv :: "bsys \<Rightarrow> bool" where
  "b_gone_inv s \<longleftrightarrow>
     b_op s = BO_Done \<and> list_all (\<lambda>pc. pc = BW_Exit) (b_ws s) \<and> b_mem s = Map.empty \<and>
     list_all bc_out (b_cs s) \<and> mset (b_accepted s) = mset (b_executed s)"

definition b_inv :: "bsys \<Rightarrow> bool" where
  "b_inv s \<longleftrightarrow> (case b_pool s of None \<Rightarrow> b_gone_inv s | Some p \<Rightarrow> \<exists>xs. b_pool_inv s p xs)"

definition b_good :: "bsys option \<Rightarrow> bool" where
  "b_good r \<longleftrightarrow> (\<exists>s'. r = Some s' \<and> b_inv s')"

lemmas b_inv_defs = b_mem_inv_def b_count_inv_def b_job_inv_def b_sync_inv_def b_phase_inv_def b_live_inv_def
lemmas b_go_defs = bw_go_def bc_go_def bo_go_def

lemma b_goodI: "b_pool s = Some p \<Longrightarrow> b_pool_inv s p xs \<Longrightarrow> b_good (Some s)"
  by (auto simp: b_good_def b_inv_def)

section \<open>Sums over the threads\<close>

lemma bw_count_split: "tally bw_count ws = size (tally bw_node ws) + tally bw_dec ws"
proof (induction ws)
  case (Cons w ws)
  have "bw_count w = size (bw_node w) + bw_dec w" by (cases w) (simp_all add: bw_dec_def)
  with Cons show ?case by simp
qed simp

lemma bc_count_le: "tally bc_count cs \<le> size (tally bc_node cs)"
proof (induction cs)
  case (Cons c cs)
  have "bc_count c \<le> size (bc_node c)" by (cases c) auto
  with Cons show ?case by simp
qed simp

lemma bc_flight_le: "tally bc_flight cs \<le> length cs"
proof (induction cs)
  case (Cons c cs)
  have "bc_flight c \<le> 1" by (cases c) auto
  with Cons show ?case by simp
qed simp

lemma bc_out_weights:
  assumes "list_all bc_out cs"
  shows "tally bc_count cs = 0" and "tally bc_flight cs = 0" and "tally bc_node cs = {#}"
    and "BT_DrainWait \<notin> set cs"
proof -
  have out: "bc_out c \<Longrightarrow> bc_count c = 0 \<and> bc_flight c = 0 \<and> bc_node c = {#} \<and> c \<noteq> BT_DrainWait" for c
    by (cases c) (auto simp: bc_out_def)
  show "tally bc_count cs = 0" "tally bc_flight cs = 0" "tally bc_node cs = {#}" "BT_DrainWait \<notin> set cs"
    using assms by (induction cs) (auto dest: out)
qed

lemma no_bw_count:
  assumes "tally bw_count ws = 0"
  shows "tally bw_node ws = {#}" and "tally bw_pend ws = {#}" and "tally bw_dec ws = 0"
proof -
  have "bw_count c = 0 \<Longrightarrow> bw_node c = {#} \<and> bw_pend c = {#} \<and> bw_dec c = 0" for c
    by (cases c) (auto simp: bw_dec_def)
  then show "tally bw_node ws = {#}" "tally bw_pend ws = {#}" "tally bw_dec ws = 0"
    using total_zero_other [OF assms] by blast+
qed

lemma b_load_eq:
  assumes "b_mem_inv s xs"
  shows "b_load s = length xs + tally bw_count (b_ws s) + size (tally bc_node (b_cs s))"
proof -
  have "size (mset xs + tally bw_node (b_ws s) + tally bc_node (b_cs s)) = card (dom (b_mem s))"
    using assms by (simp add: b_mem_inv_def del: size_union)
  then show ?thesis by (simp add: b_load_def bw_count_split)
qed

lemma b_total_sint:
  assumes "b_mem_inv s xs" and "b_count_inv s p xs"
  shows "sint (b_total p) = int (length xs + tally bw_count (b_ws s) + tally bc_count (b_cs s))"
    and "b_total p = 0 \<longleftrightarrow> length xs + tally bw_count (b_ws s) + tally bc_count (b_cs s) = 0"
proof -
  let ?n = "length xs + tally bw_count (b_ws s) + tally bc_count (b_cs s)"
  have b: "?n < 2 ^ 31" using assms(2) b_load_eq [OF assms(1)] bc_count_le [of "b_cs s"]
    unfolding b_count_inv_def by linarith
  have t: "b_total p = of_nat ?n" using assms(2) unfolding b_count_inv_def by blast
  show s: "sint (b_total p) = int ?n"
    unfolding t by (rule sint_of_nat [OF b])
  show "b_total p = 0 \<longleftrightarrow> ?n = 0"
  proof
    assume "b_total p = 0"
    with s have "int ?n = 0" by simp
    then show "?n = 0" by linarith
  qed (simp add: t)
qed

lemma b_wake_weights [simp]:
  "bw_node (b_wake_pop pc) = bw_node pc" "bw_pend (b_wake_pop pc) = bw_pend pc"
  "bw_count (b_wake_pop pc) = bw_count pc" "bw_dec (b_wake_pop pc) = bw_dec pc"
  "b_wake_pop pc = BW_Exit \<longleftrightarrow> pc = BW_Exit" "b_wake_pop pc = BW_Bcast \<longleftrightarrow> pc = BW_Bcast"
  by (auto simp: b_wake_pop_def bw_dec_def)

lemma b_deliver_weights [simp]:
  "tally bw_node (b_deliver k l ws) = tally bw_node ws"
  "tally bw_pend (b_deliver k l ws) = tally bw_pend ws"
  "tally bw_count (b_deliver k l ws) = tally bw_count ws"
  "tally bw_dec (b_deliver k l ws) = tally bw_dec ws"
  "length (b_deliver k l ws) = length ws"
  by (cases "(k, l, ws)" rule: b_deliver.cases; simp add: tally_same tally_map)+

lemma b_deliver_nth:
  "j < length ws \<Longrightarrow> b_deliver k l ws ! j = ws ! j \<or> ws ! j = BW_PopWait \<and> b_deliver k l ws ! j = BW_Pop"
  by (cases "(k, l, ws)" rule: b_deliver.cases) (auto simp: nth_list_update b_wake_pop_def)

lemma b_deliver_mem [simp]:
  shows "BW_Exit \<in> set (b_deliver k l ws) \<longleftrightarrow> BW_Exit \<in> set ws"
    and "BW_Bcast \<in> set (b_deliver k l ws) \<longleftrightarrow> BW_Bcast \<in> set ws"
    and "b_deliver k l ws = [] \<longleftrightarrow> ws = []"
proof -
  have "j < length ws \<Longrightarrow> pc \<noteq> BW_PopWait \<Longrightarrow> pc \<noteq> BW_Pop \<Longrightarrow> b_deliver k l ws ! j = pc \<longleftrightarrow> ws ! j = pc" for j pc
    using b_deliver_nth [of j ws k l] by auto
  then show "BW_Exit \<in> set (b_deliver k l ws) \<longleftrightarrow> BW_Exit \<in> set ws"
    and "BW_Bcast \<in> set (b_deliver k l ws) \<longleftrightarrow> BW_Bcast \<in> set ws"
    by (auto simp: in_set_conv_nth)
  show "b_deliver k l ws = [] \<longleftrightarrow> ws = []" by (metis b_deliver_weights(5) length_0_conv)
qed

lemma b_deliver_awake:
  assumes "list_ex b_awake ws"
  shows "list_ex b_awake (b_deliver k l ws)"
proof -
  obtain j where j: "j < length ws" "b_awake (ws ! j)" using assms by (auto simp: list_ex_length)
  then have "b_deliver k l ws ! j = ws ! j" using b_deliver_nth [of j ws k l] by (auto simp: b_awake_def)
  with j show ?thesis unfolding list_ex_length by auto
qed

lemma list_ex_update: "i < length xs \<Longrightarrow> P x \<Longrightarrow> list_ex P (xs[i := x])"
  unfolding list_ex_iff by (blast intro: set_update_memI)

lemma b_deliver_signal:
  assumes "b_fair s k" and "BW_Exit \<notin> set (b_ws s)" and "b_ws s \<noteq> []"
  shows "list_ex b_awake (b_deliver k (Signal # l) (b_ws s))"
proof (cases "k < length (b_ws s) \<and> b_ws s ! k = BW_PopWait")
  case True
  then show ?thesis by (simp add: b_deliver.simps list_ex_update b_awake_def b_wake_pop_def)
next
  case False
  then have "b_ws s ! 0 \<noteq> BW_PopWait" "b_ws s ! 0 \<noteq> BW_Exit"
    using assms by (auto simp: b_fair_def list_all_length in_set_conv_nth)
  then have "list_ex b_awake (b_ws s)" using assms(3) unfolding list_ex_length b_awake_def by blast
  then show ?thesis by (rule b_deliver_awake)
qed

declare b_deliver.simps [simp del]

lemma mem_update: "x \<in> set xs \<Longrightarrow> xs ! i \<noteq> x \<Longrightarrow> x \<in> set (xs[i := y])"
  by (auto simp: in_set_conv_nth) (metis nth_list_update_neq)

lemma notin_update: "x \<notin> set xs \<Longrightarrow> y \<noteq> x \<Longrightarrow> x \<notin> set (xs[i := y])"
  using set_update_subset_insert [of xs i y] by auto

lemma list_all_update: "list_all P xs \<Longrightarrow> P x \<Longrightarrow> list_all P (xs[i := x])"
  using set_update_subset_insert [of xs i x] by (auto simp: list_all_iff)

lemma bo_joined_update:
  assumes "bo_joined op ws" and "i < length ws" and "ws ! i \<noteq> BW_Exit"
  shows "bo_joined op (ws[i := pc])"
proof (cases op)
  case (BO_Join n)
  then have "\<not> i < n" using assms by auto
  with BO_Join assms(1) show ?thesis by (auto simp: nth_list_update)
next
  case BO_Release
  with assms show ?thesis by (auto simp: list_all_length)
qed (use assms in auto)

section \<open>Workers\<close>

text \<open>A worker that moves without touching a task or the counter.\<close>

lemma b_worker_moves:
  assumes inv: "b_pool_inv s p xs" and i: "i < length (b_ws s)"
    and old: "b_ws s ! i = old" "b_awake old" and w: "bw_node old = {#}" "bw_count old = 0" "bw_pend old = {#}"
    and new: "bw_node pc = {#}" "bw_count pc = 0" "bw_pend pc = {#}"
    and live: "\<not> b_awake pc \<Longrightarrow> xs = []" "pc = BW_PopWait \<Longrightarrow> \<not> b_shutdown p" "pc = BW_Exit \<Longrightarrow> b_shutdown p"
    and bc: "old = BW_Bcast \<Longrightarrow> \<not> b_waiter s"
  shows "b_pool_inv (bw_go i pc s) p xs"
proof -
  have dec: "bw_dec old = 0" "bw_dec pc = 0" using w new by (auto simp: bw_dec_def)
  have t: "tally bw_node ((b_ws s)[i := pc]) = tally bw_node (b_ws s)"
    "tally bw_count ((b_ws s)[i := pc]) = tally bw_count (b_ws s)"
    "tally bw_pend ((b_ws s)[i := pc]) = tally bw_pend (b_ws s)"
    "tally bw_dec ((b_ws s)[i := pc]) = tally bw_dec (b_ws s)"
    using w new dec old(1) by (simp_all add: tally_same [OF i])
  have e: "b_ws s ! i \<noteq> BW_Exit" using old by (auto simp: b_awake_def)
  have ex: "xs \<noteq> [] \<Longrightarrow> list_ex b_awake ((b_ws s)[i := pc])"
    using live(1) list_ex_update [OF i] by blast
  have bcast: "BW_Bcast \<in> set (b_ws s) \<Longrightarrow> b_waiter s \<Longrightarrow> BW_Bcast \<in> set ((b_ws s)[i := pc])"
    using bc old(1) by (intro mem_update) auto
  have pop: "BW_PopWait \<notin> set (b_ws s) \<Longrightarrow> b_shutdown p \<Longrightarrow> BW_PopWait \<notin> set ((b_ws s)[i := pc])"
    using live(2) by (intro notin_update) auto
  have exit: "BW_Exit \<notin> set (b_ws s) \<Longrightarrow> \<not> b_shutdown p \<Longrightarrow> BW_Exit \<notin> set ((b_ws s)[i := pc])"
    using live(3) by (intro notin_update) auto
  have wt: "b_waiter (bw_go i pc s) = b_waiter s" by (simp add: b_waiter_def bw_go_def)
  have "b_live_inv (bw_go i pc s) p xs"
    using inv ex bcast pop exit unfolding b_pool_inv_def b_live_inv_def wt by (simp add: bw_go_def t) blast
  moreover have "b_phase_inv (bw_go i pc s) p xs"
    using inv bo_joined_update [OF _ i e] by (auto simp: b_pool_inv_def b_phase_inv_def bw_go_def t)
  ultimately show ?thesis using inv by (simp add: b_pool_inv_def b_inv_defs bw_go_def t b_load_def)
qed

text \<open>A worker that stays awake, with what it does to the queue and the counter.\<close>

lemma b_live_awake:
  assumes inv: "b_live_inv s p xs0" and i: "i < length (b_ws s)" and old: "b_ws s ! i \<noteq> BW_Bcast"
    and pc: "b_awake pc" and s': "b_ws s' = (b_ws s)[i := pc]" "b_cs s' = b_cs s" "b_op s' = b_op s"
    and p': "b_shutdown p' = b_shutdown p"
    and total: "pc = BW_Bcast \<or> 0 < length xs + tally bw_count (b_ws s') + tally bc_count (b_cs s')"
  shows "b_live_inv s' p' xs"
proof -
  have "list_ex b_awake (b_ws s')" unfolding s' by (rule list_ex_update [of i "b_ws s" b_awake, OF i pc])
  moreover have "pc = BW_Bcast \<Longrightarrow> BW_Bcast \<in> set (b_ws s')" unfolding s' using i by (simp add: set_update_memI)
  moreover have "BW_PopWait \<notin> set (b_ws s) \<Longrightarrow> BW_PopWait \<notin> set (b_ws s')"
    "BW_Exit \<notin> set (b_ws s) \<Longrightarrow> BW_Exit \<notin> set (b_ws s')"
    unfolding s' using pc by (auto simp: b_awake_def dest: notin_update)
  ultimately show ?thesis using inv total unfolding b_live_inv_def p' s'(3) by blast
qed

lemma b_phase_awake:
  assumes "b_phase_inv s p xs0" and "i < length (b_ws s)" and "b_ws s ! i \<noteq> BW_Exit"
    and "b_ws s' = (b_ws s)[i := pc]" "b_cs s' = b_cs s" "b_op s' = b_op s"
    and "b_shutdown p' = b_shutdown p" and "\<not> bo_drained (b_op s)"
  shows "b_phase_inv s' p' xs"
  using assms bo_joined_update by (auto simp: b_phase_inv_def)

lemma b_busy_not_drained:
  assumes "b_phase_inv s p xs" and "i < length (b_ws s)" and "0 < bw_count (b_ws s ! i)"
  shows "\<not> bo_drained (b_op s)"
  using assms tally_others(1) [of i "b_ws s" bw_count] by (auto simp: b_phase_inv_def)

lemma b_pool_live: "b_pool_inv s p xs \<Longrightarrow> b_live_inv s p xs" and b_pool_phase: "b_pool_inv s p xs \<Longrightarrow> b_phase_inv s p xs"
  by (simp_all add: b_pool_inv_def)

lemma b_set_queue_quiet:
  "q_cond q = CLive [] \<Longrightarrow> b_set_queue k p h q s = s\<lparr>b_mem := h, b_pool := Some (p\<lparr>b_queue := q\<rparr>)\<rparr>"
  by (cases q) (simp add: b_set_queue_def b_wakes_def b_deliver.simps)

lemma b_pop_good:
  assumes s: "b_pool s = Some p" and inv: "b_pool_inv s p xs" and i: "i < length (b_ws s)" and pc: "b_ws s ! i = BW_Pop"
  shows "b_good (b_worker_step e i s)"
proof (cases xs)
  case Nil
  have q: "q_inv (b_mem s) (b_queue p) []" "q_cond (b_queue p) = CLive []" using inv Nil by (simp_all add: b_pool_inv_def)
  let ?pc = "if b_shutdown p then BW_Exit else BW_PopWait"
  have same: "b_set_queue (be_pick e) p (b_mem s) (b_queue p) s = s"
    using q(2) s by (simp add: b_set_queue_quiet)
  have "b_worker_step e i s = Some (bw_go i ?pc s)"
    using pc s by (simp add: b_worker_step_def q_pop_empty [OF q(1)] same)
  moreover have "b_pool_inv (bw_go i ?pc s) p xs"
    by (rule b_worker_moves [OF inv i pc]) (auto simp: b_awake_def Nil split: if_splits)
  moreover have "b_pool (bw_go i ?pc s) = Some p" using s by (simp add: bw_go_def)
  ultimately show ?thesis by (metis b_goodI)
next
  case (Cons a ys)
  have q: "q_inv (b_mem s) (b_queue p) (a # ys)" "q_cond (b_queue p) = CLive []"
    using inv Cons by (simp_all add: b_pool_inv_def)
  from q_pop_task [OF q(1), of "b_shutdown p"] obtain q' where
    q': "q_pop_until_shutdown (b_mem s) (b_queue p) (b_shutdown p) = Some (PopTask a, b_mem s, q')"
    "q_inv (b_mem s) q' ys" "q_cond q' = CLive []" using q(2) by auto
  let ?p = "p\<lparr>b_queue := q'\<rparr>"
  let ?s = "bw_go i (BW_Run a) (s\<lparr>b_mem := b_mem s, b_pool := Some ?p\<rparr>)"
  have step: "b_worker_step e i s = Some ?s"
    using pc s q' by (simp add: b_worker_step_def b_set_queue_quiet)
  note t = tally_others [OF i]
  have "b_live_inv ?s ?p ys"
    by (rule b_live_awake [OF b_pool_live [OF inv] i, where pc = "BW_Run a"])
      (simp_all add: pc b_awake_def bw_go_def t)
  moreover have "\<not> bo_drained (b_op s)" using b_pool_phase [OF inv] Cons by (auto simp: b_phase_inv_def)
  then have "b_phase_inv ?s ?p ys"
    by (intro b_phase_awake [OF b_pool_phase [OF inv] i, where pc = "BW_Run a"]) (simp_all add: pc bw_go_def)
  moreover have "b_mem_inv ?s ys" using inv Cons pc by (simp add: b_pool_inv_def b_mem_inv_def bw_go_def t ac_simps)
  moreover have "b_count_inv ?s ?p ys"
    using inv Cons pc by (simp add: b_pool_inv_def b_count_inv_def bw_go_def t b_load_def bw_dec_def ac_simps)
  moreover have "b_job_inv ?s ys" using inv Cons pc by (simp add: b_pool_inv_def b_job_inv_def bw_go_def t ac_simps)
  moreover have "b_sync_inv ?s ?p" using inv by (simp add: b_pool_inv_def b_sync_inv_def bw_go_def)
  ultimately have "b_pool_inv ?s ?p ys" using q'(2,3) by (simp add: b_pool_inv_def bw_go_def)
  moreover have "b_pool ?s = Some ?p" by (simp add: bw_go_def)
  ultimately show ?thesis unfolding step by (intro b_goodI)
qed

lemma b_owned_once:
  assumes "b_mem_inv s xs" and "i < length (b_ws s)" and "bw_node (b_ws s ! i) = {#a#}"
  shows "b_mem s a \<noteq> None" and "a \<notin> set xs" and "a \<notin># others bw_node i (b_ws s)" and "a \<notin># tally bc_node (b_cs s)"
proof -
  let ?M = "mset xs + others bw_node i (b_ws s) + tally bc_node (b_cs s)"
  have m: "add_mset a ?M = mset_set (dom (b_mem s))" and fin: "finite (dom (b_mem s))"
    using assms tally_others(1) [OF assms(2), of bw_node] by (simp_all add: b_mem_inv_def)
  have "count (add_mset a ?M) a \<le> 1" unfolding m using fin by (simp add: count_mset_set')
  then have "count ?M a = 0" by simp
  then have "a \<notin># ?M" by (simp only: not_in_iff)
  then show "a \<notin> set xs" "a \<notin># others bw_node i (b_ws s)" "a \<notin># tally bc_node (b_cs s)" by auto
  have "a \<in># mset_set (dom (b_mem s))" unfolding m [symmetric] by simp
  then show "b_mem s a \<noteq> None" using fin by auto
qed

lemma bw_pend_node: "a \<in># tally bw_pend ws \<Longrightarrow> a \<in># tally bw_node ws"
proof (induction ws)
  case (Cons w ws)
  have "a \<in># bw_pend w \<Longrightarrow> a \<in># bw_node w" by (cases w) auto
  with Cons show ?case by auto
qed simp

lemma bw_pend_others: "i < length ws \<Longrightarrow> a \<in># others bw_pend i ws \<Longrightarrow> a \<in># others bw_node i ws"
  using bw_pend_node [of a "ws[i := BW_Pop]"] by (auto simp only: tally_others(2) bw_pend.simps bw_node.simps add_0)

lemma b_run_good:
  assumes s: "b_pool s = Some p" and inv: "b_pool_inv s p xs" and i: "i < length (b_ws s)"
    and pc: "b_ws s ! i = BW_Run a"
  shows "b_good (b_worker_step e i s)"
proof -
  have mi: "b_mem_inv s xs" using inv by (simp add: b_pool_inv_def)
  obtain t where "b_mem s a = Some t" using b_owned_once(1) [OF mi i] pc by auto
  moreover from this obtain fn where "b_func t = Some fn" using mi by (auto simp: b_mem_inv_def)
  ultimately have t: "b_mem s a = Some t" "b_func t = Some fn" by simp_all
  let ?s = "bw_go i (BW_Free a) (s\<lparr>b_executed := b_executed s @ [b_call t]\<rparr>)"
  note u = tally_others [OF i]
  have "\<not> bo_drained (b_op s)" by (rule b_busy_not_drained [OF b_pool_phase [OF inv] i]) (simp add: pc)
  then have "b_phase_inv ?s p xs"
    by (intro b_phase_awake [OF b_pool_phase [OF inv] i, where pc = "BW_Free a"]) (simp_all add: pc bw_go_def)
  moreover have "b_live_inv ?s p xs"
    by (rule b_live_awake [OF b_pool_live [OF inv] i, where pc = "BW_Free a"]) (simp_all add: pc b_awake_def bw_go_def u)
  moreover have "b_mem_inv ?s xs" using mi pc by (simp add: b_mem_inv_def bw_go_def u)
  moreover have "b_count_inv ?s p xs"
    using inv pc by (simp add: b_pool_inv_def b_count_inv_def bw_go_def u b_load_def bw_dec_def)
  moreover have "b_job_inv ?s xs"
    using inv pc t by (simp add: b_pool_inv_def b_job_inv_def bw_go_def u b_call_at_def)
  moreover have "b_sync_inv ?s p" using inv by (simp add: b_pool_inv_def b_sync_inv_def bw_go_def)
  ultimately have "b_pool_inv ?s p xs" using inv by (simp add: b_pool_inv_def bw_go_def)
  moreover have "b_pool ?s = Some p" using s by (simp add: bw_go_def)
  moreover have "b_worker_step e i s = Some ?s" using pc t by (simp add: b_worker_step_def)
  ultimately show ?thesis by (metis b_goodI)
qed

lemma b_free_good:
  assumes s: "b_pool s = Some p" and inv: "b_pool_inv s p xs" and i: "i < length (b_ws s)"
    and pc: "b_ws s ! i = BW_Free a"
  shows "b_good (b_worker_step e i s)"
proof -
  have mi: "b_mem_inv s xs" using inv by (simp add: b_pool_inv_def)
  have node: "bw_node (b_ws s ! i) = {#a#}" by (simp add: pc)
  note own = b_owned_once [OF mi i node]
  obtain t where t: "b_mem s a = Some t" using own(1) by auto
  let ?h = "(b_mem s)(a := None)"
  let ?s = "bw_go i BW_Dec (s\<lparr>b_mem := ?h\<rparr>)"
  note u = tally_others [OF i]
  have "\<not> bo_drained (b_op s)" by (rule b_busy_not_drained [OF b_pool_phase [OF inv] i]) (simp add: pc)
  then have ph: "b_phase_inv ?s p xs"
    by (intro b_phase_awake [OF b_pool_phase [OF inv] i, where pc = BW_Dec]) (simp_all add: pc bw_go_def)
  have live: "b_live_inv ?s p xs"
    by (rule b_live_awake [OF b_pool_live [OF inv] i, where pc = BW_Dec]) (simp_all add: pc b_awake_def bw_go_def u)
  have d: "dom (b_mem s) = insert a (dom ?h)" "a \<notin> dom ?h" "finite (dom ?h)"
    using t mi by (auto simp: b_mem_inv_def)
  have q: "q_inv ?h (b_queue p) xs"
    by (rule q_inv_outside [of "b_mem s"]) (use inv own(2) in \<open>auto simp: b_pool_inv_def\<close>)
  have ok: "list_all (bc_ok ?h) (b_cs s)"
    unfolding list_all_length
  proof (intro allI impI)
    fix j assume j: "j < length (b_cs s)"
    have "a \<notin># bc_node (b_cs s ! j)" using own(4) tally_others(1) [OF j, of bc_node] by auto
    moreover have "bc_ok (b_mem s) (b_cs s ! j)" using mi j by (simp add: b_mem_inv_def list_all_length)
    ultimately show "bc_ok ?h (b_cs s ! j)" by (cases "b_cs s ! j") auto
  qed
  have "mset xs + others bw_node i (b_ws s) + tally bc_node (b_cs s) = mset_set (dom ?h)"
  proof -
    have "add_mset a (mset xs + others bw_node i (b_ws s) + tally bc_node (b_cs s)) = mset_set (dom (b_mem s))"
      using mi pc by (simp add: b_mem_inv_def u)
    also have "\<dots> = add_mset a (mset_set (dom ?h))" unfolding d(1) by (rule mset_set.insert [OF d(3,2)])
    finally show ?thesis by (simp only: add_mset_add_mset_same_iff)
  qed
  then have m: "b_mem_inv ?s xs" using mi ok d(3) by (simp add: b_mem_inv_def bw_go_def u)
  have "image_mset (b_call_at ?h) (mset xs + others bw_pend i (b_ws s)) =
      image_mset (b_call_at (b_mem s)) (mset xs + others bw_pend i (b_ws s))"
    using own(2,3) bw_pend_others [OF i, of a]
    by (intro image_mset_cong) (auto simp: b_call_at_def)
  then have j: "b_job_inv ?s xs" using inv pc by (simp add: b_pool_inv_def b_job_inv_def bw_go_def u)
  have "card (dom (b_mem s)) = Suc (card (dom ?h))" unfolding d(1) by (rule card_insert_disjoint [OF d(3,2)])
  then have "b_count_inv ?s p xs" using inv pc
    by (simp add: b_pool_inv_def b_count_inv_def bw_go_def u b_load_def bw_dec_def)
  then have "b_pool_inv ?s p xs"
    using inv ph live q m j by (simp add: b_pool_inv_def b_sync_inv_def bw_go_def)
  moreover have "b_pool ?s = Some p" using s by (simp add: bw_go_def)
  moreover have "b_worker_step e i s = Some ?s" using pc t by (simp add: b_worker_step_def)
  ultimately show ?thesis by (metis b_goodI)
qed

lemma b_dec_good:
  assumes s: "b_pool s = Some p" and inv: "b_pool_inv s p xs" and i: "i < length (b_ws s)"
    and pc: "b_ws s ! i = BW_Dec"
  shows "b_good (b_worker_step e i s)"
proof -
  have mi: "b_mem_inv s xs" "b_count_inv s p xs" using inv by (simp_all add: b_pool_inv_def)
  note u = tally_others [OF i]
  define n where "n = length xs + others bw_count i (b_ws s) + tally bc_count (b_cs s)"
  have "sint (b_total p) = int (Suc n)" using b_total_sint(1) [OF mi] pc by (simp add: u n_def)
  then have sn: "sint (b_total p) \<le> 1 \<longleftrightarrow> n = 0" "sint (b_total p) \<noteq> - (2 ^ 31)" by simp_all
  let ?p = "p\<lparr>b_total := b_total p - 1\<rparr>"
  let ?pc = "if n = 0 then BW_Bcast else BW_Pop"
  let ?s = "bw_go i ?pc (s\<lparr>b_pool := Some ?p\<rparr>)"
  have step: "b_worker_step e i s = Some ?s" using pc s sn(2) by (simp add: b_worker_step_def Let_def sn(1) if_distrib)
  have "\<not> bo_drained (b_op s)" by (rule b_busy_not_drained [OF b_pool_phase [OF inv] i]) (simp add: pc)
  then have "b_phase_inv ?s ?p xs"
    by (intro b_phase_awake [OF b_pool_phase [OF inv] i, where pc = ?pc]) (simp_all add: pc bw_go_def)
  moreover have "bw_count ?pc = 0" "b_awake ?pc" "bw_node ?pc = {#}" "bw_pend ?pc = {#}" "bw_dec ?pc = 0"
    by (simp_all add: b_awake_def bw_dec_def)
  note w = this
  moreover have "b_live_inv ?s ?p xs"
    by (rule b_live_awake [OF b_pool_live [OF inv] i, where pc = ?pc]) (use w in \<open>simp_all add: pc bw_go_def u n_def\<close>)
  moreover have "b_mem_inv ?s xs" using mi w pc by (simp add: b_mem_inv_def bw_go_def u)
  moreover have "b_count_inv ?s ?p xs" using mi w pc by (simp add: b_count_inv_def bw_go_def u b_load_def bw_dec_def)
  moreover have "b_job_inv ?s xs" using inv w pc by (simp add: b_pool_inv_def b_job_inv_def bw_go_def u)
  moreover have "b_sync_inv ?s ?p" using inv by (simp add: b_pool_inv_def b_sync_inv_def bw_go_def)
  ultimately have "b_pool_inv ?s ?p xs" using inv by (simp add: b_pool_inv_def bw_go_def)
  moreover have "b_pool ?s = Some ?p" by (simp add: bw_go_def)
  ultimately show ?thesis unfolding step by (intro b_goodI)
qed

lemma b_wake_drain_inv:
  assumes "b_pool_inv s p xs"
  shows "b_pool_inv (b_wake_drain s) p xs" and "\<not> b_waiter (b_wake_drain s)"
    and "b_ws (b_wake_drain s) = b_ws s" and "b_pool (b_wake_drain s) = b_pool s"
proof -
  let ?f = "\<lambda>pc. if pc = BT_DrainWait then BT_Drain else pc"
  have w: "bc_node (?f pc) = bc_node pc" "bc_count (?f pc) = bc_count pc" "bc_flight (?f pc) = bc_flight pc"
    "bc_ok h (?f pc) = bc_ok h pc" "bc_out (?f pc) = bc_out pc" for pc h
    by (auto simp: bc_out_def)
  note t = tally_map [of bc_node ?f, OF w(1)] tally_map [of bc_count ?f, OF w(2)] tally_map [of bc_flight ?f, OF w(3)]
  show n: "\<not> b_waiter (b_wake_drain s)" by (auto simp: b_waiter_def b_wake_drain_def)
  have la: "list_all (bc_ok h) (map ?f cs) = list_all (bc_ok h) cs" "list_all bc_out (map ?f cs) = list_all bc_out cs" for h cs
    by (simp_all add: list.pred_map o_def w del: bc_ok.simps)
  have "b_mem_inv (b_wake_drain s) xs" "b_count_inv (b_wake_drain s) p xs" "b_job_inv (b_wake_drain s) xs"
    "b_sync_inv (b_wake_drain s) p"
    using assms unfolding b_pool_inv_def b_mem_inv_def b_count_inv_def b_job_inv_def b_sync_inv_def b_load_def b_wake_drain_def
    by (simp_all add: t la)
  moreover have "b_phase_inv (b_wake_drain s) p xs"
    using assms unfolding b_pool_inv_def b_phase_inv_def b_wake_drain_def
    by (cases "b_op s = BO_DrainWait") (simp_all add: la bo_drained_def)
  moreover have "b_live_inv (b_wake_drain s) p xs"
    using assms n unfolding b_pool_inv_def b_live_inv_def by (simp add: b_wake_drain_def)
  ultimately show "b_pool_inv (b_wake_drain s) p xs" using assms by (simp add: b_pool_inv_def b_wake_drain_def)
qed (simp_all add: b_wake_drain_def)

lemma b_bcast_good:
  assumes s: "b_pool s = Some p" and inv: "b_pool_inv s p xs" and i: "i < length (b_ws s)"
    and pc: "b_ws s ! i = BW_Bcast"
  shows "b_good (b_worker_step e i s)"
proof -
  note w = b_wake_drain_inv [OF inv]
  have "b_pool_inv (bw_go i BW_Pop (b_wake_drain s)) p xs"
    by (rule b_worker_moves [OF w(1), where old = BW_Bcast]) (use i pc w in \<open>simp_all add: b_awake_def\<close>)
  moreover have "b_pool (bw_go i BW_Pop (b_wake_drain s)) = Some p" using s w(4) by (simp add: bw_go_def)
  moreover have "b_drain_mutex p = MFree" "b_drain_cond p \<noteq> CUninit"
    using inv by (simp_all add: b_pool_inv_def b_sync_inv_def)
  then have "b_worker_step e i s = Some (bw_go i BW_Pop (b_wake_drain s))"
    using pc s by (cases "b_drain_cond p") (simp_all add: b_worker_step_def)
  ultimately show ?thesis by (metis b_goodI)
qed

lemma b_worker_good:
  assumes "b_inv s" and "b_worker_ready s i"
  shows "b_good (b_worker_step e i s)"
proof (cases "b_pool s")
  case None
  then show ?thesis using assms by (auto simp: b_inv_def b_gone_inv_def b_worker_ready_def list_all_length)
next
  case (Some p)
  then obtain xs where inv: "b_pool_inv s p xs" using assms(1) by (auto simp: b_inv_def)
  have i: "i < length (b_ws s)" using assms(2) by (simp add: b_worker_ready_def)
  show ?thesis
    using assms(2) b_pop_good [OF Some inv i] b_run_good [OF Some inv i] b_free_good [OF Some inv i]
      b_dec_good [OF Some inv i] b_bcast_good [OF Some inv i]
    by (cases "b_ws s ! i") (simp_all add: b_worker_ready_def)
qed

section \<open>Clients\<close>

text \<open>A client that moves between two points of a call before the shutdown, with the counters it changes.\<close>

lemma b_client_moves:
  assumes inv: "b_pool_inv s p xs" and j: "j < length (b_cs s)" and op: "b_op s = BO_Idle"
    and fl: "fl = of_nat (bc_flight pc + others bc_flight j (b_cs s))"
    and tot: "tot = of_nat (length xs + tally bw_count (b_ws s) + (bc_count pc + others bc_count j (b_cs s)))"
    and node: "bc_node pc = bc_node (b_cs s ! j)" and ok: "bc_ok (b_mem s) pc"
    and cnt: "bc_count (b_cs s ! j) \<le> bc_count pc"
    and wait: "pc = BT_DrainWait \<Longrightarrow> 0 < length xs + tally bw_count (b_ws s) + tally bc_count (b_cs s)"
  shows "b_good (Some (bc_go j pc (s\<lparr>b_pool := Some (p\<lparr>b_in_flight := fl, b_total := tot\<rparr>)\<rparr>)))"
proof -
  note u = tally_others [OF j]
  let ?p = "p\<lparr>b_in_flight := fl, b_total := tot\<rparr>" let ?s = "bc_go j pc (s\<lparr>b_pool := Some ?p\<rparr>)"
  have "b_waiter ?s \<Longrightarrow> b_waiter s \<or> pc = BT_DrainWait"
    using op set_update_subset_insert [of "b_cs s" j pc] by (auto simp: b_waiter_def bc_go_def)
  then have "b_live_inv ?s ?p xs"
    using b_pool_live [OF inv] wait cnt unfolding b_live_inv_def by (simp add: bc_go_def u) linarith
  moreover have "b_mem_inv ?s xs"
    using inv node list_all_update [of "bc_ok (b_mem s)", OF _ ok] by (simp add: b_pool_inv_def b_mem_inv_def bc_go_def u)
  moreover have "b_count_inv ?s ?p xs"
    using inv fl tot by (simp add: b_pool_inv_def b_count_inv_def bc_go_def u b_load_def)
  moreover have "b_job_inv ?s xs" "b_sync_inv ?s ?p" "b_phase_inv ?s ?p xs"
    using inv op by (simp_all add: b_pool_inv_def b_job_inv_def b_sync_inv_def b_phase_inv_def bc_go_def bo_drained_def)
  ultimately have "b_pool_inv ?s ?p xs" using inv by (simp add: b_pool_inv_def bc_go_def)
  moreover have "b_pool ?s = Some ?p" by (simp add: bc_go_def)
  ultimately show ?thesis by (intro b_goodI)
qed

text \<open>The same without a counter.\<close>

lemma b_client_plain:
  assumes inv: "b_pool_inv s p xs" and s: "b_pool s = Some p" and j: "j < length (b_cs s)" and op: "b_op s = BO_Idle"
    and "bc_flight pc = bc_flight (b_cs s ! j)" and "bc_count pc = bc_count (b_cs s ! j)"
    and "bc_node pc = bc_node (b_cs s ! j)" and "bc_ok (b_mem s) pc"
    and "pc = BT_DrainWait \<Longrightarrow> 0 < length xs + tally bw_count (b_ws s) + tally bc_count (b_cs s)"
  shows "b_good (Some (bc_go j pc s))"
proof -
  have c: "b_in_flight p = of_nat (tally bc_flight (b_cs s))"
    "b_total p = of_nat (length xs + tally bw_count (b_ws s) + tally bc_count (b_cs s))"
    using inv by (simp_all add: b_pool_inv_def b_count_inv_def)
  have "s\<lparr>b_pool := Some (p\<lparr>b_in_flight := b_in_flight p, b_total := b_total p\<rparr>)\<rparr> = s" using s by simp
  with b_client_moves [OF inv j op, of "b_in_flight p" pc "b_total p"] assms(5-) show ?thesis
    by (simp add: c tally_others(1) [OF j])
qed

text \<open>And with one counter.\<close>

lemma b_client_flight:
  assumes inv: "b_pool_inv s p xs" and j: "j < length (b_cs s)" and op: "b_op s = BO_Idle"
    and "fl = of_nat (bc_flight pc + others bc_flight j (b_cs s))" and "bc_count pc = bc_count (b_cs s ! j)"
    and "bc_node pc = bc_node (b_cs s ! j)" and "bc_ok (b_mem s) pc" and "pc \<noteq> BT_DrainWait"
  shows "b_good (Some (bc_go j pc (s\<lparr>b_pool := Some (p\<lparr>b_in_flight := fl\<rparr>)\<rparr>)))"
proof -
  have "b_good (Some (bc_go j pc (s\<lparr>b_pool := Some (p\<lparr>b_in_flight := fl, b_total := b_total p\<rparr>)\<rparr>)))"
    by (rule b_client_moves [OF inv j op assms(4)])
      (use assms in \<open>simp_all add: b_pool_inv_def b_count_inv_def tally_others(1) [OF j]\<close>)
  then show ?thesis by simp
qed

lemma b_client_total:
  assumes inv: "b_pool_inv s p xs" and j: "j < length (b_cs s)" and op: "b_op s = BO_Idle"
    and "bc_flight pc = bc_flight (b_cs s ! j)" and "bc_count pc = Suc (bc_count (b_cs s ! j))"
    and "bc_node pc = bc_node (b_cs s ! j)" and "bc_ok (b_mem s) pc" and "pc \<noteq> BT_DrainWait"
  shows "b_good (Some (bc_go j pc (s\<lparr>b_pool := Some (p\<lparr>b_total := b_total p + 1\<rparr>)\<rparr>)))"
proof -
  have "b_good (Some (bc_go j pc (s\<lparr>b_pool := Some (p\<lparr>b_in_flight := b_in_flight p, b_total := b_total p + 1\<rparr>)\<rparr>)))"
    by (rule b_client_moves [OF inv j op])
      (use assms in \<open>simp_all add: b_pool_inv_def b_count_inv_def tally_others(1) [OF j]\<close>)
  then show ?thesis by simp
qed

lemma b_create_good:
  assumes s: "b_pool s = Some p" and inv: "b_pool_inv s p xs" and j: "j < length (b_cs s)" and op: "b_op s = BO_Idle"
    and pc: "b_cs s ! j = BS_Create fn ar" and env: "benv_ok e s"
  shows "b_good (b_client_step e j s)"
proof (cases "be_malloc e")
  case None
  then show ?thesis using b_client_plain [OF inv s j op, of BS_Undo] pc by (simp add: b_client_step_def)
next
  case (Some a)
  let ?h = "(b_mem s)(a \<mapsto> new_task (be_garbage e) fn ar)"
  let ?s = "bc_go j (BS_Count a) (s\<lparr>b_mem := ?h\<rparr>)"
  note u = tally_others [OF j]
  have a: "b_mem s a = None" "b_load s + 1 < 2 ^ 31" using env Some by (simp_all add: benv_ok_def)
  have mi: "b_mem_inv s xs" using inv by (simp add: b_pool_inv_def)
  have fn: "fn \<noteq> None" using mi j pc by (auto simp: b_mem_inv_def list_all_length dest!: spec [of _ j])
  have d: "dom ?h = insert a (dom (b_mem s))" "a \<notin> dom (b_mem s)" "finite (dom (b_mem s))"
    using a mi by (auto simp: b_mem_inv_def)
  have free: "a \<notin># mset xs + tally bw_node (b_ws s)"
  proof -
    have "a \<notin># mset xs + tally bw_node (b_ws s) + tally bc_node (b_cs s)"
      using mi d(2,3) unfolding b_mem_inv_def by simp
    then show ?thesis by simp
  qed
  have q: "q_inv ?h (b_queue p) xs"
    by (rule q_inv_outside [of "b_mem s"]) (use inv free in \<open>auto simp: b_pool_inv_def\<close>)
  have "bc_ok (b_mem s) c \<Longrightarrow> bc_ok ?h c" for c using a by (cases c) auto
  then have "list_all (bc_ok ?h) (b_cs s)" using mi by (auto simp: b_mem_inv_def list_all_iff)
  then have "list_all (bc_ok ?h) ((b_cs s)[j := BS_Count a])" by (rule list_all_update) (simp add: new_task_def)
  moreover have "mset xs + tally bw_node (b_ws s) + add_mset a (others bc_node j (b_cs s)) = mset_set (dom ?h)"
    unfolding d(1) using mi pc mset_set.insert [OF d(3,2)] by (simp add: b_mem_inv_def u)
  ultimately have m: "b_mem_inv ?s xs"
    using mi d(3) fn by (auto simp: b_mem_inv_def bc_go_def u new_task_def)
  have "b_call_at ?h x = b_call_at (b_mem s) x" if "x \<in># mset xs + tally bw_pend (b_ws s)" for x
    using that free bw_pend_node [of a "b_ws s"] by (auto simp: b_call_at_def)
  then have "image_mset (b_call_at ?h) (mset xs + tally bw_pend (b_ws s)) =
      image_mset (b_call_at (b_mem s)) (mset xs + tally bw_pend (b_ws s))"
    by (rule image_mset_cong)
  then have jb: "b_job_inv ?s xs" using inv by (simp add: b_pool_inv_def b_job_inv_def bc_go_def)
  have "card (dom ?h) = Suc (card (dom (b_mem s)))" unfolding d(1) by (rule card_insert_disjoint [OF d(3,2)])
  then have c: "b_count_inv ?s p xs"
    using inv pc a(2) by (simp add: b_pool_inv_def b_count_inv_def bc_go_def u b_load_def)
  have "b_waiter ?s \<Longrightarrow> b_waiter s"
    using op set_update_subset_insert [of "b_cs s" j "BS_Count a"] by (auto simp: b_waiter_def bc_go_def)
  then have l: "b_live_inv ?s p xs"
    using b_pool_live [OF inv] pc unfolding b_live_inv_def by (simp add: bc_go_def u)
  have "b_pool_inv ?s p xs"
    using inv op q m jb c l by (simp add: b_pool_inv_def b_sync_inv_def b_phase_inv_def bc_go_def)
  moreover have "b_pool ?s = Some p" using s by (simp add: bc_go_def)
  ultimately have "b_good (Some ?s)" by (intro b_goodI)
  then show ?thesis using Some pc by (simp add: b_client_step_def)
qed

lemma b_client_once:
  assumes mi: "b_mem_inv s xs" and j: "j < length (b_cs s)" and x: "x \<in># bc_node (b_cs s ! j)"
  shows "x \<notin># mset xs + tally bw_node (b_ws s) + others bc_node j (b_cs s)"
proof -
  have "bc_node (b_cs s ! j) = {#x#}" using x by (cases "b_cs s ! j") auto
  then have "add_mset x (mset xs + tally bw_node (b_ws s) + others bc_node j (b_cs s)) = mset_set (dom (b_mem s))"
    using mi by (simp add: b_mem_inv_def tally_others(1) [OF j])
  moreover have "count (mset_set (dom (b_mem s))) x \<le> 1" using mi by (simp add: b_mem_inv_def count_mset_set')
  ultimately have "count (add_mset x (mset xs + tally bw_node (b_ws s) + others bc_node j (b_cs s))) x \<le> 1" by simp
  then have "count (mset xs + tally bw_node (b_ws s) + others bc_node j (b_cs s)) x = 0" by simp
  then show ?thesis by (simp only: not_in_iff)
qed

lemma b_pending_live:
  assumes "b_mem_inv s xs" and "x \<in># mset xs + tally bw_pend (b_ws s)"
  shows "b_mem s x \<noteq> None"
proof -
  have "x \<in># mset xs + tally bw_node (b_ws s) + tally bc_node (b_cs s)"
    using assms(2) bw_pend_node [of x "b_ws s"] by auto
  then show ?thesis using assms(1) unfolding b_mem_inv_def by auto
qed

lemma same_callsD:
  assumes "same_calls h h'"
  shows "dom h' = dom h" and "h x \<noteq> None \<Longrightarrow> b_call_at h' x = b_call_at h x"
    and "\<forall>a t. h a = Some t \<longrightarrow> b_func t \<noteq> None \<Longrightarrow> h' y = Some u \<Longrightarrow> b_func u \<noteq> None"
proof -
  have eq: "map_option b_call (h' x) = map_option b_call (h x)" for x using assms by (simp add: same_calls_def)
  show "dom h' = dom h" using eq unfolding dom_def by (metis (mono_tags) option.map_disc_iff)
  show "h x \<noteq> None \<Longrightarrow> b_call_at h' x = b_call_at h x" using eq [of x] by (auto simp: b_call_at_def)
  assume f: "\<forall>a t. h a = Some t \<longrightarrow> b_func t \<noteq> None" and u: "h' y = Some u"
  obtain t where t: "h y = Some t" "b_call t = b_call u" using eq [of y, symmetric] u by auto
  then have "b_func t \<noteq> None" using f by blast
  then show "b_func u \<noteq> None" using t(2) by (simp add: b_call_def)
qed

lemma b_push_ok_clients:
  assumes mi: "b_mem_inv s xs" and j: "j < length (b_cs s)" and h: "\<And>x. x \<notin> set xs \<Longrightarrow> h x = b_mem s x"
  shows "list_all (bc_ok h) ((b_cs s)[j := BS_Leave])"
proof (rule list_all_update)
  show "list_all (bc_ok h) (b_cs s)"
    unfolding list_all_length
  proof (intro allI impI)
    fix k assume k: "k < length (b_cs s)"
    have "x \<in># bc_node (b_cs s ! k) \<Longrightarrow> h x = b_mem s x" for x using b_client_once [OF mi k, of x] h by auto
    moreover have "bc_ok (b_mem s) (b_cs s ! k)" using mi k by (simp add: b_mem_inv_def list_all_length)
    ultimately show "bc_ok h (b_cs s ! k)" by (cases "b_cs s ! k") auto
  qed
qed simp

lemma b_push_good:
  assumes s: "b_pool s = Some p" and inv: "b_pool_inv s p xs" and j: "j < length (b_cs s)" and op: "b_op s = BO_Idle"
    and pc: "b_cs s ! j = BS_Push a" and fair: "b_fair s (be_pick e)"
  shows "b_good (b_client_step e j s)"
proof -
  note u = tally_others [OF j]
  have mi: "b_mem_inv s xs" and q: "q_inv (b_mem s) (b_queue p) xs" "q_cond (b_queue p) = CLive []"
    using inv by (simp_all add: b_pool_inv_def)
  obtain t where t: "b_mem s a = Some t" "b_next t = None"
    using mi j pc by (auto simp: b_mem_inv_def list_all_length dest!: spec [of _ j])
  have "a \<notin> set xs" using b_client_once [OF mi j, of a] pc by simp
  obtain h q' where q': "q_push (b_mem s) (b_queue p) a = Some (0, h, q')" "q_inv h q' (xs @ [a])"
    "same_calls (b_mem s) h" "\<And>x. x \<notin> set xs \<Longrightarrow> h x = b_mem s x" "q_cond q' = CLive [Signal]"
    using q_push_ok [OF q(1) t \<open>a \<notin> set xs\<close>] q(2) by auto
  let ?ws = "b_deliver (be_pick e) [Signal] (b_ws s)"
  let ?p = "p\<lparr>b_queue := q'\<lparr>q_cond := CLive []\<rparr>\<rparr>"
  let ?s = "bc_go j BS_Leave (s\<lparr>b_mem := h, b_pool := Some ?p, b_ws := ?ws, b_accepted := b_accepted s @ [b_call t]\<rparr>)"
  have step: "b_client_step e j s = Some ?s"
    using pc s t(1) q'(1,5) by (simp add: b_client_step_def b_set_queue_def b_wakes_def)
  have qi: "q_inv h (q'\<lparr>q_cond := CLive []\<rparr>) (xs @ [a])" using q'(2) by (simp add: q_inv_def)
  note dm = same_callsD(1) [OF q'(3)]
  have m: "b_mem_inv ?s (xs @ [a])"
    using mi pc dm same_callsD(3) [OF q'(3)] b_push_ok_clients [OF mi j q'(4)] unfolding b_mem_inv_def
    by (simp add: bc_go_def u)
  have "image_mset (b_call_at h) (mset xs + tally bw_pend (b_ws s)) =
      image_mset (b_call_at (b_mem s)) (mset xs + tally bw_pend (b_ws s))"
    by (rule image_mset_cong) (rule same_callsD(2) [OF q'(3) b_pending_live [OF mi]])
  moreover have "b_call_at h a = b_call t" using same_callsD(2) [OF q'(3), of a] t(1) by (simp add: b_call_at_def)
  ultimately have jb: "b_job_inv ?s (xs @ [a])" using inv by (simp add: b_pool_inv_def b_job_inv_def bc_go_def)
  have c: "b_count_inv ?s ?p (xs @ [a])"
    using inv pc dm by (simp add: b_pool_inv_def b_count_inv_def bc_go_def u b_load_def)
  have "list_ex b_awake ?ws"
    by (rule b_deliver_signal [OF fair]) (use inv op in \<open>auto simp: b_pool_inv_def b_live_inv_def b_phase_inv_def b_sync_inv_def\<close>)
  then have l: "b_live_inv ?s ?p (xs @ [a])"
    using b_pool_live [OF inv] b_pool_phase [OF inv] op by (simp add: b_live_inv_def b_phase_inv_def bc_go_def)
  have "b_pool_inv ?s ?p (xs @ [a])"
    using inv op qi m jb c l
    by (simp add: b_pool_inv_def b_sync_inv_def b_phase_inv_def bc_go_def bo_drained_def)
  moreover have "b_pool ?s = Some ?p" by (simp add: bc_go_def)
  ultimately show ?thesis unfolding step by (intro b_goodI)
qed

lemma b_client_good:
  assumes inv: "b_inv s" and rdy: "b_client_ready s j" and env: "benv_ok e s" and fair: "b_fair s (be_pick e)"
  shows "b_good (b_client_step e j s)"
proof -
  have j: "j < length (b_cs s)" using rdy by (simp add: b_client_ready_def)
  have ready: "\<not> bc_out (b_cs s ! j) \<or> b_op s = BO_Idle" using rdy by (auto simp: b_client_ready_def bc_out_def split: bc_pc.splits)
  have "b_pool s \<noteq> None"
  proof
    assume "b_pool s = None"
    then have "list_all bc_out (b_cs s)" "b_op s = BO_Done" using inv by (auto simp: b_inv_def b_gone_inv_def)
    then show False using ready j by (auto simp: list_all_length)
  qed
  then obtain p xs where s: "b_pool s = Some p" and pi: "b_pool_inv s p xs" using inv by (auto simp: b_inv_def)
  have op: "b_op s = BO_Idle" using ready b_pool_phase [OF pi] j by (auto simp: b_phase_inv_def list_all_length)
  have mi: "b_mem_inv s xs" and ci: "b_count_inv s p xs" and sy: "b_drain_mutex p = MFree"
    using pi by (simp_all add: b_pool_inv_def b_sync_inv_def)
  have ok: "bc_ok (b_mem s) (b_cs s ! j)" using mi j by (simp add: b_mem_inv_def list_all_length)
  have c: "b_in_flight p = of_nat (bc_flight (b_cs s ! j) + others bc_flight j (b_cs s))"
    using ci by (simp add: b_count_inv_def tally_others(1) [OF j])
  note plain = b_client_plain [OF pi s j op] and flight = b_client_flight [OF pi j op]
  show ?thesis
  proof (cases "b_cs s ! j")
    case (BS_Enter fn ar)
    then show ?thesis using plain [of "BS_Done (- 1)"] plain [of "BS_Flight fn ar"] s by (simp add: b_client_step_def)
  next
    case (BS_Flight fn ar)
    then show ?thesis
      using flight [of "b_in_flight p + 1" "BS_Create fn ar"] ok s c by (simp add: b_client_step_def)
  next
    case (BS_Create fn ar)
    then show ?thesis by (rule b_create_good [OF s pi j op _ env])
  next
    case BS_Undo
    then show ?thesis
      using flight [of "b_in_flight p - 1" "BS_Done (- 1)"] s c by (simp add: b_client_step_def)
  next
    case (BS_Count a)
    then show ?thesis
      using b_client_total [OF pi j op, of "BS_Push a"] ok s by (simp add: b_client_step_def)
  next
    case (BS_Push a)
    then show ?thesis by (rule b_push_good [OF s pi j op _ fair])
  next
    case BS_Leave
    then show ?thesis
      using flight [of "b_in_flight p - 1" "BS_Done 0"] s c by (simp add: b_client_step_def)
  next
    case BT_Enter
    then show ?thesis using plain [of BT_Drain] by (simp add: b_client_step_def)
  next
    case BT_Drain
    then show ?thesis
      using plain [of BT_DrainWait] plain [of BT_Done] s sy b_total_sint(2) [OF mi ci] by (simp add: b_client_step_def b_drain_round_def)
  qed (use rdy in \<open>simp_all add: b_client_ready_def\<close>)
qed

section \<open>Shutdown\<close>

text \<open>The owner moves and leaves the pool alone, or sets the flag.\<close>

lemma b_owner_moves:
  assumes inv: "b_pool_inv s p xs" and op: "b_op s \<noteq> BO_Idle"
    and ph: "b_shutdown p' \<longleftrightarrow> pc \<noteq> BO_Idle \<and> pc \<noteq> BO_Flag" "bo_drained pc \<Longrightarrow> xs = [] \<and> tally bw_count (b_ws s) = 0"
      "bo_joined pc (b_ws s)"
    and p': "p' = p \<or> p' = p\<lparr>b_shutdown := True\<rparr>"
    and wait: "pc = BO_DrainWait \<Longrightarrow> 0 < length xs + tally bw_count (b_ws s) + tally bc_count (b_cs s)"
    and pop: "b_shutdown p' \<Longrightarrow> pc \<noteq> BO_Wake \<Longrightarrow> BW_PopWait \<notin> set (b_ws s)"
  shows "b_good (Some (bo_go pc (s\<lparr>b_pool := Some p'\<rparr>)))"
proof -
  let ?s = "bo_go pc (s\<lparr>b_pool := Some p'\<rparr>)"
  have same: "b_queue p' = b_queue p" "b_total p' = b_total p" "b_in_flight p' = b_in_flight p"
    "b_drain_mutex p' = b_drain_mutex p" "b_drain_cond p' = b_drain_cond p" "worker_thread p' = worker_thread p"
    "b_num_workers p' = b_num_workers p" "b_shutdown p \<Longrightarrow> b_shutdown p'" using p' by auto
  have out: "list_all bc_out (b_cs s)" using b_pool_phase [OF inv] op by (simp add: b_phase_inv_def)
  have "b_phase_inv ?s p' xs" using ph out by (simp add: b_phase_inv_def bo_go_def)
  moreover have "b_waiter ?s \<Longrightarrow> pc = BO_DrainWait" using bc_out_weights(4) [OF out] by (simp add: b_waiter_def bo_go_def)
  then have "b_live_inv ?s p' xs"
    using b_pool_live [OF inv] wait pop same(8) unfolding b_live_inv_def by (auto simp: bo_go_def)
  ultimately have "b_pool_inv ?s p' xs"
    using inv by (simp add: b_pool_inv_def b_mem_inv_def b_count_inv_def b_job_inv_def b_sync_inv_def same bo_go_def b_load_def)
  moreover have "b_pool ?s = Some p'" by (simp add: bo_go_def)
  ultimately show ?thesis by (intro b_goodI)
qed

lemma b_owner_plain:
  assumes inv: "b_pool_inv s p xs" and s: "b_pool s = Some p" and op: "b_op s \<noteq> BO_Idle" "b_op s \<noteq> BO_Flag" "b_op s \<noteq> BO_Wake"
    and "bo_drained pc \<Longrightarrow> xs = [] \<and> tally bw_count (b_ws s) = 0" "bo_joined pc (b_ws s)" "pc \<noteq> BO_Idle" "pc \<noteq> BO_Flag"
    and "pc = BO_DrainWait \<Longrightarrow> 0 < length xs + tally bw_count (b_ws s) + tally bc_count (b_cs s)"
  shows "b_good (Some (bo_go pc s))"
proof -
  have "b_shutdown p" using b_pool_phase [OF inv] op by (simp add: b_phase_inv_def)
  moreover then have "BW_PopWait \<notin> set (b_ws s)" using b_pool_live [OF inv] op(3) by (simp add: b_live_inv_def)
  ultimately have "b_good (Some (bo_go pc (s\<lparr>b_pool := Some p\<rparr>)))"
    by (intro b_owner_moves [OF inv op(1)]) (use assms in simp_all)
  moreover have "s\<lparr>b_pool := Some p\<rparr> = s" using s by simp
  ultimately show ?thesis by simp
qed

lemma b_wake_good:
  assumes s: "b_pool s = Some p" and inv: "b_pool_inv s p xs" and op: "b_op s = BO_Wake"
  shows "b_good (b_shutdown_step e s)"
proof -
  have q: "q_inv (b_mem s) (b_queue p) xs" "q_cond (b_queue p) = CLive []" using inv by (simp_all add: b_pool_inv_def)
  obtain q' where q': "q_wake_all (b_queue p) = Some (0, q')" "q_inv (b_mem s) q' xs" "q_cond q' = CLive [Broadcast]"
    using q_wake_all_ok [OF q(1)] q(2) by auto
  let ?ws = "b_deliver (be_pick e) [Broadcast] (b_ws s)"
  let ?p = "p\<lparr>b_queue := q'\<lparr>q_cond := CLive []\<rparr>\<rparr>"
  let ?s = "bo_go BO_Spin (s\<lparr>b_mem := b_mem s, b_pool := Some ?p, b_ws := ?ws\<rparr>)"
  have step: "b_shutdown_step e s = Some ?s" using op s q' by (simp add: b_shutdown_step_def b_set_queue_def b_wakes_def)
  have out: "list_all bc_out (b_cs s)" "b_shutdown p" using b_pool_phase [OF inv] op by (simp_all add: b_phase_inv_def)
  have "BW_PopWait \<notin> set ?ws" by (auto simp: b_deliver.simps b_wake_pop_def)
  then have l: "b_live_inv ?s ?p xs"
    using b_pool_live [OF inv] op out bc_out_weights(4) [OF out(1)] b_deliver_awake [of "b_ws s"]
    unfolding b_live_inv_def by (simp add: b_waiter_def bo_go_def)
  have "q_inv (b_mem s) (q'\<lparr>q_cond := CLive []\<rparr>) xs" using q'(2) by (simp add: q_inv_def)
  then have "b_pool_inv ?s ?p xs"
    using inv l op out
    by (simp add: b_pool_inv_def b_mem_inv_def b_count_inv_def b_job_inv_def b_sync_inv_def b_phase_inv_def bo_go_def
        b_load_def bo_drained_def)
  moreover have "b_pool ?s = Some ?p" by (simp add: bo_go_def)
  ultimately show ?thesis unfolding step by (intro b_goodI)
qed

lemma b_release_good:
  assumes s: "b_pool s = Some p" and inv: "b_pool_inv s p xs" and op: "b_op s = BO_Release"
  shows "b_good (b_shutdown_step e s)"
proof -
  have "b_drain_mutex p = MFree" "b_drain_cond p \<noteq> CUninit" "worker_thread p \<noteq> None" "q_mutex (b_queue p) = MFree"
    "q_cond (b_queue p) = CLive []"
    using inv by (simp_all add: b_pool_inv_def b_sync_inv_def q_inv_def)
  then have "b_release p \<noteq> None" by (cases "b_drain_cond p") (auto simp: b_release_def Let_def)
  then have step: "b_shutdown_step e s = Some (bo_go BO_Done (s\<lparr>b_pool := None\<rparr>))"
    using op s by (auto simp: b_shutdown_step_def)
  have ph: "list_all bc_out (b_cs s)" "xs = []" "tally bw_count (b_ws s) = 0" "list_all (\<lambda>pc. pc = BW_Exit) (b_ws s)"
    using b_pool_phase [OF inv] op by (simp_all add: b_phase_inv_def bo_drained_def)
  have "mset_set (dom (b_mem s)) = {#}" "finite (dom (b_mem s))"
    using inv ph(2) no_bw_count(1) [OF ph(3)] bc_out_weights(3) [OF ph(1)] by (simp_all add: b_pool_inv_def b_mem_inv_def)
  then have "b_mem s = Map.empty" by (simp add: mset_set_empty_iff)
  moreover have "mset (b_accepted s) = mset (b_executed s)"
    using inv ph(2) no_bw_count(2) [OF ph(3)] by (simp add: b_pool_inv_def b_job_inv_def)
  ultimately show ?thesis unfolding step using ph by (simp add: b_good_def b_inv_def b_gone_inv_def bo_go_def)
qed

lemma b_owner_good:
  assumes inv: "b_inv s" and rdy: "b_owner_ready s"
  shows "b_good (b_shutdown_step e s)"
proof -
  have "b_pool s \<noteq> None"
  proof
    assume "b_pool s = None"
    then have "b_op s = BO_Done" using inv by (simp add: b_inv_def b_gone_inv_def)
    then show False using rdy by (simp add: b_owner_ready_def)
  qed
  then obtain p xs where s: "b_pool s = Some p" and pi: "b_pool_inv s p xs" using inv by (auto simp: b_inv_def)
  have mi: "b_mem_inv s xs" and ci: "b_count_inv s p xs" and sy: "b_drain_mutex p = MFree" "unat (b_num_workers p) = length (b_ws s)"
    using pi by (simp_all add: b_pool_inv_def b_sync_inv_def)
  note plain = b_owner_plain [OF pi s]
  show ?thesis
  proof (cases "b_op s")
    case BO_Flag
    then show ?thesis
      using b_owner_moves [OF pi, of "p\<lparr>b_shutdown := True\<rparr>" BO_Wake] s by (simp add: b_shutdown_step_def bo_drained_def)
  next
    case BO_Wake
    then show ?thesis by (rule b_wake_good [OF s pi])
  next
    case BO_Spin
    then show ?thesis using plain [of BO_Drain] plain [of BO_Spin] s by (simp add: b_shutdown_step_def bo_drained_def)
  next
    case BO_Drain
    then show ?thesis
      using plain [of BO_DrainWait] plain [of "BO_Join 0"] s sy b_total_sint(2) [OF mi ci]
      by (simp add: b_shutdown_step_def b_drain_round_def bo_drained_def)
  next
    case (BO_Join n)
    have ph: "xs = []" "tally bw_count (b_ws s) = 0" "n \<le> length (b_ws s)" "\<forall>j < n. b_ws s ! j = BW_Exit"
      using b_pool_phase [OF pi] BO_Join by (simp_all add: b_phase_inv_def bo_drained_def)
    show ?thesis
    proof (cases "n < length (b_ws s)")
      case True
      then have "b_ws s ! n = BW_Exit" using rdy BO_Join by (simp add: b_owner_ready_def)
      with ph True have "bo_joined (BO_Join (Suc n)) (b_ws s)" by (auto simp: less_Suc_eq)
      then show ?thesis using plain [of "BO_Join (Suc n)"] ph BO_Join s sy True by (simp add: b_shutdown_step_def)
    next
      case False
      with ph have "bo_joined BO_Release (b_ws s)" by (simp add: list_all_length)
      then show ?thesis using plain [of BO_Release] ph BO_Join s sy False by (simp add: b_shutdown_step_def)
    qed
  next
    case BO_Release
    then show ?thesis by (rule b_release_good [OF s pi])
  qed (use rdy in \<open>simp_all add: b_owner_ready_def\<close>)
qed

section \<open>All steps\<close>

lemma b_spurious_good:
  assumes inv: "b_inv s"
  shows "i < length (b_ws s) \<Longrightarrow> b_ws s ! i = BW_PopWait \<Longrightarrow> b_inv (bw_go i BW_Pop s)"
    and "i < length (b_cs s) \<Longrightarrow> b_cs s ! i = BT_DrainWait \<Longrightarrow> b_inv (bc_go i BT_Drain s)"
    and "b_op s = BO_DrainWait \<Longrightarrow> b_inv (bo_go BO_Drain s)"
    and "b_call_allowed False s \<Longrightarrow> b_inv (bo_go BO_Flag s)"
proof -
  assume i: "i < length (b_ws s)" "b_ws s ! i = BW_PopWait"
  then obtain p xs where s: "b_pool s = Some p" and pi: "b_pool_inv s p xs"
    using inv by (auto simp: b_inv_def b_gone_inv_def list_all_length split: option.splits)
  have t: "tally f ((b_ws s)[i := BW_Pop]) = tally f (b_ws s)" if "f BW_PopWait = f BW_Pop" for f :: "bw_pc \<Rightarrow> 'a::comm_monoid_add"
    using that i by (simp add: tally_same)
  have w: "b_waiter (bw_go i BW_Pop s) = b_waiter s" by (simp add: b_waiter_def bw_go_def)
  have "b_live_inv (bw_go i BW_Pop s) p xs"
    using b_pool_live [OF pi] mem_update [of BW_Bcast "b_ws s" i BW_Pop] i
      notin_update [of BW_PopWait "b_ws s" BW_Pop i] notin_update [of BW_Exit "b_ws s" BW_Pop i]
      list_ex_update [OF i(1), of b_awake BW_Pop]
    unfolding b_live_inv_def w by (simp add: bw_go_def t b_awake_def) blast
  then have "b_pool_inv (bw_go i BW_Pop s) p xs"
    using pi bo_joined_update [OF _ i(1), of "b_op s" BW_Pop] i
    by (simp add: b_pool_inv_def b_mem_inv_def b_count_inv_def b_job_inv_def b_sync_inv_def b_phase_inv_def
        bw_go_def t b_load_def bw_dec_def)
  then show "b_inv (bw_go i BW_Pop s)" using s by (auto simp: b_inv_def bw_go_def)
next
  assume i: "i < length (b_cs s)" "b_cs s ! i = BT_DrainWait"
  then obtain p xs where s: "b_pool s = Some p" and pi: "b_pool_inv s p xs"
    using inv by (auto simp: b_inv_def b_gone_inv_def list_all_length bc_out_def split: option.splits)
  have "b_op s = BO_Idle" using b_pool_phase [OF pi] i by (auto simp: b_phase_inv_def list_all_length bc_out_def)
  then show "b_inv (bc_go i BT_Drain s)" using b_client_plain [OF pi s i(1), of BT_Drain] i(2) by (simp add: b_good_def)
next
  assume op: "b_op s = BO_DrainWait"
  then obtain p xs where s: "b_pool s = Some p" and pi: "b_pool_inv s p xs"
    using inv by (auto simp: b_inv_def b_gone_inv_def split: option.splits)
  show "b_inv (bo_go BO_Drain s)" using b_owner_plain [OF pi s, of BO_Drain] op by (simp add: b_good_def bo_drained_def)
next
  assume c: "b_call_allowed False s"
  then obtain p xs where s: "b_pool s = Some p" and pi: "b_pool_inv s p xs"
    using inv by (auto simp: b_inv_def b_gone_inv_def b_call_allowed_def split: option.splits)
  have "b_pool_inv (bo_go BO_Flag s) p xs"
    using pi c by (simp add: b_pool_inv_def b_mem_inv_def b_count_inv_def b_job_inv_def b_sync_inv_def b_phase_inv_def
      b_live_inv_def b_waiter_def b_call_allowed_def bo_go_def b_load_def bo_drained_def)
  then show "b_inv (bo_go BO_Flag s)" using s by (auto simp: b_inv_def bo_go_def)
qed

lemma b_thread_step_inv: "b_thread_step s s' \<Longrightarrow> b_inv s \<Longrightarrow> b_inv s'"
proof (induction rule: b_thread_step.induct)
  case (worker s i e s')
  then show ?case using b_worker_good [of s i e] by (simp add: b_good_def)
next
  case (client s i e s')
  then show ?case using b_client_good [of s i e] by (simp add: b_good_def)
next
  case (owner s e s')
  then show ?case using b_owner_good [of s e] by (simp add: b_good_def)
qed

lemma b_start_clients:
  assumes "list_all (\<lambda>c. c = BT_Enter \<or> (\<exists>fn ar. c = BS_Enter fn ar)) cs"
  shows "tally bc_node cs = {#}" "tally bc_count cs = 0" "tally bc_flight cs = 0"
    "list_all (bc_ok h) cs" "BT_DrainWait \<notin> set cs"
  using assms by (induction cs) auto

lemma b_start_inv:
  assumes "b_start n s"
  shows "b_inv s"
proof -
  obtain p where p: "b_pool s = Some p" "b_fresh n p" using assms by (auto simp: b_start_def)
  have "list_all (\<lambda>c. c = BT_Enter \<or> (\<exists>fn ar. c = BS_Enter fn ar)) (b_cs s)" using assms by (simp add: b_start_def)
  note cs = b_start_clients [OF this]
  have ws: "tally bw_node (replicate n BW_Pop) = {#}" "tally bw_count (replicate n BW_Pop) = 0"
    "tally bw_pend (replicate n BW_Pop) = {#}" "tally bw_dec (replicate n BW_Pop) = 0" for n
    by (induction n) (simp_all add: bw_dec_def)
  have "unat (of_nat n :: u32) = n" using assms by (simp add: b_start_def unsigned_of_nat take_bit_nat_eq_self)
  then have "b_pool_inv s p []"
    using assms p cs ws
    by (auto simp: b_start_def b_fresh_def b_pool_inv_def b_inv_defs q_inv_def b_load_def b_waiter_def bo_drained_def)
  then show ?thesis using p(1) by (auto simp: b_inv_def)
qed

interpretation baseline_run: inductive_invariant "b_start n" "b_step False" b_inv for n
proof unfold_locales
  fix s assume "b_start n s"
  then show "b_inv s" by (rule b_start_inv)
next
  fix s t assume inv: "b_inv s" and "b_step False s t"
  from this(2) show "b_inv t"
    by cases (use inv b_thread_step_inv b_spurious_good [OF inv] in blast)+
qed

end
