(* ===== verification/Baseline_Properties.thy ===== *)
theory Baseline_Properties
  imports Baseline_Safety
begin

text \<open>
  What holds of the baseline pool: the construction releases what it made, the pool is safe and
  free of deadlocks when no submit overlaps the shutdown, what goes wrong when one does, and its
  queue serves tasks in the order of the main pool's queue when all priorities are equal.
\<close>

section \<open>Construction\<close>

text \<open>Of the objects, in the order in which they are made, exactly the first \<open>k\<close> exist.\<close>

definition b_built :: "nat \<Rightarrow> baseline_pool_t \<Rightarrow> bool" where
  "b_built k p \<longleftrightarrow>
     (worker_thread p \<noteq> None \<longleftrightarrow> 0 < k) \<and>
     b_drain_mutex p = (if 1 < k then MFree else MUninit) \<and> (b_drain_cond p \<noteq> CUninit \<longleftrightarrow> 2 < k) \<and>
     q_mutex (b_queue p) = (if 3 < k then MFree else MUninit) \<and> (q_cond (b_queue p) \<noteq> CUninit \<longleftrightarrow> 4 < k)"

definition b_released :: "baseline_pool_t \<Rightarrow> bool" where
  "b_released p \<longleftrightarrow>
     worker_thread p = None \<and> b_drain_mutex p = MUninit \<and> b_drain_cond p = CUninit \<and>
     q_mutex (b_queue p) = MUninit \<and> q_cond (b_queue p) = CUninit"

definition b_frees :: "b_cleanup \<Rightarrow> nat \<Rightarrow> bool" where
  "b_frees f k \<longleftrightarrow> (\<forall>p ths. b_built k p \<longrightarrow> (\<exists>p'. f p ths = Some (BFreed p' ths) \<and> b_released p'))"

lemma b_freesD: "b_frees f k \<Longrightarrow> b_built k p \<Longrightarrow> \<exists>p'. f p ths = Some (BFreed p' ths) \<and> b_released p'"
  by (simp add: b_frees_def)

lemma cond_destroy_some: "c \<noteq> CUninit \<Longrightarrow> cond_destroy c = Some CUninit"
  by (cases c) simp_all

lemma b_frees_worker: "b_frees error_worker 1"
  unfolding b_frees_def by (auto simp: error_worker_def error_pool_def b_built_def b_released_def)

lemma b_frees_mutex: "b_frees error_mutex 2"
  unfolding b_frees_def by (auto simp: error_mutex_def b_built_def intro!: b_freesD [OF b_frees_worker])

lemma b_frees_cond: "b_frees error_cond 3"
  unfolding b_frees_def
  by (auto simp: error_cond_def b_built_def cond_destroy_some intro!: b_freesD [OF b_frees_mutex])

lemma b_frees_mutex_q: "b_frees error_mutex_q 4"
  unfolding b_frees_def by (auto simp: error_mutex_q_def b_built_def intro!: b_freesD [OF b_frees_cond])

lemma b_frees_cond_q: "b_frees error_cond_q 5"
  unfolding b_frees_def
  by (auto simp: error_cond_q_def b_built_def cond_destroy_some intro!: b_freesD [OF b_frees_mutex_q])

lemma b_join_all: "j + n \<le> length ts \<Longrightarrow> b_join n ts (int j) (take n (drop j ts) @ rest) = Some rest"
proof (induction n arbitrary: j)
  case (Suc n)
  then have j: "j < length ts" by simp
  then have d: "drop j ts = ts ! j # drop (Suc j) ts" by (rule Cons_nth_drop_Suc [symmetric])
  have "b_join n ts (int j + 1) (take n (drop (Suc j) ts) @ rest) = Some rest"
    using Suc.IH [of "Suc j"] Suc.prems by (simp add: add.commute)
  with j show ?case by (simp add: d)
qed simp

definition b_empty_queue :: baseline_queue_t where
  "b_empty_queue = \<lparr>q_head = None, q_tail = None, q_mutex = MFree, q_cond = CLive []\<rparr>"

lemma b_spawn_spec:
  assumes "b_built 5 p" and "b_queue p = b_empty_queue" and "worker_thread p = Some ts" and "length ts = i + n"
    and "ths = take i ts"
  shows "if \<forall>k \<in> {i ..< i + n}. b_create_rc e k = 0
    then \<exists>ts'. b_spawn e n i p ths = Some (BOk (p\<lparr>worker_thread := Some ts'\<rparr>) ts') \<and> length ts' = i + n
    else \<exists>p'. b_spawn e n i p ths = Some (BFreed p' []) \<and> b_released p'"
  using assms
proof (induction n arbitrary: i p ts ths)
  case 0
  then show ?case by (cases p) auto
next
  case (Suc n)
  have i: "i < length ts" using Suc.prems(4) by simp
  show ?case
  proof (cases "b_create_rc e i = 0")
    case False
    let ?p = "p\<lparr>b_shutdown := True, b_queue := b_empty_queue\<lparr>q_mutex := MFree, q_cond := CLive [Broadcast]\<rparr>\<rparr>"
    have "b_built 5 ?p" using Suc.prems(1) by (simp add: b_built_def b_empty_queue_def)
    from b_freesD [OF b_frees_cond_q this, of "[]"] obtain p' where
      p': "error_cond_q ?p [] = Some (BFreed p' [])" "b_released p'" by blast
    have "b_join i ts 0 ths = Some []" using b_join_all [of 0 i ts "[]"] i Suc.prems(5) by simp
    with False Suc.prems p' have "b_spawn e (Suc n) i p ths = Some (BFreed p' [])"
      by (simp add: q_wake_all_def b_empty_queue_def)
    moreover have "\<not> (\<forall>k \<in> {i ..< i + Suc n}. b_create_rc e k = 0)" using False by auto
    ultimately show ?thesis using p'(2) by auto
  next
    case True
    let ?ts = "ts[i := b_create_tid e i]" let ?p = "p\<lparr>worker_thread := Some ?ts\<rparr>"
    have step: "b_spawn e (Suc n) i p ths = b_spawn e n (Suc i) ?p (ths @ [b_create_tid e i])"
      using True i Suc.prems(3) by simp
    have b: "b_built 5 ?p" "b_queue ?p = b_empty_queue" using Suc.prems(1,2) by (simp_all add: b_built_def)
    have t: "ths @ [b_create_tid e i] = take (Suc i) ?ts" using i Suc.prems(5) by (simp add: take_Suc_conv_app_nth)
    have IH: "if \<forall>k \<in> {Suc i ..< Suc i + n}. b_create_rc e k = 0
      then \<exists>ts'. b_spawn e n (Suc i) ?p (ths @ [b_create_tid e i]) = Some (BOk (?p\<lparr>worker_thread := Some ts'\<rparr>) ts') \<and>
        length ts' = Suc i + n
      else \<exists>p'. b_spawn e n (Suc i) ?p (ths @ [b_create_tid e i]) = Some (BFreed p' []) \<and> b_released p'"
      by (rule Suc.IH [OF b _ _ t]) (use Suc.prems(4) in simp_all)
    have "(\<forall>k \<in> {i ..< i + Suc n}. b_create_rc e k = 0) = (\<forall>k \<in> {Suc i ..< Suc i + n}. b_create_rc e k = 0)"
      using True by (auto simp: Suc_le_eq le_less)
    then show ?thesis using IH unfolding step by (auto split: if_splits)
  qed
qed

definition b_init_succeeds :: "b_init_env \<Rightarrow> nat \<Rightarrow> bool" where
  "b_init_succeeds e n \<longleftrightarrow>
     b_pool_malloc e \<and> b_threads_malloc e \<and> b_drain_mutex_rc e = 0 \<and> b_drain_cond_rc e = 0 \<and> b_q_mutex_rc e = 0 \<and>
     b_q_cond_rc e = 0 \<and> (\<forall>k \<in> {0 ..< n}. b_create_rc e k = 0)"

definition b_staged :: "nat \<Rightarrow> baseline_pool_t \<Rightarrow> nat list \<Rightarrow> int \<Rightarrow> baseline_pool_t" where
  "b_staged k raw raws n =
     (let p = raw\<lparr>worker_thread := Some raws, b_num_workers := of_int n, b_shutdown := False,
            b_in_flight := 0, b_total := 0\<rparr>;
          p = (if 1 < k then p\<lparr>b_drain_mutex := MFree\<rparr> else p);
          p = (if 2 < k then p\<lparr>b_drain_cond := CLive [], b_queue := (b_queue p)\<lparr>q_head := None, q_tail := None\<rparr>\<rparr> else p);
          p = (if 3 < k then p\<lparr>b_queue := (b_queue p)\<lparr>q_mutex := MFree\<rparr>\<rparr> else p)
      in if 4 < k then p\<lparr>b_queue := (b_queue p)\<lparr>q_cond := CLive []\<rparr>\<rparr> else p)"

lemma b_staged_built: "b_released raw \<Longrightarrow> 0 < k \<Longrightarrow> k \<le> 5 \<Longrightarrow> b_built k (b_staged k raw raws n)"
  by (auto simp: b_built_def b_released_def b_staged_def Let_def)

lemma b_init_stages:
  assumes "0 < n" and "b_pool_malloc e"
  shows "baseline_pool_init e raw raws n =
    (if \<not> b_threads_malloc e then error_pool (raw\<lparr>worker_thread := None\<rparr>) []
     else if b_drain_mutex_rc e \<noteq> 0 then error_worker (b_staged 1 raw raws n) []
     else if b_drain_cond_rc e \<noteq> 0 then error_mutex (b_staged 2 raw raws n) []
     else if b_q_mutex_rc e \<noteq> 0 then error_cond (b_staged 3 raw raws n) []
     else if b_q_cond_rc e \<noteq> 0 then error_mutex_q (b_staged 4 raw raws n) []
     else b_spawn e (nat n) 0 (b_staged 5 raw raws n) [])"
  using assms by (simp add: baseline_pool_init_def b_staged_def Let_def)

lemma baseline_init_ok:
  assumes raw: "b_released raw" and n: "length raws = nat n"
  shows "\<exists>r. baseline_pool_init e raw raws n = Some r \<and>
    (case r of
       BNull \<Rightarrow> n \<le> 0 \<or> \<not> b_pool_malloc e
     | BFreed p ths \<Rightarrow> b_released p \<and> ths = [] \<and> \<not> b_init_succeeds e (nat n)
     | BOk p ths \<Rightarrow> b_init_succeeds e (nat n) \<and> b_fresh (nat n) p \<and> worker_thread p = Some ths)"
proof (cases "n \<le> 0 \<or> \<not> b_pool_malloc e")
  case True
  then show ?thesis by (auto simp: baseline_pool_init_def)
next
  case False
  then have pos: "0 < n" "b_pool_malloc e" by auto
  note st = b_init_stages [OF pos, of raw raws] and b = b_staged_built [OF raw, of _ raws n]
  show ?thesis
  proof (cases "b_threads_malloc e \<and> b_drain_mutex_rc e = 0 \<and> b_drain_cond_rc e = 0 \<and> b_q_mutex_rc e = 0 \<and> b_q_cond_rc e = 0")
    case False
    have "b_released (raw\<lparr>worker_thread := None\<rparr>)" using raw by (simp add: b_released_def)
    then have "\<exists>p. baseline_pool_init e raw raws n = Some (BFreed p []) \<and> b_released p"
      using False b_freesD [OF b_frees_worker b, of "[]"] b_freesD [OF b_frees_mutex b, of "[]"]
        b_freesD [OF b_frees_cond b, of "[]"] b_freesD [OF b_frees_mutex_q b, of "[]"]
      unfolding st by (auto simp: error_pool_def)
    moreover have "\<not> b_init_succeeds e (nat n)" using False by (auto simp: b_init_succeeds_def)
    ultimately show ?thesis by auto
  next
    case True
    then have init: "baseline_pool_init e raw raws n = b_spawn e (nat n) 0 (b_staged 5 raw raws n) []" unfolding st by simp
    have f: "b_queue (b_staged 5 raw raws n) = b_empty_queue" "worker_thread (b_staged 5 raw raws n) = Some raws"
      by (simp_all add: b_staged_def b_empty_queue_def Let_def)
    have fresh: "b_fresh (nat n) ((b_staged 5 raw raws n)\<lparr>worker_thread := Some ts\<rparr>)" if "length ts = nat n" for ts
      using that pos by (simp add: b_staged_def Let_def b_fresh_def)
    have "b_built 5 (b_staged 5 raw raws n)" by (rule b) simp_all
    note sp = b_spawn_spec [OF this f, of 0 "nat n" "[]" e]
    show ?thesis
    proof (cases "\<forall>k \<in> {0 ..< nat n}. b_create_rc e k = 0")
      case True
      moreover have "b_init_succeeds e (nat n)"
        using True pos \<open>b_threads_malloc e \<and> _\<close> by (simp add: b_init_succeeds_def)
      ultimately show ?thesis using sp n fresh unfolding init by fastforce
    next
      case False
      then have "\<not> b_init_succeeds e (nat n)" by (simp add: b_init_succeeds_def)
      moreover obtain p where "b_spawn e (nat n) 0 (b_staged 5 raw raws n) [] = Some (BFreed p [])" "b_released p"
        using sp n False by (simp split: if_splits) blast
      ultimately show ?thesis unfolding init by simp
    qed
  qed
qed

section \<open>Progress\<close>

text \<open>Whether somebody is inside a call.\<close>

definition b_call_pending :: "bsys \<Rightarrow> bool" where
  "b_call_pending s \<longleftrightarrow> list_ex (\<lambda>c. \<not> bc_out c) (b_cs s) \<or> (b_op s \<noteq> BO_Idle \<and> b_op s \<noteq> BO_Done)"

definition b_stuck :: "bsys \<Rightarrow> bool" where
  "b_stuck s \<longleftrightarrow> list_all (\<lambda>i. \<not> b_worker_ready s i) [0 ..< length (b_ws s)] \<and>
     list_all (\<lambda>i. \<not> b_client_ready s i) [0 ..< length (b_cs s)] \<and> \<not> b_owner_ready s"

definition b_idle_env :: benv where
  "b_idle_env = \<lparr>be_malloc = None, be_garbage = 0, be_pick = 0\<rparr>"

lemma b_fair_exists: "\<exists>k. b_fair s k"
  by (cases "list_all (\<lambda>pc. pc \<noteq> BW_PopWait) (b_ws s)") (auto simp: b_fair_def list_all_length)

lemma b_inv_not_stuck_step:
  assumes inv: "b_inv s" and ns: "\<not> b_stuck s"
  shows "\<exists>t. b_thread_step s t"
proof -
  obtain k where k: "b_fair s k" using b_fair_exists by blast
  let ?e = "\<lparr>be_malloc = None, be_garbage = 0, be_pick = k\<rparr>"
  have env: "benv_ok ?e s" by (simp add: benv_ok_def)
  consider i where "b_worker_ready s i" | j where "b_client_ready s j" | "b_owner_ready s"
    using ns by (auto simp: b_stuck_def list_all_iff)
  then show ?thesis
  proof cases
    case 1
    then show ?thesis
      using b_worker_good [OF inv, of i ?e] b_thread_step.worker [OF _ env] by (auto simp: b_good_def)
  next
    case 2
    then show ?thesis
      using b_client_good [OF inv _ env, of j] k b_thread_step.client [OF _ env] by (auto simp: b_good_def)
  next
    case 3
    then show ?thesis
      using b_owner_good [OF inv, of ?e] b_thread_step.owner [OF _ env] by (auto simp: b_good_def)
  qed
qed

lemma b_stuck_asleep:
  assumes "b_stuck s"
  shows "\<And>w. w \<in> set (b_ws s) \<Longrightarrow> w = BW_PopWait \<or> w = BW_Exit"
    and "\<And>c. c \<in> set (b_cs s) \<Longrightarrow> bc_out c \<or> c = BT_DrainWait" and "\<not> b_owner_ready s"
proof -
  show "w = BW_PopWait \<or> w = BW_Exit" if "w \<in> set (b_ws s)" for w
    using assms that by (auto simp: b_stuck_def b_worker_ready_def list_all_iff in_set_conv_nth)
  show "bc_out c \<or> c = BT_DrainWait" if c: "c \<in> set (b_cs s)" for c
  proof -
    obtain j where j: "j < length (b_cs s)" "b_cs s ! j = c" using c by (auto simp: in_set_conv_nth)
    then have "\<not> b_client_ready s j" using assms by (auto simp: b_stuck_def list_all_iff)
    with j show ?thesis by (cases c) (simp_all add: b_client_ready_def bc_out_def)
  qed
  show "\<not> b_owner_ready s" using assms by (simp add: b_stuck_def)
qed

lemma b_stuck_no_tasks:
  assumes pi: "b_pool_inv s p xs" and st: "b_stuck s"
  shows "length xs + tally bw_count (b_ws s) + tally bc_count (b_cs s) = 0" and "\<not> b_waiter s"
proof -
  have "bw_count w = 0" if "w \<in> set (b_ws s)" for w using b_stuck_asleep(1) [OF st that] by auto
  then have "tally bw_count (b_ws s) = 0" by (auto simp: tally_def sum_list_eq_0_iff)
  moreover have "bc_count c = 0" if "c \<in> set (b_cs s)" for c
    using b_stuck_asleep(2) [OF st that] by (cases c) (auto simp: bc_out_def)
  then have "tally bc_count (b_cs s) = 0" by (auto simp: tally_def sum_list_eq_0_iff)
  moreover have "\<not> list_ex b_awake (b_ws s)" using b_stuck_asleep(1) [OF st] by (auto simp: list_ex_iff b_awake_def)
  then have "xs = []" using b_pool_live [OF pi] by (auto simp: b_live_inv_def)
  ultimately show z: "length xs + tally bw_count (b_ws s) + tally bc_count (b_cs s) = 0" by simp
  have "BW_Bcast \<notin> set (b_ws s)" using b_stuck_asleep(1) [OF st] by auto
  then show "\<not> b_waiter s" using b_pool_live [OF pi] z unfolding b_live_inv_def by linarith
qed

lemma b_inv_progress:
  assumes inv: "b_inv s" and call: "b_call_pending s"
  shows "\<not> b_stuck s"
proof
  assume st: "b_stuck s"
  show False
  proof (cases "b_pool s")
    case None
    then show False using inv call by (auto simp: b_inv_def b_gone_inv_def b_call_pending_def list_all_iff list_ex_iff)
  next
    case (Some p)
    then obtain xs where pi: "b_pool_inv s p xs" using inv by (auto simp: b_inv_def)
    have nw: "BT_DrainWait \<notin> set (b_cs s)" "b_op s \<noteq> BO_DrainWait"
      using b_stuck_no_tasks(2) [OF pi st] by (auto simp: b_waiter_def)
    then have out: "list_all bc_out (b_cs s)" using b_stuck_asleep(2) [OF st] by (auto simp: list_all_iff)
    then have op: "b_op s \<noteq> BO_Idle" "b_op s \<noteq> BO_Done"
      using call by (auto simp: b_call_pending_def list_all_iff list_ex_iff)
    have "b_in_flight p = 0" using pi bc_out_weights(2) [OF out] by (simp add: b_pool_inv_def b_count_inv_def)
    moreover have "b_ws s ! n = BW_Exit" if "b_op s = BO_Join n" "n < length (b_ws s)" for n
    proof -
      have "BW_PopWait \<notin> set (b_ws s)"
        using b_pool_live [OF pi] b_pool_phase [OF pi] that(1) by (simp add: b_live_inv_def b_phase_inv_def)
      then show ?thesis using b_stuck_asleep(1) [OF st, of "b_ws s ! n"] that(2) by (metis nth_mem)
    qed
    ultimately have "b_owner_ready s" using op nw(2) Some by (cases "b_op s") (simp_all add: b_owner_ready_def)
    with b_stuck_asleep(3) [OF st] show False ..
  qed
qed

section \<open>Concrete runs\<close>

datatype b_move = B_Worker nat | B_Client nat | B_Owner | B_Call

definition b_fire :: "bool \<Rightarrow> b_move \<times> benv \<Rightarrow> bsys \<Rightarrow> bsys option" where
  "b_fire overlap x s =
     (case x of (m, e) \<Rightarrow>
        if \<not> benv_ok e s then None
        else (case m of
           B_Worker i \<Rightarrow> if b_worker_ready s i then b_worker_step e i s else None
         | B_Client i \<Rightarrow> if b_client_ready s i \<and> b_fair s (be_pick e) then b_client_step e i s else None
         | B_Owner \<Rightarrow> if b_owner_ready s then b_shutdown_step e s else None
         | B_Call \<Rightarrow> if b_call_allowed overlap s then Some (bo_go BO_Flag s) else None))"

fun b_run :: "bool \<Rightarrow> (b_move \<times> benv) list \<Rightarrow> bsys \<Rightarrow> bsys option" where
  "b_run overlap [] s = Some s"
| "b_run overlap (x # xs) s = Option.bind (b_fire overlap x s) (b_run overlap xs)"

lemma b_fire_step:
  assumes "b_fire overlap x s = Some t"
  shows "b_step overlap s t"
proof -
  obtain m e where x: "x = (m, e)" by (cases x)
  have env: "benv_ok e s" using assms x by (auto simp: b_fire_def split: if_splits)
  show ?thesis
  proof (cases m)
    case B_Call
    then show ?thesis using assms x by (auto simp: b_fire_def intro: b_step.call split: if_splits)
  qed (use assms x env in \<open>auto simp: b_fire_def intro!: b_step.thread intro: b_thread_step.intros split: if_splits\<close>)
qed

lemma b_run_reachable:
  "b_run overlap xs s = Some t \<Longrightarrow> reachable init (b_step overlap) s \<Longrightarrow> reachable init (b_step overlap) t"
proof (induction xs arbitrary: s)
  case (Cons x xs)
  then obtain s' where "b_fire overlap x s = Some s'" "b_run overlap xs s' = Some t" by (auto simp: bind_Some_iff)
  with Cons show ?case using reachable.advance [OF Cons.prems(2) b_fire_step] by blast
qed simp

lemma b_run_reaches:
  assumes "b_start n s" and "case b_run overlap xs s of None \<Rightarrow> False | Some t \<Rightarrow> P t"
  shows "\<exists>t. reachable (b_start n) (b_step overlap) t \<and> P t"
  using assms b_run_reachable [of overlap xs s _ "b_start n"]
  by (auto split: option.splits intro: reachable.start)

definition b_demo :: "bc_pc list \<Rightarrow> bsys" where
  "b_demo cs = \<lparr>b_mem = Map.empty,
     b_pool = Some \<lparr>worker_thread = Some [100], b_num_workers = 1, b_shutdown = False, b_drain_mutex = MFree,
       b_drain_cond = CLive [], b_in_flight = 0, b_total = 0, b_queue = b_empty_queue\<rparr>,
     b_ws = [BW_Pop], b_cs = cs, b_op = BO_Idle, b_accepted = [], b_executed = []\<rparr>"

definition b_at :: "ptr \<Rightarrow> benv" where
  "b_at a = \<lparr>be_malloc = a, be_garbage = 7, be_pick = 0\<rparr>"

definition b_cl :: "nat \<Rightarrow> (b_move \<times> benv) list" where "b_cl n = replicate n (B_Client 0, b_at None)"
definition b_wk :: "nat \<Rightarrow> (b_move \<times> benv) list" where "b_wk n = replicate n (B_Worker 0, b_at None)"
definition b_ow :: "nat \<Rightarrow> (b_move \<times> benv) list" where "b_ow n = replicate n (B_Owner, b_at None)"

lemma b_demo_start: "list_all (\<lambda>c. c = BT_Enter \<or> (\<exists>fn ar. c = BS_Enter fn ar)) cs \<Longrightarrow> length cs < 2 ^ 32 \<Longrightarrow> b_start 1 (b_demo cs)"
  by (simp add: b_start_def b_demo_def b_fresh_def b_empty_queue_def)

lemma b_replicate: "replicate (numeral n) x = x # replicate (pred_numeral n) x" "replicate 1 x = [x]"
  by (simp_all add: numeral_eq_Suc)

lemmas b_run_eval = b_fire_def benv_ok_def b_load_def b_worker_ready_def b_worker_step_def b_client_ready_def
  b_client_step_def b_owner_ready_def b_shutdown_step_def b_call_allowed_def b_fair_def b_go_defs b_demo_def b_at_def
  b_cl_def b_wk_def b_ow_def b_replicate b_empty_queue_def q_push_def q_pop_until_shutdown_def q_wake_all_def
  b_set_queue_def b_wakes_def b_deliver.simps b_wake_pop_def b_wake_drain_def b_drain_round_def b_release_def
  new_task_def b_call_def bc_waiting_def bc_out_def bw_dec_def Let_def b_stuck_def

section \<open>Properties\<close>

text \<open>
  C22: Whatever its library calls return, \<^verbatim>\<open>baseline_pool_init\<close> does not fault. It returns the fresh
  pool with all its workers started exactly when every call succeeds; otherwise it has joined the
  workers it started and released every object it made.
\<close>

theorem baseline_pool_init_all_or_nothing:
  assumes "b_released raw" and "length raws = nat n"
  shows "\<exists>r. baseline_pool_init e raw raws n = Some r \<and>
    (case r of
       BNull \<Rightarrow> n \<le> 0 \<or> \<not> b_pool_malloc e
     | BFreed p ths \<Rightarrow> b_released p \<and> ths = [] \<and> \<not> b_init_succeeds e (nat n)
     | BOk p ths \<Rightarrow> b_init_succeeds e (nat n) \<and> b_fresh (nat n) p \<and> worker_thread p = Some ths)"
  using assms by (rule baseline_init_ok)

definition b_raw :: baseline_pool_t where
  "b_raw = \<lparr>worker_thread = None, b_num_workers = 9, b_shutdown = True, b_drain_mutex = MUninit, b_drain_cond = CUninit,
     b_in_flight = 4, b_total = 5, b_queue = \<lparr>q_head = Some 1, q_tail = None, q_mutex = MUninit, q_cond = CUninit\<rparr>\<rparr>"

definition b_third_fails :: b_init_env where
  "b_third_fails = \<lparr>b_pool_malloc = True, b_threads_malloc = True, b_drain_mutex_rc = 0, b_drain_cond_rc = 0,
     b_q_mutex_rc = 0, b_q_cond_rc = 0, b_create_rc = (\<lambda>i. if i = 2 then 11 else 0), b_create_tid = (\<lambda>i. 50 + i)\<rparr>"

theorem baseline_pool_init_all_or_nothing_witness:
  "\<exists>p. baseline_pool_init b_third_fails b_raw [0, 0, 0] 3 = Some (BFreed p []) \<and> b_released p"
proof -
  have "b_released b_raw" "length [0, 0, 0 :: nat] = nat 3" by (simp_all add: b_released_def b_raw_def)
  from baseline_pool_init_all_or_nothing [OF this, of b_third_fails] obtain r where
    r: "baseline_pool_init b_third_fails b_raw [0, 0, 0] 3 = Some r"
    "case r of BNull \<Rightarrow> (3 :: int) \<le> 0 \<or> \<not> b_pool_malloc b_third_fails
     | BFreed p ths \<Rightarrow> b_released p \<and> ths = [] \<and> \<not> b_init_succeeds b_third_fails (nat 3)
     | BOk p ths \<Rightarrow> b_init_succeeds b_third_fails (nat 3) \<and> b_fresh (nat 3) p \<and> worker_thread p = Some ths"
    by blast
  have "\<not> b_init_succeeds b_third_fails (nat 3)" by (auto simp: b_init_succeeds_def b_third_fails_def)
  then show ?thesis using r by (cases r) (simp_all add: b_third_fails_def)
qed

text \<open>
  C19: Used as its clients use it, with no submit running when \<^verbatim>\<open>baseline_pool_shutdown\<close> is called,
  the baseline pool never faults, and when the shutdown has returned every worker has left, no
  node is allocated, the pool is freed and the accepted calls are exactly the executed ones.
\<close>

theorem baseline_safe_and_graceful:
  assumes "reachable (b_start n) (b_step False) s"
  shows "\<not> b_can_fault s \<and>
    (b_op s = BO_Done \<longrightarrow>
       b_pool s = None \<and> list_all (\<lambda>pc. pc = BW_Exit) (b_ws s) \<and> b_mem s = Map.empty \<and>
       mset (b_accepted s) = mset (b_executed s))"
proof -
  have inv: "b_inv s" by (rule baseline_run.reachable_inv [OF assms])
  have "b_worker_step e i s \<noteq> None" if "b_worker_ready s i" for e i using b_worker_good [OF inv that, of e] by (auto simp: b_good_def)
  moreover have "b_shutdown_step e s \<noteq> None" if "b_owner_ready s" for e using b_owner_good [OF inv that, of e] by (auto simp: b_good_def)
  moreover have "b_client_step e j s \<noteq> None" if c: "b_client_ready s j" "benv_ok e s" for e j
  proof -
    obtain k where k: "b_fair s k" using b_fair_exists by blast
    have "b_client_step (e\<lparr>be_pick := k\<rparr>) j s \<noteq> None"
      using b_client_good [OF inv c(1), of "e\<lparr>be_pick := k\<rparr>"] c(2) k by (auto simp: b_good_def benv_ok_def)
    then show ?thesis
      by (cases "b_cs s ! j") (auto simp: b_client_step_def bind_eq_None_conv split: option.splits if_splits)
  qed
  moreover have "b_pool s = None" if "b_op s = BO_Done"
    using inv that by (auto simp: b_inv_def b_pool_inv_def b_phase_inv_def split: option.splits)
  ultimately show ?thesis using inv by (auto simp: b_can_fault_def b_inv_def b_gone_inv_def)
qed

text \<open>One task, from its submission to the end of the shutdown.\<close>

definition b_life :: "(b_move \<times> benv) list" where
  "b_life = b_cl 2 @ [(B_Client 0, b_at (Some 5))] @ b_cl 3 @ b_wk 5 @ [(B_Call, b_at None)] @ b_ow 2 @ b_wk 1 @ b_ow 5"

lemma b_life_run:
  "case b_run False b_life (b_demo [BS_Enter (Some 3) None]) of None \<Rightarrow> False
   | Some s \<Rightarrow> b_op s = BO_Done \<and> b_executed s = [(Some 3, None)]"
  unfolding b_life_def by (simp add: b_run_eval)

theorem baseline_safe_and_graceful_witness:
  "\<exists>s. reachable (b_start 1) (b_step False) s \<and> b_op s = BO_Done \<and> b_pool s = None \<and> b_executed s = [(Some 3, None)] \<and>
     mset (b_accepted s) = mset [(Some 3, None)]"
proof -
  have "b_start 1 (b_demo [BS_Enter (Some 3) None])" by (rule b_demo_start) simp_all
  from b_run_reaches [OF this b_life_run] obtain s where
    s: "reachable (b_start 1) (b_step False) s" "b_op s = BO_Done" "b_executed s = [(Some 3, None)]" by blast
  from baseline_safe_and_graceful [OF s(1)] s show ?thesis by auto
qed

text \<open>
  C20: Under the same use the baseline pool is free of deadlocks: while a client is inside
  \<^verbatim>\<open>baseline_pool_submit\<close> or \<^verbatim>\<open>baseline_pool_wait\<close>, or the owner inside \<^verbatim>\<open>baseline_pool_shutdown\<close>,
  some thread can run without waiting for a spurious wakeup.
\<close>

theorem baseline_never_deadlocks:
  assumes "reachable (b_start n) (b_step False) s" and "b_call_pending s"
  shows "\<exists>t. b_thread_step s t"
  using b_inv_not_stuck_step [OF _ b_inv_progress] baseline_run.reachable_inv [OF assms(1)] assms(2) by blast

theorem baseline_never_deadlocks_witness:
  "\<exists>s t. reachable (b_start 1) (b_step False) s \<and> b_op s = BO_DrainWait \<and> b_thread_step s t"
proof -
  have "b_start 1 (b_demo [BS_Enter (Some 3) None])" by (rule b_demo_start) simp_all
  moreover have "case b_run False (b_cl 2 @ [(B_Client 0, b_at (Some 5))] @ b_cl 3 @ [(B_Call, b_at None)] @ b_ow 4)
      (b_demo [BS_Enter (Some 3) None]) of None \<Rightarrow> False | Some s \<Rightarrow> b_op s = BO_DrainWait"
    by (simp add: b_run_eval)
  ultimately obtain s where s: "reachable (b_start 1) (b_step False) s" "b_op s = BO_DrainWait"
    using b_run_reaches by blast
  then have "b_call_pending s" by (simp add: b_call_pending_def)
  from baseline_never_deadlocks [OF s(1) this] s show ?thesis by blast
qed

text \<open>
  C23: A call of \<^verbatim>\<open>baseline_pool_submit\<close> that began before \<^verbatim>\<open>baseline_pool_shutdown\<close> is not safe:
  between its test of the flag and its increment of \<^verbatim>\<open>in_flight_submits\<close> the pool can be freed
  under it, and after the increment its task can be queued when all workers have left, so that
  the shutdown waits for ever for a call that was accepted and never runs.
\<close>

theorem baseline_overlap_unsafe:
  "(\<exists>s. reachable (b_start 1) (b_step True) s \<and> b_can_fault s) \<and>
   (\<exists>s. reachable (b_start 1) (b_step True) s \<and> b_stuck s \<and> b_op s = BO_DrainWait \<and>
      b_accepted s = [(Some 3, None)] \<and> b_executed s = [])"
proof
  have st: "b_start 1 (b_demo [BS_Enter (Some 3) None])" by (rule b_demo_start) simp_all
  have "case b_run True (b_cl 1 @ [(B_Call, b_at None)] @ b_wk 1 @ b_ow 2 @ b_wk 1 @ b_ow 5) (b_demo [BS_Enter (Some 3) None]) of
      None \<Rightarrow> False
    | Some s \<Rightarrow> benv_ok (b_at None) s \<and> b_client_ready s 0 \<and> b_client_step (b_at None) 0 s = None"
    by (simp add: b_run_eval)
  from b_run_reaches [OF st this] obtain s where s: "reachable (b_start 1) (b_step True) s"
    "benv_ok (b_at None) s" "b_client_ready s 0" "b_client_step (b_at None) 0 s = None" by blast
  then have "b_can_fault s" unfolding b_can_fault_def by blast
  with s(1) show "\<exists>s. reachable (b_start 1) (b_step True) s \<and> b_can_fault s" by blast
next
  have st: "b_start 1 (b_demo [BS_Enter (Some 3) None])" by (rule b_demo_start) simp_all
  have "case b_run True (b_cl 2 @ [(B_Call, b_at None)] @ b_ow 2 @ b_wk 1 @ [(B_Client 0, b_at (Some 5))] @ b_cl 3 @ b_ow 2)
      (b_demo [BS_Enter (Some 3) None]) of
      None \<Rightarrow> False
    | Some s \<Rightarrow> b_stuck s \<and> b_op s = BO_DrainWait \<and> b_accepted s = [(Some 3, None)] \<and> b_executed s = []"
    by (simp add: b_run_eval)
  from b_run_reaches [OF st this]
  show "\<exists>s. reachable (b_start 1) (b_step True) s \<and> b_stuck s \<and> b_op s = BO_DrainWait \<and>
      b_accepted s = [(Some 3, None)] \<and> b_executed s = []" by blast
qed

text \<open>
  C21: The FIFO of the baseline and the priority queue of the main pool agree when all tasks have
  one priority: the same batch of pushes into the two fresh queues, followed by pops until empty,
  returns the same sequence, the order of the pushes.
\<close>

theorem baseline_queue_equals_priority_queue:
  assumes "distinct xs" and "\<forall>x \<in> set xs. pq_lane_of (h, pq_fresh) x = Some p"
  shows "\<exists>q q' b b'.
    push_with pq_enqueue (h, pq_fresh) xs = Some q \<and> drain_with pq_dequeue (Suc (length xs)) q = Some (xs, q') \<and>
    push_with (b_enqueue g fn ar) (h0, b_empty_queue) xs = Some b \<and> drain_with b_dequeue (Suc (length xs)) b = Some (xs, b')"
proof -
  have "pq_rep (h, pq_fresh) [[], [], []]" by (simp add: pq_rep_def pq_fresh_inv)
  then have pq: "\<exists>q q'. push_with pq_enqueue (h, pq_fresh) xs = Some q \<and> drain_with pq_dequeue (Suc (length xs)) q = Some (xs, q')"
    by (rule task_queue.one_lane_fifo [where p = p]) (use assms in simp_all)
  have "b_rep (h0, b_empty_queue) [[]]" by (simp add: b_rep_def b_empty_queue_def q_inv_def)
  then have "\<exists>b b'. push_with (b_enqueue g fn ar) (h0, b_empty_queue) xs = Some b \<and> drain_with b_dequeue (Suc (length xs)) b = Some (xs, b')"
    by (rule fifo.one_lane_fifo [where p = 0]) (use assms(1) in \<open>simp_all add: b_lane_of_def\<close>)
  with pq show ?thesis by blast
qed

theorem baseline_queue_equals_priority_queue_witness:
  "\<exists>q q' b b'.
    push_with pq_enqueue (sample_heap, pq_fresh) [4, 2] = Some q \<and> drain_with pq_dequeue 3 q = Some ([4, 2], q') \<and>
    push_with (b_enqueue 0 None None) (Map.empty, b_empty_queue) [4, 2] = Some b \<and> drain_with b_dequeue 3 b = Some ([4, 2], b')"
proof -
  have "distinct [4, 2 :: addr]" "\<forall>x \<in> set [4, 2]. pq_lane_of (sample_heap, pq_fresh) x = Some 2"
    by (simp_all add: sample_defs pq_lane_of_def priority_defs)
  from baseline_queue_equals_priority_queue [OF this, of 0 None None Map.empty] show ?thesis by (simp add: numeral_3_eq_3)
qed

end
