(* ===== verification/Decimal.thy ===== *)
theory Decimal
  imports Pool_Prelude
begin

text \<open>
  The part of C's formatted output and number parsing that the monitor and the HTTP server use:
  decimal numbers, field widths, the truncation of \<^verbatim>\<open>snprintf\<close>, and reading digits back.
\<close>

definition digit :: "nat \<Rightarrow> char" where
  "digit n = char_of (48 + n)"

definition digit_val :: "char \<Rightarrow> nat" where
  "digit_val c = of_char c - 48"

definition is_digit :: "char \<Rightarrow> bool" where
  "is_digit c \<longleftrightarrow> 48 \<le> (of_char c :: nat) \<and> (of_char c :: nat) \<le> 57"

text \<open>\<^verbatim>\<open>%u\<close> and \<^verbatim>\<open>%d\<close>.\<close>

fun dec :: "nat \<Rightarrow> string" where
  "dec n = (if n < 10 then [digit n] else dec (n div 10) @ [digit (n mod 10)])"

declare dec.simps [simp del]

definition show_int :: "int \<Rightarrow> string" where
  "show_int i = (if i < 0 then CHR ''-'' # dec (nat (- i)) else dec (nat i))"

definition undec :: "string \<Rightarrow> nat" where
  "undec s = foldl (\<lambda>a c. 10 * a + digit_val c) 0 s"

text \<open>Field widths: \<^verbatim>\<open>%3d\<close> and \<^verbatim>\<open>%02d\<close> pad on the left, \<^verbatim>\<open>%-5d\<close> on the right.\<close>

definition pad_left :: "nat \<Rightarrow> char \<Rightarrow> string \<Rightarrow> string" where
  "pad_left w c s = replicate (w - length s) c @ s"

definition pad_right :: "nat \<Rightarrow> string \<Rightarrow> string" where
  "pad_right w s = s @ replicate (w - length s) CHR '' ''"

text \<open>
  \<^verbatim>\<open>snprintf (buf, len, ...)\<close> with \<open>s\<close> the formatted text: what the buffer then holds as a string.
  The value returned is \<^term>\<open>length s\<close>.
\<close>

definition snprintf :: "nat \<Rightarrow> string \<Rightarrow> string" where
  "snprintf len s = take (len - 1) s"

lemma snprintf_fits: "length s < len \<Longrightarrow> snprintf len s = s"
  by (simp add: snprintf_def)

lemma length_snprintf: "0 < len \<Longrightarrow> length (snprintf len s) < len"
  by (simp add: snprintf_def)

lemma digit_facts [simp]:
  assumes "n < 10"
  shows "digit_val (digit n) = n" and "is_digit (digit n)"
  using assms by (simp_all add: digit_val_def digit_def is_digit_def of_char_of)

lemma dec_digits: "list_all is_digit (dec n)"
  by (induction n rule: dec.induct) (simp add: dec.simps)

lemma dec_not_Nil [simp]: "dec n \<noteq> []"
  by (simp add: dec.simps)

lemma undec_snoc: "undec (s @ [c]) = 10 * undec s + digit_val c"
  by (simp add: undec_def)

lemma undec_dec [simp]: "undec (dec n) = n"
proof (induction n rule: dec.induct)
  case (1 n)
  show ?case
  proof (cases "n < 10")
    case True
    then show ?thesis by (simp add: dec.simps undec_def)
  next
    case False
    with 1 show ?thesis by (simp add: dec.simps [of n] undec_snoc)
  qed
qed

lemma length_dec: "n < 10 ^ k \<Longrightarrow> 0 < k \<Longrightarrow> length (dec n) \<le> k"
proof (induction k arbitrary: n)
  case (Suc k)
  show ?case
  proof (cases "n < 10")
    case True
    then show ?thesis by (simp add: dec.simps)
  next
    case False
    then have "k \<noteq> 0" using Suc.prems by (cases k) auto
    moreover have "n div 10 < 10 ^ k" using Suc.prems by simp
    ultimately have "length (dec (n div 10)) \<le> k" using Suc.IH by simp
    with False show ?thesis by (simp add: dec.simps [of n])
  qed
qed simp

lemma undec_zeros: "undec (replicate k CHR ''0'' @ s) = undec s"
proof (induction k)
  case (Suc k)
  have "undec (CHR ''0'' # t) = undec t" for t by (simp add: undec_def digit_val_def)
  with Suc show ?case by simp
qed simp

lemma undec_pad [simp]: "undec (pad_left w CHR ''0'' s) = undec s"
  by (simp add: pad_left_def undec_zeros)

lemma pad_digits: "list_all is_digit s \<Longrightarrow> list_all is_digit (pad_left w CHR ''0'' s)"
  by (auto simp: pad_left_def list_all_iff is_digit_def set_replicate_conv_if)

lemma length_pad_left: "length (pad_left w c s) = max w (length s)"
  by (simp add: pad_left_def)

lemma digit_chars:
  "digit 0 = CHR ''0''" "digit (Suc 0) = CHR ''1''" "digit 2 = CHR ''2''" "digit 3 = CHR ''3''" "digit 4 = CHR ''4''"
  "digit 5 = CHR ''5''" "digit 6 = CHR ''6''" "digit 7 = CHR ''7''" "digit 8 = CHR ''8''" "digit 9 = CHR ''9''"
  by code_simp+

end
