(* ===== verification/Monitor_View.thy ===== *)
theory Monitor_View
  imports Thread_Pool Decimal
begin

text \<open>
  What the monitor draws (\<^verbatim>\<open>src/monitor.c\<close>, the drawing helpers and \<^verbatim>\<open>draw_ui\<close>): the sequence of
  ncurses calls it makes. The ncurses library is not part of the program; its only answer that the
  drawing code uses is the cursor column of \<^verbatim>\<open>getyx\<close>, a parameter \<open>getx\<close> of the functions below,
  which maps the calls made since \<^verbatim>\<open>clear\<close> to that column.
\<close>

section \<open>Drawing commands\<close>

text \<open>Every glyph takes one column; \<open>Plain\<close> is an ASCII character.\<close>

datatype glyph =
    Plain char | Bar | Rule bool | Tee_Left | Tee_Right | Top_Left | Top_Right | Bottom_Left | Bottom_Right
  | Block | Shade | Dot

datatype attr = C_BUSY | C_IDLE | C_TITLE | C_STAT | C_WARN | A_BOLD | A_DIM | A_BLINK

datatype cmd = Clear | Refresh | Move int int | Put "glyph list" | Attron "attr list" | Attroff "attr list"

definition addstr :: "string \<Rightarrow> cmd" where
  "addstr s = Put (map Plain s)"

section \<open>Helpers\<close>

text \<open>\<^verbatim>\<open>(int)\<close> of a wider value.\<close>

definition to_int :: "int \<Rightarrow> int" where
  "to_int x = sint (word_of_int x :: u32)"

definition two_digits :: "int \<Rightarrow> string" where
  "two_digits i = (if i < 0 then CHR ''-'' # pad_left 1 CHR ''0'' (dec (nat (- i))) else pad_left 2 CHR ''0'' (dec (nat i)))"

definition fmt_uptime :: "int \<Rightarrow> nat \<Rightarrow> string" where
  "fmt_uptime elapsed len =
     snprintf len (two_digits (to_int (c_div elapsed 3600)) @ '':'' @
       two_digits (to_int (c_div (c_mod elapsed 3600) 60)) @ '':'' @ two_digits (to_int (c_mod elapsed 60)))"

definition fill_close :: "(cmd list \<Rightarrow> int) \<Rightarrow> int \<Rightarrow> int \<Rightarrow> cmd list \<Rightarrow> cmd list" where
  "fill_close getx start_x box_width v =
     (let x = getx v; right = start_x + box_width - 1
      in v @ replicate (nat (right - x)) (addstr '' '') @ [Put [Bar]])"

definition draw_rule :: "int \<Rightarrow> int \<Rightarrow> int \<Rightarrow> string option \<Rightarrow> bool \<Rightarrow> cmd list \<Rightarrow> cmd list" where
  "draw_rule row start_x box_width title heavy v =
     (let inner = box_width - 2; h = Put [Rule heavy]
      in v @ [Move row start_x, Put [Tee_Left]] @
         (case title of
            Some t \<Rightarrow>
              if t \<noteq> [] then
                [h, h, addstr '' '', Attron [C_TITLE, A_BOLD], addstr t, Attroff [C_TITLE, A_BOLD], addstr '' ''] @
                (let used = 2 + 1 + int (length t) + 1; fill = inner - used; fill = (if fill < 0 then 0 else fill)
                 in replicate (nat fill) h)
              else replicate (nat inner) h
          | None \<Rightarrow> replicate (nat inner) h) @ [Put [Tee_Right]])"

text \<open>The product \<^verbatim>\<open>current * width\<close> is an \<^verbatim>\<open>int\<close>: out of its range it is a fault.\<close>

definition draw_bar :: "int \<Rightarrow> int \<Rightarrow> int \<Rightarrow> attr \<Rightarrow> attr \<Rightarrow> cmd list \<Rightarrow> cmd list option" where
  "draw_bar width current total_n color_on color_off v =
     (if width \<le> 0 then Some v
      else do {
        fill \<leftarrow> (if total_n > 0 then do { m \<leftarrow> int_mul current width; Some (c_div m total_n) } else Some 0);
        let fill = (if fill > width then width else fill);
        Some (v @ [Attron [color_on, A_BOLD]] @ replicate (nat fill) (Put [Block]) @ [Attroff [color_on, A_BOLD]] @
          [Attron [color_off, A_DIM]] @ replicate (nat (width - fill)) (Put [Shade]) @ [Attroff [color_off, A_DIM]]) })"

section \<open>The screen\<close>

text \<open>The rows of the workers from index \<open>i\<close>, with at most \<open>n\<close> to go; the next row is returned.\<close>

fun worker_rows ::
  "(cmd list \<Rightarrow> int) \<Rightarrow> worker_t list \<Rightarrow> int \<Rightarrow> int \<Rightarrow> int \<Rightarrow> int \<Rightarrow> nat \<Rightarrow> nat \<Rightarrow> int \<Rightarrow> cmd list \<Rightarrow> (int \<times> cmd list) option" where
  "worker_rows getx ws max_y sx box_w bw 0 i row v = Some (row, v)"
| "worker_rows getx ws max_y sx box_w bw (Suc n) i row v =
     (if \<not> row < max_y - 6 then Some (row, v)
      else do {
        w \<leftarrow> array_get ws (int i);
        let v = v @ [Move row sx, Put [Bar]];
        let name = addstr (''  #'' @ pad_right 2 (dec (unat (worker_id w))) @ ''  '');
        v \<leftarrow> (if busy w then do {
                  v \<leftarrow> draw_bar bw 1 1 C_BUSY C_IDLE (v @ [Attron [C_BUSY, A_BOLD], name]);
                  Some (v @ [addstr ''  BUSY'', Attroff [C_BUSY, A_BOLD]]) }
               else do {
                  v \<leftarrow> draw_bar bw 0 1 C_BUSY C_IDLE (v @ [Attron [C_IDLE, A_DIM], name]);
                  Some (v @ [addstr ''  IDLE'', Attroff [C_IDLE, A_DIM]]) });
        worker_rows getx ws max_y sx box_w bw n (Suc i) (row + 1) (fill_close getx sx box_w v) })"

fun stat_rows ::
  "(cmd list \<Rightarrow> int) \<Rightarrow> int \<Rightarrow> int \<Rightarrow> int \<Rightarrow> (string \<times> int \<times> string) list \<Rightarrow> int \<Rightarrow> cmd list \<Rightarrow> int \<times> cmd list" where
  "stat_rows getx max_y sx box_w [] row v = (row, v)"
| "stat_rows getx max_y sx box_w ((lab, val, unit_text) # ss) row v =
     (if \<not> row < max_y - 3 then (row, v)
      else stat_rows getx max_y sx box_w ss (row + 1)
        (fill_close getx sx box_w
          (v @ [Move row sx, Put [Bar], Attron [A_DIM], addstr (''  '' @ lab), Attroff [A_DIM], addstr ''  '',
                Attron [C_STAT, A_BOLD], addstr (pad_right 5 (show_int val)), Attroff [C_STAT, A_BOLD],
                Attron [A_DIM], addstr unit_text, Attroff [A_DIM]])))"

text \<open>The title row, with the uptime aligned to the right.\<close>

definition title_row :: "(cmd list \<Rightarrow> int) \<Rightarrow> int \<Rightarrow> int \<Rightarrow> int \<Rightarrow> bool \<Rightarrow> int \<Rightarrow> cmd list \<Rightarrow> cmd list" where
  "title_row getx row sx box_w is_paused elapsed v =
     (let v = v @ [Move row sx, Put [Bar], Attron [C_TITLE, A_BOLD], addstr ''  Thread Pool Monitor'', Attroff [C_TITLE, A_BOLD]] @
            (if is_paused
             then [Attron [C_WARN, A_BOLD, A_BLINK], addstr ''   !  PAUSED'', Attroff [C_WARN, A_BOLD, A_BLINK]]
             else [Attron [C_BUSY, A_BOLD], Put (map Plain ''   '' @ [Dot] @ map Plain ''  RUNNING''), Attroff [C_BUSY, A_BOLD]]);
          ubuf = snprintf 24 (''   '' @ fmt_uptime elapsed 16 @ ''  '');
          x2 = getx v; target = sx + box_w - 1 - int (length ubuf)
      in v @ replicate (nat (target - x2)) (addstr '' '') @ [Attron [A_DIM], addstr ubuf, Attroff [A_DIM]] @
         [Move row (sx + box_w - 1), Put [Bar]])"

definition util_row :: "(cmd list \<Rightarrow> int) \<Rightarrow> int \<Rightarrow> int \<Rightarrow> int \<Rightarrow> int \<Rightarrow> u16 \<Rightarrow> u32 \<Rightarrow> cmd list \<Rightarrow> cmd list option" where
  "util_row getx row sx box_w bw busy_n nw v = do {
     let pct = (if nw > 0 then sint ((ucast busy_n * 100 :: u32) div nw) else 0);
     v \<leftarrow> draw_bar bw (uint busy_n) (sint nw) C_BUSY C_IDLE (v @ [Move row sx, Put [Bar], addstr ''  Utilization  [''] );
     Some (fill_close getx sx box_w
       (v @ [addstr '']'', Attron [C_STAT, A_BOLD], addstr (''  '' @ pad_left 3 CHR '' '' (show_int pct) @ ''%''), Attroff [C_STAT, A_BOLD]])) }"

definition key_row :: "(cmd list \<Rightarrow> int) \<Rightarrow> int \<Rightarrow> int \<Rightarrow> int \<Rightarrow> bool \<Rightarrow> cmd list \<Rightarrow> cmd list" where
  "key_row getx row sx box_w is_paused v =
     fill_close getx sx box_w
       (v @ [Move row sx, Put [Bar], addstr (if is_paused then '' [r] resume'' else '' [p] pause''),
             Attron [C_WARN, A_DIM], addstr ''        [q] detach'', Attroff [C_WARN, A_DIM]])"

text \<open>The layout of the box on a screen of \<open>max_x\<close> columns.\<close>

definition box_width :: "int \<Rightarrow> int" where
  "box_width max_x =
     (let box_w = max_x - 4; box_w = (if box_w < 52 then 52 else box_w) in if box_w > 72 then 72 else box_w)"

definition box_start :: "int \<Rightarrow> int" where
  "box_start max_x = (let sx = c_div (max_x - box_width max_x) 2 in if sx < 0 then 0 else sx)"

text \<open>The rows above the workers.\<close>

definition header_rows ::
  "(cmd list \<Rightarrow> int) \<Rightarrow> int \<Rightarrow> int \<Rightarrow> int \<Rightarrow> bool \<Rightarrow> int \<Rightarrow> u16 \<Rightarrow> u32 \<Rightarrow> cmd list \<Rightarrow> int \<times> cmd list" where
  "header_rows getx row sx box_w is_paused elapsed busy_n nw v =
     (let v = v @ [Move row sx, Put [Top_Left]] @ replicate (nat (box_w - 2)) (Put [Rule True]) @ [Put [Top_Right]];
          row = row + 1;
          v = title_row getx row sx box_w is_paused elapsed v;
          row = row + 1;
          sec = snprintf 48 (''WORKERS  '' @ dec (unat busy_n) @ '' / '' @ dec (unat nw) @ '' busy'');
          v = draw_rule row sx box_w (Some sec) True v
      in (row + 1, v))"

text \<open>The head of the statistics and the utilization bar.\<close>

definition stats_rows ::
  "(cmd list \<Rightarrow> int) \<Rightarrow> int \<Rightarrow> int \<Rightarrow> int \<Rightarrow> int \<Rightarrow> u16 \<Rightarrow> u32 \<Rightarrow> int \<Rightarrow> cmd list \<Rightarrow> (int \<times> cmd list) option" where
  "stats_rows getx max_y sx box_w bw_util busy_n nw row v = do {
     let v = draw_rule row sx box_w (Some ''STATS'') True v;
     let row = row + 1;
     if row < max_y - 4 then do { v \<leftarrow> util_row getx row sx box_w bw_util busy_n nw v; Some (row + 1, v) }
     else Some (row, v) }"

text \<open>The numeric statistics, the key hints and the bottom border.\<close>

definition lower_rows :: "(cmd list \<Rightarrow> int) \<Rightarrow> int \<Rightarrow> int \<Rightarrow> int \<Rightarrow> (string \<times> int \<times> string) list \<Rightarrow> bool \<Rightarrow> int \<Rightarrow> cmd list \<Rightarrow> cmd list" where
  "lower_rows getx max_y sx box_w stats is_paused row v =
     (let (row, v) = stat_rows getx max_y sx box_w stats row v;
          v = draw_rule row sx box_w None False v;
          row = row + 1;
          (row, v) = (if row < max_y - 1 then (row + 1, key_row getx row sx box_w is_paused v) else (row, v));
          v = (if row < max_y
            then v @ [Move row sx, Put [Bottom_Left]] @ replicate (nat (box_w - 2)) (Put [Rule True]) @ [Put [Bottom_Right]]
            else v)
      in v @ [Refresh])"

text \<open>
  \<^verbatim>\<open>draw_ui\<close> for the time \<open>now\<close>; \<open>None\<close> as the pool is the NULL check.
\<close>

definition draw_ui :: "(cmd list \<Rightarrow> int) \<Rightarrow> int \<Rightarrow> int \<Rightarrow> int \<Rightarrow> thread_pool option \<Rightarrow> cmd list option" where
  "draw_ui getx now max_y max_x pool =
     (case pool of
        None \<Rightarrow> Some []
      | Some p \<Rightarrow> do {
          let nw = num_workers p;
          busy_n \<leftarrow> thread_pool_num_working (Some p);
          let in_sys = sint (total_task_in_system p);
          let box_w = box_width max_x;
          let sx = box_start max_x;
          let inner = box_w - 2;
          let bw_worker = (if inner - 7 - 6 < 4 then 4 else inner - 7 - 6);
          let bw_util = (if inner - 17 - 1 - 5 < 4 then 4 else inner - 17 - 1 - 5);
          elapsed \<leftarrow> long_sub now (start_time p);
          let (row, v) = header_rows getx 1 sx box_w (paused p) elapsed busy_n nw [Clear];
          ws \<leftarrow> (if nw = 0 then Some [] else workers p);
          (row, v) \<leftarrow> worker_rows getx ws max_y sx box_w bw_worker (unat nw) 0 row v;
          (row, v) \<leftarrow> stats_rows getx max_y sx box_w bw_util busy_n nw row v;
          pending \<leftarrow> int_of (in_sys - uint busy_n);
          let pending = (if pending < 0 then 0 else pending);
          let stats = [(''Active   '', uint busy_n, '' workers busy''), (''Pending  '', pending, '' tasks in queue''),
                       (''In system'', in_sys, '' total'')];
          Some (lower_rows getx max_y sx box_w stats (paused p) row v) })"

end
