(* ===== verification/Monitor_Layout.thy ===== *)
theory Monitor_Layout
  imports Monitor_View
begin

text \<open>
  What the monitor's drawing commands leave on the screen, and that \<^verbatim>\<open>draw_ui\<close> stays inside its box.
\<close>

section \<open>Painting\<close>


fun after :: "int \<times> int \<Rightarrow> cmd \<Rightarrow> int \<times> int" where
  "after _ (Move y x) = (y, x)"
| "after (y, x) (Put gs) = (y, x + int (length gs))"
| "after _ Clear = (0, 0)"
| "after yx _ = yx"




definition cursor :: "int \<times> int \<Rightarrow> cmd list \<Rightarrow> int \<times> int" where
  "cursor yx cs = foldl after yx cs"



lemma cursor_append [simp]: "cursor yx (u @ v) = cursor (cursor yx u) v"
  by (simp add: cursor_def)

lemma cursor_simps [simp]: "cursor yx [] = yx" "cursor yx (c # cs) = cursor (after yx c) cs"
  by (simp_all add: cursor_def)



section \<open>Text within a row\<close>

fun flow :: "cmd \<Rightarrow> glyph list" where
  "flow (Put gs) = gs"
| "flow _ = []"

fun flows :: "cmd \<Rightarrow> bool" where
  "flows (Move _ _) = False"
| "flows Clear = False"
| "flows _ = True"

abbreviation row_text :: "cmd list \<Rightarrow> glyph list" where
  "row_text cs \<equiv> concat (map flow cs)"


lemma row_text_replicate [simp]: "row_text (replicate n (Put [g])) = replicate n g"
  by (induction n) simp_all

lemma flows_replicate [simp]: "list_all flows (replicate n (Put gs))"
  by (induction n) simp_all

section \<open>The box\<close>







section \<open>The rows\<close>


lemma row_text_addstr [simp]: "flow (addstr s) = map Plain s" "flows (addstr s)"
  by (simp_all add: addstr_def)









lemma to_int_small: "0 \<le> x \<Longrightarrow> x < 2 ^ 31 \<Longrightarrow> to_int x = x"
  using sint_of_nat [of "nat x"] by (simp add: to_int_def nat_less_iff)

lemma two_digits_small: "0 \<le> i \<Longrightarrow> two_digits i = pad_left 2 CHR ''0'' (dec (nat i))"
  by (simp add: two_digits_def)

text \<open>The uptime as the three fields it prints.\<close>

lemma fmt_uptime_fields:
  assumes "0 \<le> e" and "e < 3600 * 10 ^ 9"
  shows "fmt_uptime e 16 =
    pad_left 2 CHR ''0'' (dec (nat (e div 3600))) @ '':'' @ pad_left 2 CHR ''0'' (dec (nat (e mod 3600 div 60))) @ '':'' @
    pad_left 2 CHR ''0'' (dec (nat (e mod 60)))"
    and "e < 360000000 \<Longrightarrow> length (fmt_uptime e 16) \<le> 11"
proof -
  let ?h = "pad_left 2 CHR ''0'' (dec (nat (e div 3600)))" let ?m = "pad_left 2 CHR ''0'' (dec (nat (e mod 3600 div 60)))"
  let ?s = "pad_left 2 CHR ''0'' (dec (nat (e mod 60)))"
  have m: "0 \<le> e mod 3600 div 60" "e mod 3600 div 60 < 60"
    using pos_mod_bound [of 3600 e] pos_mod_sign [of 3600 e] by (simp_all add: pos_imp_zdiv_nonneg_iff)
  have h: "0 \<le> e div 3600" "e div 3600 < 10 ^ 9" using assms by (simp_all add: pos_imp_zdiv_nonneg_iff)
  have lm: "length ?m = 2" "length ?s = 2"
    using length_dec [of "nat (e mod 3600 div 60)" 2] length_dec [of "nat (e mod 60)" 2] m
    by (simp_all add: length_pad_left nat_less_iff)
  have lh: "length ?h \<le> 9" using length_dec [of "nat (e div 3600)" 9] h by (simp add: length_pad_left nat_less_iff)
  have f: "fmt_uptime e 16 = snprintf 16 (?h @ '':'' @ ?m @ '':'' @ ?s)"
    using assms(1) h m by (simp add: fmt_uptime_def to_int_small two_digits_small)
  then show eq: "fmt_uptime e 16 = ?h @ '':'' @ ?m @ '':'' @ ?s" using lm lh by (simp add: snprintf_fits)
  assume "e < 360000000"
  then have "e div 3600 < 10 ^ 5" by simp
  then have "length ?h \<le> 5" using length_dec [of "nat (e div 3600)" 5] h by (simp add: length_pad_left nat_less_iff)
  then show "length (fmt_uptime e 16) \<le> 11" unfolding eq using lm by simp
qed



section \<open>The whole screen\<close>







section \<open>Reading the uptime back\<close>

definition parse_uptime :: "string \<Rightarrow> nat option" where
  "parse_uptime s =
     (let h = takeWhile (\<lambda>c. c \<noteq> CHR '':'') s; s = tl (dropWhile (\<lambda>c. c \<noteq> CHR '':'') s);
          m = takeWhile (\<lambda>c. c \<noteq> CHR '':'') s; s = tl (dropWhile (\<lambda>c. c \<noteq> CHR '':'') s)
      in if list_all is_digit (h @ m @ s) then Some (3600 * undec h + 60 * undec m + undec s) else None)"

lemma digits_no_colon: "list_all is_digit s \<Longrightarrow> c \<in> set s \<Longrightarrow> c \<noteq> CHR '':''"
  by (auto simp: list_all_iff is_digit_def)

lemma split_colon:
  assumes "list_all is_digit s"
  shows "takeWhile (\<lambda>c. c \<noteq> CHR '':'') (s @ CHR '':'' # t) = s" "dropWhile (\<lambda>c. c \<noteq> CHR '':'') (s @ CHR '':'' # t) = CHR '':'' # t"
  using digits_no_colon [OF assms] by (simp_all add: takeWhile_append2 dropWhile_append2)

text \<open>
  C25: The uptime in the title row loses nothing: for every running time below \<open>3600 * 10 ^ 9\<close> seconds
  the 16-byte buffer of \<^verbatim>\<open>fmt_uptime\<close> holds the whole text, and reading its fields back gives the
  number of seconds.
\<close>

theorem fmt_uptime_roundtrip:
  assumes "0 \<le> e" and "e < 3600 * 10 ^ 9"
  shows "parse_uptime (fmt_uptime e 16) = Some (nat e)"
proof -
  let ?p = "\<lambda>n. pad_left 2 CHR ''0'' (dec n)"
  have d: "list_all is_digit (?p n)" for n by (rule pad_digits [OF dec_digits])
  define h m s where "h = e div 3600" and "m = e mod 3600 div 60" and "s = e mod 60"
  have "e mod 3600 mod 60 = e mod 60" by (simp add: mod_mod_cancel)
  then have e: "e = 3600 * h + 60 * m + s" unfolding h_def m_def s_def
    using mult_div_mod_eq [of 3600 e] mult_div_mod_eq [of 60 "e mod 3600"] by linarith
  have "0 \<le> h" "0 \<le> m" "0 \<le> s" using assms(1) by (simp_all add: h_def m_def s_def pos_imp_zdiv_nonneg_iff)
  then have "nat e = 3600 * nat h + 60 * nat m + nat s" unfolding e by (simp add: nat_add_distrib nat_mult_distrib)
  moreover have "fmt_uptime e 16 = ?p (nat h) @ CHR '':'' # ?p (nat m) @ CHR '':'' # ?p (nat s)"
    unfolding fmt_uptime_fields(1) [OF assms] h_def m_def s_def by simp
  ultimately show ?thesis
    using d by (simp add: parse_uptime_def Let_def split_colon)
qed

theorem fmt_uptime_roundtrip_witness:
  "fmt_uptime 93784 16 = ''26:03:04'' \<and> parse_uptime ''26:03:04'' = Some 93784"
proof -
  have f: "fmt_uptime 93784 16 = ''26:03:04''"
    using fmt_uptime_fields(1) [of 93784] by (simp add: dec.simps pad_left_def digit_chars)
  show ?thesis using fmt_uptime_roundtrip [of 93784] f by simp
qed




end
