(* ===== verification/Monitor.thy ===== *)
theory Monitor
  imports Thread_Pool
begin

text \<open>
  The life of the monitor thread (\<^verbatim>\<open>src/monitor.c\<close>, from \<^verbatim>\<open>monitor_thread\<close> on): the thread with its keys,
  and the owner's calls \<^verbatim>\<open>monitor_start\<close>, \<^verbatim>\<open>monitor_stop\<close>, \<^verbatim>\<open>monitor_detach\<close>, \<^verbatim>\<open>monitor_reattach\<close> and
  \<^verbatim>\<open>monitor_attached\<close>, cut at the accesses to the shared fields. Drawing reads the pool: after the pool
  is freed it is a fault. Thread ids are the indices into the list of the threads created so far.
\<close>

section \<open>State\<close>

text \<open>
  The thread: \<open>MT_Init\<close> the setup, \<open>MT_Test\<close> the loop condition, \<open>MT_Draw\<close> the drawing, \<open>MT_Key\<close> the
  \<^verbatim>\<open>getch\<close> and its \<^verbatim>\<open>switch\<close>, \<open>MT_Pause\<close> and \<open>MT_Resume\<close> the calls it makes, \<open>MT_Nap\<close> the sleep,
  \<open>MT_End\<close> the \<^verbatim>\<open>endwin\<close>.
\<close>

datatype mt_pc = MT_Init | MT_Test | MT_Draw | MT_Key | MT_Pause | MT_Resume | MT_Nap | MT_End | MT_Done

text \<open>The owner: start (\<open>MS\<close>), stop (\<open>MX\<close>), detach (\<open>MD\<close>) and reattach (\<open>MR\<close>), each to its end.\<close>

datatype mo_pc =
    MO_Idle
  | MS_Load | MS_Set | MS_Create | MS_Undo | MS_Valid
  | MX_Load | MX_Clear | MX_Valid | MX_Join
  | MD_Load | MD_Clear | MD_Join
  | MR_Load | MR_Ever | MR_Valid | MR_Join | MR_Set | MR_Create | MR_Undo | MR_Ok

record mon_sys =
  mon :: monitor_t
  mts :: "mt_pc list"
  joined :: "nat list"
  mpc :: mo_pc
  mret :: "int option"
  mon_paused :: bool
  pool_freed :: bool

datatype key = Key_P | Key_R | Key_Q | Key_Other

section \<open>The thread\<close>

definition mt_go :: "nat \<Rightarrow> mt_pc \<Rightarrow> mon_sys \<Rightarrow> mon_sys" where
  "mt_go i pc s = s\<lparr>mts := (mts s)[i := pc]\<rparr>"

text \<open>
  One step of thread \<open>i\<close> when \<^verbatim>\<open>getch\<close> returns \<open>k\<close>. \<^verbatim>\<open>thread_pool_pause\<close> and \<^verbatim>\<open>thread_pool_resume\<close>
  count for the flag they set.
\<close>

definition uses_pool :: "key \<Rightarrow> mt_pc \<Rightarrow> bool" where
  "uses_pool k pc \<longleftrightarrow> pc \<noteq> MT_Nap \<and> pc \<noteq> MT_End \<and> pc \<noteq> MT_Done \<and> \<not> (pc = MT_Key \<and> k = Key_Other)"

definition monitor_thread :: "key \<Rightarrow> nat \<Rightarrow> mon_sys \<Rightarrow> mon_sys option" where
  "monitor_thread k i s =
     (if pool_freed s \<and> uses_pool k (mts s ! i) then None
      else case mts s ! i of
        MT_Init \<Rightarrow>
          Some (mt_go i MT_Test (if \<not> ever_init (mon s) then s\<lparr>mon := (mon s)\<lparr>ever_init := True\<rparr>\<rparr> else s))
      | MT_Test \<Rightarrow> Some (mt_go i (if running (mon s) then MT_Draw else MT_End) s)
      | MT_Draw \<Rightarrow> Some (mt_go i MT_Key s)
      | MT_Key \<Rightarrow>
          (case k of
             Key_P \<Rightarrow> Some (mt_go i (if \<not> mon_paused s then MT_Pause else MT_Nap) s)
           | Key_R \<Rightarrow> Some (mt_go i (if mon_paused s then MT_Resume else MT_Nap) s)
           | Key_Q \<Rightarrow> Some (mt_go i MT_Nap (s\<lparr>mon := (mon s)\<lparr>running := False\<rparr>\<rparr>))
           | Key_Other \<Rightarrow> Some (mt_go i MT_Nap s))
      | MT_Pause \<Rightarrow> Some (mt_go i MT_Nap (s\<lparr>mon_paused := True\<rparr>))
      | MT_Resume \<Rightarrow> Some (mt_go i MT_Nap (s\<lparr>mon_paused := False\<rparr>))
      | MT_Nap \<Rightarrow> Some (mt_go i MT_Test s)
      | MT_End \<Rightarrow> Some (mt_go i MT_Done s)
      | MT_Done \<Rightarrow> Some s)"

section \<open>The owner's calls\<close>

definition mo_go :: "mo_pc \<Rightarrow> mon_sys \<Rightarrow> mon_sys" where
  "mo_go pc s = s\<lparr>mpc := pc\<rparr>"

definition mo_return :: "int option \<Rightarrow> mon_sys \<Rightarrow> mon_sys" where
  "mo_return r s = s\<lparr>mpc := MO_Idle, mret := r\<rparr>"

definition set_running :: "bool \<Rightarrow> mon_sys \<Rightarrow> mon_sys" where
  "set_running b s = s\<lparr>mon := (mon s)\<lparr>running := b\<rparr>\<rparr>"

definition set_valid :: "bool \<Rightarrow> mon_sys \<Rightarrow> mon_sys" where
  "set_valid b s = s\<lparr>mon := (mon s)\<lparr>tid_valid := b\<rparr>\<rparr>"

text \<open>\<^verbatim>\<open>pthread_create\<close>: a new thread whose id is stored.\<close>

definition mon_create :: "mon_sys \<Rightarrow> mon_sys" where
  "mon_create s = s\<lparr>mon := (mon s)\<lparr>mon_tid := length (mts s)\<rparr>, mts := mts s @ [MT_Init]\<rparr>"

text \<open>\<^verbatim>\<open>pthread_join\<close> of a thread that does not exist or was joined before is a fault.\<close>

definition mon_join :: "mon_sys \<Rightarrow> mon_sys option" where
  "mon_join s =
     (let t = mon_tid (mon s)
      in if t < length (mts s) \<and> t \<notin> set (joined s) then Some (s\<lparr>joined := t # joined s\<rparr>) else None)"

definition monitor_start :: "bool \<Rightarrow> mon_sys \<Rightarrow> mon_sys option" where
  "monitor_start created s =
     (case mpc s of
        MS_Load \<Rightarrow> Some (if running (mon s) then mo_return None s else mo_go MS_Set s)
      | MS_Set \<Rightarrow> Some (mo_go MS_Create (set_running True s))
      | MS_Create \<Rightarrow> Some (if created then mo_go MS_Valid (mon_create s) else mo_go MS_Undo s)
      | MS_Undo \<Rightarrow> Some (mo_return None (set_running False s))
      | MS_Valid \<Rightarrow> Some (mo_return None (set_valid True s))
      | _ \<Rightarrow> Some s)"

definition monitor_stop :: "mon_sys \<Rightarrow> mon_sys option" where
  "monitor_stop s =
     (case mpc s of
        MX_Load \<Rightarrow> Some (mo_go (if running (mon s) then MX_Clear else MX_Valid) s)
      | MX_Clear \<Rightarrow> Some (mo_go MX_Valid (set_running False s))
      | MX_Valid \<Rightarrow> Some (if tid_valid (mon s) then mo_go MX_Join s else mo_return None s)
      | MX_Join \<Rightarrow> do { s \<leftarrow> mon_join s; Some (mo_return None (set_valid False s)) }
      | _ \<Rightarrow> Some s)"

definition monitor_detach :: "mon_sys \<Rightarrow> mon_sys option" where
  "monitor_detach s =
     (case mpc s of
        MD_Load \<Rightarrow> Some (if \<not> running (mon s) then mo_return (Some (- 1)) s else mo_go MD_Clear s)
      | MD_Clear \<Rightarrow> Some (mo_go MD_Join (set_running False s))
      | MD_Join \<Rightarrow> do { s \<leftarrow> mon_join s; Some (mo_return (Some 0) (set_valid False s)) }
      | _ \<Rightarrow> Some s)"

definition monitor_reattach :: "bool \<Rightarrow> mon_sys \<Rightarrow> mon_sys option" where
  "monitor_reattach created s =
     (case mpc s of
        MR_Load \<Rightarrow> Some (if running (mon s) then mo_return (Some (- 1)) s else mo_go MR_Ever s)
      | MR_Ever \<Rightarrow> Some (if \<not> ever_init (mon s) then mo_return (Some (- 1)) s else mo_go MR_Valid s)
      | MR_Valid \<Rightarrow> Some (mo_go (if tid_valid (mon s) then MR_Join else MR_Set) s)
      | MR_Join \<Rightarrow> do { s \<leftarrow> mon_join s; Some (mo_go MR_Set (set_valid False s)) }
      | MR_Set \<Rightarrow> Some (mo_go MR_Create (set_running True s))
      | MR_Create \<Rightarrow> Some (if created then mo_go MR_Ok (mon_create s) else mo_go MR_Undo s)
      | MR_Undo \<Rightarrow> Some (mo_return (Some (- 1)) (set_running False s))
      | MR_Ok \<Rightarrow> Some (mo_return (Some 0) (set_valid True s))
      | _ \<Rightarrow> Some s)"

definition monitor_attached :: "mon_sys \<Rightarrow> bool" where
  "monitor_attached s = running (mon s)"

text \<open>The wrappers of \<^verbatim>\<open>src/thread_pool.c\<close>, by the program counter at which their call begins.\<close>

definition thread_pool_monitor_start :: mo_pc where "thread_pool_monitor_start = MS_Load"
definition thread_pool_monitor_detach :: mo_pc where "thread_pool_monitor_detach = MD_Load"
definition thread_pool_monitor_reattach :: mo_pc where "thread_pool_monitor_reattach = MR_Load"
definition thread_pool_monitor_attached :: "mon_sys \<Rightarrow> bool" where "thread_pool_monitor_attached s = monitor_attached s"

section \<open>Runs\<close>

definition in_start :: "mo_pc \<Rightarrow> bool" where
  "in_start pc \<longleftrightarrow> pc = MS_Load \<or> pc = MS_Set \<or> pc = MS_Create \<or> pc = MS_Undo \<or> pc = MS_Valid"

definition in_stop :: "mo_pc \<Rightarrow> bool" where
  "in_stop pc \<longleftrightarrow> pc = MX_Load \<or> pc = MX_Clear \<or> pc = MX_Valid \<or> pc = MX_Join"

definition in_detach :: "mo_pc \<Rightarrow> bool" where
  "in_detach pc \<longleftrightarrow> pc = MD_Load \<or> pc = MD_Clear \<or> pc = MD_Join"

definition mon_owner_step :: "bool \<Rightarrow> mon_sys \<Rightarrow> mon_sys option" where
  "mon_owner_step created s =
     (if in_start (mpc s) then monitor_start created s
      else if in_stop (mpc s) then monitor_stop s
      else if in_detach (mpc s) then monitor_detach s
      else monitor_reattach created s)"

text \<open>A join waits for the end of its thread.\<close>

definition mon_owner_ready :: "mon_sys \<Rightarrow> bool" where
  "mon_owner_ready s \<longleftrightarrow> mpc s \<noteq> MO_Idle \<and>
     (mpc s = MX_Join \<or> mpc s = MD_Join \<or> mpc s = MR_Join \<longrightarrow>
        (mon_tid (mon s) < length (mts s) \<longrightarrow> mts s ! mon_tid (mon s) = MT_Done))"

definition mt_ready :: "mon_sys \<Rightarrow> nat \<Rightarrow> bool" where
  "mt_ready s i \<longleftrightarrow> i < length (mts s) \<and> mts s ! i \<noteq> MT_Done"

text \<open>
  The calls. The header allows \<^verbatim>\<open>monitor_start\<close> only once; \<open>once\<close> says whether that is kept.
  \<^verbatim>\<open>thread_pool_destroy\<close> frees the pool right after its \<^verbatim>\<open>monitor_stop\<close>.
\<close>

inductive mon_step :: "bool \<Rightarrow> mon_sys \<Rightarrow> mon_sys \<Rightarrow> bool" for once where
  thread: "mt_ready s i \<Longrightarrow> monitor_thread k i s = Some s' \<Longrightarrow> mon_step once s s'"
| owner: "mon_owner_ready s \<Longrightarrow> mon_owner_step created s = Some s' \<Longrightarrow> mon_step once s s'"
| call_start: "mpc s = MO_Idle \<Longrightarrow> \<not> pool_freed s \<Longrightarrow> (once \<longrightarrow> mts s = []) \<Longrightarrow>
    mon_step once s (mo_go thread_pool_monitor_start s)"
| call_detach: "mpc s = MO_Idle \<Longrightarrow> \<not> pool_freed s \<Longrightarrow> mon_step once s (mo_go thread_pool_monitor_detach s)"
| call_reattach: "mpc s = MO_Idle \<Longrightarrow> \<not> pool_freed s \<Longrightarrow> mon_step once s (mo_go thread_pool_monitor_reattach s)"
| call_stop: "mpc s = MO_Idle \<Longrightarrow> \<not> pool_freed s \<Longrightarrow> mon_step once s (mo_go MX_Load s)"
| destroy: "mpc s = MX_Valid \<Longrightarrow> \<not> tid_valid (mon s) \<Longrightarrow> mon_step once s (s\<lparr>mpc := MO_Idle, pool_freed := True\<rparr>)"
| destroy_join: "mpc s = MX_Join \<Longrightarrow> mon_owner_ready s \<Longrightarrow> mon_join s = Some s' \<Longrightarrow>
    mon_step once s ((set_valid False s')\<lparr>mpc := MO_Idle, pool_freed := True\<rparr>)"

definition mon_start_state :: "mon_sys \<Rightarrow> bool" where
  "mon_start_state s \<longleftrightarrow> \<not> running (mon s) \<and> \<not> ever_init (mon s) \<and> \<not> tid_valid (mon s) \<and>
     mts s = [] \<and> joined s = [] \<and> mpc s = MO_Idle \<and> \<not> pool_freed s"

definition mon_can_fault :: "mon_sys \<Rightarrow> bool" where
  "mon_can_fault s \<longleftrightarrow>
     (\<exists>k i. mt_ready s i \<and> monitor_thread k i s = None) \<or>
     (\<exists>c. mon_owner_ready s \<and> mon_owner_step c s = None)"

section \<open>The invariant\<close>

text \<open>The thread that exists and is not joined: none, or the one whose id is stored.\<close>

definition mon_live :: "mon_sys \<Rightarrow> nat \<Rightarrow> bool" where
  "mon_live s i \<longleftrightarrow> i < length (mts s) \<and> i \<notin> set (joined s)"

fun mo_facts :: "mo_pc \<Rightarrow> bool \<Rightarrow> bool \<Rightarrow> bool \<Rightarrow> bool" where
  "mo_facts MS_Load run val none \<longleftrightarrow> none \<and> \<not> run \<and> \<not> val"
| "mo_facts MS_Set run val none \<longleftrightarrow> none \<and> \<not> run \<and> \<not> val"
| "mo_facts MS_Create run val none \<longleftrightarrow> none \<and> \<not> val"
| "mo_facts MS_Undo run val none \<longleftrightarrow> none \<and> \<not> val"
| "mo_facts MS_Valid run val none \<longleftrightarrow> \<not> none \<and> \<not> val"
| "mo_facts MR_Set run val none \<longleftrightarrow> \<not> run \<and> none \<and> \<not> val"
| "mo_facts MR_Create run val none \<longleftrightarrow> none \<and> \<not> val"
| "mo_facts MR_Undo run val none \<longleftrightarrow> none \<and> \<not> val"
| "mo_facts MR_Ok run val none \<longleftrightarrow> \<not> none \<and> \<not> val"
| "mo_facts MX_Valid run val none \<longleftrightarrow> \<not> run \<and> (val \<longleftrightarrow> \<not> none)"
| "mo_facts MX_Join run val none \<longleftrightarrow> \<not> run \<and> val \<and> \<not> none"
| "mo_facts MD_Clear run val none \<longleftrightarrow> val \<and> \<not> none"
| "mo_facts MD_Join run val none \<longleftrightarrow> \<not> run \<and> val \<and> \<not> none"
| "mo_facts MR_Ever run val none \<longleftrightarrow> \<not> run \<and> (val \<longleftrightarrow> \<not> none)"
| "mo_facts MR_Valid run val none \<longleftrightarrow> \<not> run \<and> (val \<longleftrightarrow> \<not> none)"
| "mo_facts MR_Join run val none \<longleftrightarrow> \<not> run \<and> val \<and> \<not> none"
| "mo_facts _ run val none \<longleftrightarrow> (val \<longleftrightarrow> \<not> none) \<and> (run \<longrightarrow> val)"

definition mon_none :: "mon_sys \<Rightarrow> bool" where
  "mon_none s \<longleftrightarrow> list_all (\<lambda>i. \<not> mon_live s i) [0 ..< length (mts s)]"

definition mon_inv :: "mon_sys \<Rightarrow> bool" where
  "mon_inv s \<longleftrightarrow>
     (\<forall>i. mon_live s i \<longrightarrow> i = mon_tid (mon s)) \<and>
     (\<forall>i \<in> set (joined s). i < length (mts s) \<and> mts s ! i = MT_Done) \<and> distinct (joined s) \<and>
     (\<not> mon_none s \<longrightarrow> mon_live s (mon_tid (mon s))) \<and>
     mo_facts (mpc s) (running (mon s)) (tid_valid (mon s)) (mon_none s) \<and>
     (pool_freed s \<longrightarrow> mpc s = MO_Idle \<and> mon_none s \<and> \<not> running (mon s))"

lemma mon_none_iff: "mon_none s \<longleftrightarrow> (\<forall>i. \<not> mon_live s i)"
  by (auto simp: mon_none_def list_all_iff mon_live_def)

lemma mon_live_tid:
  assumes "mon_inv s" and "mt_ready s i"
  shows "i = mon_tid (mon s)" and "mon_live s i" and "\<not> mon_none s" and "\<not> pool_freed s"
proof -
  have "i \<notin> set (joined s)" using assms by (auto simp: mon_inv_def mt_ready_def)
  then show l: "mon_live s i" using assms(2) by (simp add: mon_live_def mt_ready_def)
  then show "i = mon_tid (mon s)" "\<not> mon_none s" using assms(1) by (auto simp: mon_inv_def mon_none_iff)
  then show "\<not> pool_freed s" using assms(1) by (auto simp: mon_inv_def)
qed

text \<open>A step of the thread changes neither the owner's view of the threads nor its facts.\<close>

lemma mo_facts_stop: "mo_facts pc run val none \<Longrightarrow> mo_facts pc False val none"
  by (cases pc) auto

lemma mon_inv_thread:
  assumes inv: "mon_inv s" and i: "mt_ready s i"
    and s': "length (mts s') = length (mts s)" "\<And>j. j \<noteq> i \<Longrightarrow> mts s' ! j = mts s ! j" "joined s' = joined s"
      "mpc s' = mpc s" "pool_freed s' = pool_freed s" "mon_tid (mon s') = mon_tid (mon s)" "tid_valid (mon s') = tid_valid (mon s)"
      "running (mon s') = running (mon s) \<or> \<not> running (mon s')"
  shows "mon_inv s'"
proof -
  have live: "mon_live s' j = mon_live s j" for j by (simp add: mon_live_def s')
  then have none: "mon_none s' = mon_none s" by (simp add: mon_none_iff)
  have "j \<noteq> i" if "j \<in> set (joined s)" for j using mon_live_tid(2) [OF inv i] that by (auto simp: mon_live_def)
  then have "\<forall>j \<in> set (joined s'). j < length (mts s') \<and> mts s' ! j = MT_Done" using inv s' by (auto simp: mon_inv_def)
  moreover have "mo_facts (mpc s') (running (mon s')) (tid_valid (mon s')) (mon_none s')"
    using inv s'(4,7,8) none mo_facts_stop [of "mpc s" "running (mon s)"] by (auto simp: mon_inv_def)
  ultimately show ?thesis
    using inv mon_live_tid(4) [OF inv i] unfolding mon_inv_def live none s' by simp
qed

lemma monitor_thread_good:
  assumes inv: "mon_inv s" and i: "mt_ready s i"
  shows "\<exists>s'. monitor_thread k i s = Some s' \<and> mon_inv s'"
proof -
  have f: "\<not> pool_freed s" by (rule mon_live_tid(4) [OF inv i])
  have go: "mon_inv (mt_go i pc t)"
    if "mts t = mts s" "joined t = joined s" "mpc t = mpc s" "pool_freed t = pool_freed s" "mon_tid (mon t) = mon_tid (mon s)"
      "tid_valid (mon t) = tid_valid (mon s)" "running (mon t) = running (mon s) \<or> \<not> running (mon t)" for pc t
    by (rule mon_inv_thread [OF inv i]) (use that in \<open>simp_all add: mt_go_def\<close>)
  show ?thesis
    using f i by (cases "mts s ! i"; cases k) (auto simp: monitor_thread_def mt_ready_def intro!: go)
qed

text \<open>The owner's moves that keep the threads.\<close>

lemma mon_inv_owner:
  assumes "mon_inv s" and "\<not> pool_freed s" and "mts s' = mts s" and "joined s' = joined s" and "pool_freed s' = pool_freed s"
    and "mon_tid (mon s') = mon_tid (mon s)"
    and "mo_facts (mpc s') (running (mon s')) (tid_valid (mon s')) (mon_none s)"
  shows "mon_inv s'"
proof -
  have live: "mon_live s' j = mon_live s j" for j by (simp add: mon_live_def assms)
  then have "mon_none s' = mon_none s" by (simp add: mon_none_iff)
  then show ?thesis using assms unfolding mon_inv_def live by simp
qed

lemma mon_inv_create:
  assumes inv: "mon_inv s" and none: "mon_none s" and f: "\<not> pool_freed s"
    and pc: "pc = MS_Valid \<or> pc = MR_Ok" and val: "\<not> tid_valid (mon s)"
  shows "mon_inv (mo_go pc (mon_create s))"
proof -
  let ?s = "mo_go pc (mon_create s)"
  have j: "\<forall>x \<in> set (joined s). x < length (mts s) \<and> mts s ! x = MT_Done" "distinct (joined s)"
    using inv by (simp_all add: mon_inv_def)
  have live: "mon_live ?s i \<longleftrightarrow> i = length (mts s)" for i
    using none j by (auto simp: mon_none_iff mon_live_def mo_go_def mon_create_def less_Suc_eq)
  then have "\<not> mon_none ?s" by (simp add: mon_none_iff)
  moreover have "\<forall>x \<in> set (joined ?s). x < length (mts ?s) \<and> mts ?s ! x = MT_Done"
    using j by (auto simp: mo_go_def mon_create_def nth_append)
  ultimately show ?thesis
    using live j(2) f pc val unfolding mon_inv_def by (auto simp: mo_go_def mon_create_def)
qed

lemma mon_inv_join:
  assumes inv: "mon_inv s" and rdy: "mts s ! mon_tid (mon s) = MT_Done" and f: "\<not> pool_freed s" and none: "\<not> mon_none s"
    and pc: "mo_facts pc (running (mon s)) False True" and nf: "fr \<Longrightarrow> pc = MO_Idle \<and> \<not> running (mon s)"
  shows "\<exists>s'. mon_join s = Some s' \<and> mon_inv ((set_valid False s')\<lparr>mpc := pc, mret := r, pool_freed := fr\<rparr>)"
proof -
  let ?t = "mon_tid (mon s)"
  have l: "?t < length (mts s)" "?t \<notin> set (joined s)" using inv none by (auto simp: mon_inv_def mon_live_def)
  let ?s = "(set_valid False (s\<lparr>joined := ?t # joined s\<rparr>))\<lparr>mpc := pc, mret := r, pool_freed := fr\<rparr>"
  have "mon_live s i \<Longrightarrow> i = ?t" for i using inv by (simp add: mon_inv_def)
  then have live: "\<not> mon_live ?s i" for i by (auto simp: mon_live_def set_valid_def)
  then have n: "mon_none ?s" by (simp add: mon_none_iff)
  have j: "\<forall>i \<in> set (joined s). i < length (mts s) \<and> mts s ! i = MT_Done" "distinct (joined s)"
    using inv unfolding mon_inv_def by blast+
  have "\<forall>i \<in> set (joined ?s). i < length (mts ?s) \<and> mts ?s ! i = MT_Done" "distinct (joined ?s)"
    using j l rdy by (auto simp: set_valid_def)
  moreover have "mo_facts (mpc ?s) (running (mon ?s)) (tid_valid (mon ?s)) (mon_none ?s)"
    using pc n by (simp add: set_valid_def)
  moreover have "pool_freed ?s \<longrightarrow> mpc ?s = MO_Idle \<and> mon_none ?s \<and> \<not> running (mon ?s)"
    using nf n by (cases fr) (simp_all add: set_valid_def)
  ultimately have "mon_inv ?s" using live n unfolding mon_inv_def by blast
  then show ?thesis using l by (simp add: mon_join_def Let_def)
qed

lemma mon_inv_mret [simp]: "mon_inv (s\<lparr>mret := r\<rparr>) = mon_inv s"
proof -
  have "mon_live (s\<lparr>mret := r\<rparr>) i = mon_live s i" for i by (simp add: mon_live_def)
  then have "mon_none (s\<lparr>mret := r\<rparr>) = mon_none s" "mon_live (s\<lparr>mret := r\<rparr>) = mon_live s" by (auto simp: mon_none_iff)
  then show ?thesis by (simp add: mon_inv_def)
qed

lemma mon_join_good:
  assumes inv: "mon_inv s" and rdy: "mon_owner_ready s" and f: "\<not> pool_freed s"
    and at: "mpc s = MX_Join \<or> mpc s = MD_Join \<or> mpc s = MR_Join" and pc: "pc = MO_Idle \<or> pc = MR_Set"
  shows "\<exists>s'. mon_join s = Some s' \<and> mon_inv ((set_valid False s')\<lparr>mpc := pc\<rparr>)"
proof -
  have "mo_facts (mpc s) (running (mon s)) (tid_valid (mon s)) (mon_none s)" using inv by (simp add: mon_inv_def)
  then have n: "\<not> mon_none s" "\<not> running (mon s)" using at by auto
  then have "mon_tid (mon s) < length (mts s)" using inv by (auto simp: mon_inv_def mon_live_def)
  then have d: "mts s ! mon_tid (mon s) = MT_Done" using rdy at by (auto simp: mon_owner_ready_def)
  have "mo_facts pc (running (mon s)) False True" using pc n(2) by auto
  from mon_inv_join [OF inv d f n(1) this, where fr = False] obtain s' where
    s': "mon_join s = Some s'" "mon_inv ((set_valid False s')\<lparr>mpc := pc, mret := None, pool_freed := False\<rparr>)" by auto
  have "pool_freed s' = False" using s'(1) f by (auto simp: mon_join_def Let_def split: if_splits)
  then have "(set_valid False s')\<lparr>mpc := pc, mret := None, pool_freed := False\<rparr> = (set_valid False s')\<lparr>mpc := pc, mret := None\<rparr>"
    by (cases s') (simp add: set_valid_def)
  then have "mon_inv ((set_valid False s')\<lparr>mpc := pc, mret := None\<rparr>)" using s'(2) by simp
  then show ?thesis using s'(1) by simp
qed

lemmas mon_call_defs = mon_owner_step_def in_start_def in_stop_def in_detach_def monitor_start_def monitor_stop_def
  monitor_detach_def monitor_reattach_def mo_go_def mo_return_def set_running_def set_valid_def

lemma mon_owner_good:
  assumes inv: "mon_inv s" and rdy: "mon_owner_ready s"
  shows "\<exists>s'. mon_owner_step c s = Some s' \<and> mon_inv s'"
proof -
  have f: "\<not> pool_freed s" using inv rdy by (auto simp: mon_inv_def mon_owner_ready_def)
  have facts: "mo_facts (mpc s) (running (mon s)) (tid_valid (mon s)) (mon_none s)" using inv by (simp add: mon_inv_def)
  note own = mon_inv_owner [OF inv f]
  note join = mon_join_good [OF inv rdy f]
  show ?thesis
  proof (cases "mpc s")
    case MO_Idle
    then show ?thesis using rdy by (simp add: mon_owner_ready_def)
  next
    case MS_Load
    then show ?thesis using facts own [of "s\<lparr>mpc := MS_Set\<rparr>"] by (auto simp: mon_call_defs)
  next
    case MS_Set
    then show ?thesis using facts own [of "s\<lparr>mon := (mon s)\<lparr>running := True\<rparr>, mpc := MS_Create\<rparr>"] by (auto simp: mon_call_defs)
  next
    case MS_Undo
    then show ?thesis using facts own [of "s\<lparr>mon := (mon s)\<lparr>running := False\<rparr>, mpc := MO_Idle, mret := None\<rparr>"] by (auto simp: mon_call_defs)
  next
    case MS_Valid
    then show ?thesis using facts own [of "s\<lparr>mon := (mon s)\<lparr>tid_valid := True\<rparr>, mpc := MO_Idle, mret := None\<rparr>"] by (auto simp: mon_call_defs)
  next
    case MX_Load
    then show ?thesis using facts own [of "s\<lparr>mpc := MX_Clear\<rparr>"] own [of "s\<lparr>mpc := MX_Valid\<rparr>"] by (auto simp: mon_call_defs)
  next
    case MX_Clear
    then show ?thesis using facts own [of "s\<lparr>mon := (mon s)\<lparr>running := False\<rparr>, mpc := MX_Valid\<rparr>"] by (auto simp: mon_call_defs)
  next
    case MX_Valid
    then show ?thesis using facts own [of "s\<lparr>mpc := MX_Join\<rparr>"] own [of "s\<lparr>mpc := MO_Idle, mret := None\<rparr>"] by (auto simp: mon_call_defs)
  next
    case MD_Load
    then show ?thesis using facts own [of "s\<lparr>mpc := MO_Idle, mret := Some (- 1)\<rparr>"] own [of "s\<lparr>mpc := MD_Clear\<rparr>"] by (auto simp: mon_call_defs)
  next
    case MD_Clear
    then show ?thesis using facts own [of "s\<lparr>mon := (mon s)\<lparr>running := False\<rparr>, mpc := MD_Join\<rparr>"] by (auto simp: mon_call_defs)
  next
    case MR_Load
    then show ?thesis using facts own [of "s\<lparr>mpc := MO_Idle, mret := Some (- 1)\<rparr>"] own [of "s\<lparr>mpc := MR_Ever\<rparr>"] by (auto simp: mon_call_defs)
  next
    case MR_Ever
    then show ?thesis using facts own [of "s\<lparr>mpc := MO_Idle, mret := Some (- 1)\<rparr>"] own [of "s\<lparr>mpc := MR_Valid\<rparr>"] by (auto simp: mon_call_defs)
  next
    case MR_Valid
    then show ?thesis using facts own [of "s\<lparr>mpc := MR_Join\<rparr>"] own [of "s\<lparr>mpc := MR_Set\<rparr>"] by (auto simp: mon_call_defs)
  next
    case MR_Set
    then show ?thesis using facts own [of "s\<lparr>mon := (mon s)\<lparr>running := True\<rparr>, mpc := MR_Create\<rparr>"] by (auto simp: mon_call_defs)
  next
    case MR_Undo
    then show ?thesis using facts own [of "s\<lparr>mon := (mon s)\<lparr>running := False\<rparr>, mpc := MO_Idle, mret := Some (- 1)\<rparr>"] by (auto simp: mon_call_defs)
  next
    case MR_Ok
    then show ?thesis using facts own [of "s\<lparr>mon := (mon s)\<lparr>tid_valid := True\<rparr>, mpc := MO_Idle, mret := Some 0\<rparr>"] by (auto simp: mon_call_defs)
  next
    case MS_Create
    then show ?thesis using facts mon_inv_create [OF inv _ f, of MS_Valid] own [of "s\<lparr>mpc := MS_Undo\<rparr>"]
      by (cases c) (simp_all add: mon_call_defs)
  next
    case MR_Create
    then show ?thesis using facts mon_inv_create [OF inv _ f, of MR_Ok] own [of "s\<lparr>mpc := MR_Undo\<rparr>"]
      by (cases c) (simp_all add: mon_call_defs)
  next
    case MX_Join
    then show ?thesis using join [of MO_Idle] by (fastforce simp: mon_owner_step_def in_start_def in_stop_def monitor_stop_def mo_return_def)
  next
    case MD_Join
    then show ?thesis using join [of MO_Idle]
      by (fastforce simp: mon_owner_step_def in_start_def in_stop_def in_detach_def monitor_detach_def mo_return_def)
  next
    case MR_Join
    then show ?thesis using join [of MR_Set]
      by (fastforce simp: mon_owner_step_def in_start_def in_stop_def in_detach_def monitor_reattach_def mo_go_def)
  qed
qed

text \<open>Every step of the once-only protocol keeps the invariant, and none of them can fault.\<close>

lemma mon_inv_call:
  assumes inv: "mon_inv s" and f: "\<not> pool_freed s" and idle: "mpc s = MO_Idle"
    and pc: "pc = MS_Load \<and> mts s = [] \<or> pc = MD_Load \<or> pc = MR_Load \<or> pc = MX_Load"
  shows "mon_inv (mo_go pc s)"
proof -
  have "mo_facts (mpc s) (running (mon s)) (tid_valid (mon s)) (mon_none s)" using inv unfolding mon_inv_def by blast
  then have "mo_facts MO_Idle (running (mon s)) (tid_valid (mon s)) (mon_none s)" by (simp only: idle)
  moreover have "mts s = [] \<Longrightarrow> mon_none s" by (simp add: mon_none_def)
  ultimately have "mo_facts pc (running (mon s)) (tid_valid (mon s)) (mon_none s)" using pc by auto
  then show ?thesis by (intro mon_inv_owner [OF inv f]) (simp_all add: mo_go_def)
qed

lemma mon_inv_destroy:
  assumes inv: "mon_inv s" and pc: "mpc s = MX_Valid" "\<not> tid_valid (mon s)"
  shows "mon_inv (s\<lparr>mpc := MO_Idle, pool_freed := True\<rparr>)"
proof -
  let ?s = "s\<lparr>mpc := MO_Idle, pool_freed := True\<rparr>"
  have live: "mon_live ?s i = mon_live s i" for i by (simp add: mon_live_def)
  then have none: "mon_none ?s = mon_none s" by (simp add: mon_none_iff)
  have "mo_facts MX_Valid (running (mon s)) (tid_valid (mon s)) (mon_none s)" using inv pc(1) by (auto simp: mon_inv_def)
  then show ?thesis using inv pc unfolding mon_inv_def live none by simp
qed

lemma mon_inv_destroy_join:
  assumes inv: "mon_inv s" and pc: "mpc s = MX_Join" and rdy: "mon_owner_ready s" and j: "mon_join s = Some s'"
  shows "mon_inv ((set_valid False s')\<lparr>mpc := MO_Idle, pool_freed := True\<rparr>)"
proof -
  have f: "\<not> pool_freed s" using inv pc by (auto simp: mon_inv_def)
  have n: "\<not> mon_none s" "\<not> running (mon s)" using inv pc by (auto simp: mon_inv_def)
  then have "mon_tid (mon s) < length (mts s)" using inv by (auto simp: mon_inv_def mon_live_def)
  then have d: "mts s ! mon_tid (mon s) = MT_Done" using rdy pc by (auto simp: mon_owner_ready_def)
  have "mo_facts MO_Idle (running (mon s)) False True" using n(2) by simp
  from mon_inv_join [OF inv d f n(1) this, where fr = True and r = "mret s'"]
  have "mon_inv ((set_valid False s')\<lparr>mpc := MO_Idle, mret := mret s', pool_freed := True\<rparr>)" using j n(2) by auto
  then show ?thesis by (cases s') (simp add: set_valid_def)
qed

interpretation monitor_run: inductive_invariant mon_start_state "mon_step True" mon_inv
proof
  fix s assume "mon_start_state s"
  then show "mon_inv s" by (auto simp: mon_start_state_def mon_inv_def mon_live_def mon_none_def)
next
  fix s s' assume "mon_inv s" "mon_step True s s'"
  from this(2,1) show "mon_inv s'"
  proof cases
    case (thread i k)
    then show ?thesis using monitor_thread_good [OF \<open>mon_inv s\<close>, of i k] by auto
  next
    case (owner created)
    then show ?thesis using mon_owner_good [OF \<open>mon_inv s\<close>, of created] by auto
  next
    case destroy
    then show ?thesis using mon_inv_destroy [OF \<open>mon_inv s\<close>] by simp
  next
    case (destroy_join t)
    then show ?thesis using mon_inv_destroy_join [OF \<open>mon_inv s\<close>] by simp
  qed (simp_all add: mon_inv_call thread_pool_monitor_start_def thread_pool_monitor_detach_def thread_pool_monitor_reattach_def)
qed

lemma mon_inv_no_fault: "mon_inv s \<Longrightarrow> \<not> mon_can_fault s"
  by (auto simp: mon_can_fault_def dest: monitor_thread_good mon_owner_good)

end
