(* ===== verification/Monitor_Properties.thy ===== *)
theory Monitor_Properties
  imports Monitor
begin

text \<open>
  The correctness of the monitor's life cycle: no step uses the freed pool or joins a thread twice, every
  join ends, and what happens when \<^verbatim>\<open>monitor_start\<close> is called a second time against its contract.
\<close>

section \<open>Safety\<close>

lemma mon_inv_freed:
  assumes "mon_inv s" and "pool_freed s" and "i < length (mts s)"
  shows "mts s ! i = MT_Done"
proof -
  have "mon_none s" using assms by (simp add: mon_inv_def)
  then have "i \<in> set (joined s)" using assms(3) by (auto simp: mon_none_iff mon_live_def)
  then show ?thesis using assms(1) by (simp add: mon_inv_def)
qed

lemma mon_inv_one: "mon_inv s \<Longrightarrow> mt_ready s i \<Longrightarrow> mt_ready s j \<Longrightarrow> i = j"
  using mon_live_tid(1) by metis

lemma mon_inv_distinct: "mon_inv s \<Longrightarrow> distinct (joined s)"
  by (simp add: mon_inv_def)

text \<open>
  C26: in every interleaving of the monitor thread (whatever keys are pressed) with the owner's calls of
  start, detach, reattach, stop and destroy, started once as the header demands, no thread reads the pool
  after it is freed and no thread id is joined twice; at most one monitor thread runs at any time; and when
  the pool is freed every monitor thread ever created has ended.
\<close>

theorem monitor_lifecycle_safe:
  assumes "reachable mon_start_state (mon_step True) s"
  shows "\<not> mon_can_fault s \<and> distinct (joined s) \<and>
    (\<forall>i j. mt_ready s i \<and> mt_ready s j \<longrightarrow> i = j) \<and>
    (pool_freed s \<longrightarrow> list_all (\<lambda>pc. pc = MT_Done) (mts s))"
proof -
  have inv: "mon_inv s" by (rule monitor_run.reachable_inv [OF assms])
  show ?thesis
    using mon_inv_no_fault [OF inv] mon_inv_distinct [OF inv] mon_inv_one [OF inv] mon_inv_freed [OF inv]
    by (auto simp: list_all_length)
qed

section \<open>Termination of the joins\<close>

text \<open>The thread alone, with the keys it reads.\<close>

fun mt_run :: "key list \<Rightarrow> nat \<Rightarrow> mon_sys \<Rightarrow> mon_sys option" where
  "mt_run [] i s = Some s"
| "mt_run (k # ks) i s = do { s \<leftarrow> monitor_thread k i s; mt_run ks i s }"

text \<open>The steps a thread has left once \<^verbatim>\<open>running\<close> is false.\<close>

fun mt_rank :: "mt_pc \<Rightarrow> nat" where
  "mt_rank MT_Init = 3"
| "mt_rank MT_Test = 2"
| "mt_rank MT_Draw = 6"
| "mt_rank MT_Key = 5"
| "mt_rank MT_Pause = 4"
| "mt_rank MT_Resume = 4"
| "mt_rank MT_Nap = 3"
| "mt_rank MT_End = 1"
| "mt_rank MT_Done = 0"

lemma mt_rank_zero: "mt_rank pc = 0 \<Longrightarrow> pc = MT_Done"
  by (cases pc) auto

definition mt_stopping :: "nat \<Rightarrow> mon_sys \<Rightarrow> bool" where
  "mt_stopping i s \<longleftrightarrow> i < length (mts s) \<and> \<not> running (mon s) \<and> \<not> pool_freed s"

lemma mt_step_rank:
  assumes "mt_stopping i s"
  shows "\<exists>s'. monitor_thread k i s = Some s' \<and> mt_stopping i s' \<and> mt_rank (mts s' ! i) \<le> mt_rank (mts s ! i) - 1 \<and>
    mpc s' = mpc s \<and> mon_tid (mon s') = mon_tid (mon s)"
  using assms by (cases "mts s ! i"; cases k) (auto simp: mt_stopping_def monitor_thread_def mt_go_def)

lemma mt_run_rank:
  assumes "mt_stopping i s" and "mt_rank (mts s ! i) \<le> length ks"
  shows "\<exists>s'. mt_run ks i s = Some s' \<and> mt_stopping i s' \<and> mts s' ! i = MT_Done \<and>
    mpc s' = mpc s \<and> mon_tid (mon s') = mon_tid (mon s)"
  using assms
proof (induction ks arbitrary: s)
  case Nil
  then show ?case by (simp add: mt_rank_zero)
next
  case (Cons k ks)
  obtain t where t: "monitor_thread k i s = Some t" "mt_stopping i t" "mt_rank (mts t ! i) \<le> mt_rank (mts s ! i) - 1"
      "mpc t = mpc s" "mon_tid (mon t) = mon_tid (mon s)"
    using mt_step_rank [OF Cons.prems(1)] by blast
  have "mt_rank (mts t ! i) \<le> length ks" using t(3) Cons.prems(2) by simp
  from Cons.IH [OF t(2) this] show ?case using t by auto
qed

lemma mt_rank_le: "mt_rank pc \<le> 6"
  by (cases pc) auto

lemma mon_join_state:
  assumes inv: "mon_inv s" and pc: "mpc s = MX_Join \<or> mpc s = MD_Join \<or> mpc s = MR_Join"
  shows "mt_stopping (mon_tid (mon s)) s"
proof -
  have "\<not> running (mon s)" "\<not> mon_none s" "\<not> pool_freed s" using inv pc by (auto simp: mon_inv_def)
  moreover from this have "mon_live s (mon_tid (mon s))" using inv by (simp add: mon_inv_def)
  ultimately show ?thesis by (simp add: mt_stopping_def mon_live_def)
qed

text \<open>
  C27: \<^verbatim>\<open>monitor_stop\<close>, \<^verbatim>\<open>monitor_detach\<close> and \<^verbatim>\<open>monitor_reattach\<close> never wait for ever in their
  \<^verbatim>\<open>pthread_join\<close>: whatever keys are pressed, the thread they wait for ends within six of its own steps,
  and the call can then go on.
\<close>

theorem monitor_join_terminates:
  assumes "reachable mon_start_state (mon_step True) s"
    and "mpc s = MX_Join \<or> mpc s = MD_Join \<or> mpc s = MR_Join"
    and "6 \<le> length ks"
  shows "\<exists>s'. mt_run ks (mon_tid (mon s)) s = Some s' \<and> mts s' ! mon_tid (mon s) = MT_Done \<and> mon_owner_ready s'"
proof -
  have "mt_stopping (mon_tid (mon s)) s" by (rule mon_join_state [OF monitor_run.reachable_inv [OF assms(1)] assms(2)])
  from mt_run_rank [OF this, of ks] mt_rank_le [of "mts s ! mon_tid (mon s)"] assms(3) obtain s' where
    "mt_run ks (mon_tid (mon s)) s = Some s'" "mts s' ! mon_tid (mon s) = MT_Done" "mpc s' = mpc s"
    "mon_tid (mon s') = mon_tid (mon s)" by force
  then show ?thesis using assms(2) by (auto simp: mon_owner_ready_def)
qed

section \<open>Concrete runs\<close>

text \<open>A schedule: a step of a thread with its key, a step of the owner, a call, or the end of destroy.\<close>

datatype mon_act = By_Thread nat key | By_Owner bool | Call mo_pc | Free_Pool

fun mon_act_step :: "mon_act \<Rightarrow> mon_sys \<Rightarrow> mon_sys option" where
  "mon_act_step (By_Thread i k) s = (if mt_ready s i then monitor_thread k i s else None)"
| "mon_act_step (By_Owner c) s = (if mon_owner_ready s then mon_owner_step c s else None)"
| "mon_act_step (Call pc) s = (if mpc s = MO_Idle \<and> \<not> pool_freed s then Some (mo_go pc s) else None)"
| "mon_act_step Free_Pool s =
     (if mpc s = MX_Join \<and> mon_owner_ready s
      then map_option (\<lambda>s'. (set_valid False s')\<lparr>mpc := MO_Idle, pool_freed := True\<rparr>) (mon_join s)
      else None)"

fun mon_act_ok :: "bool \<Rightarrow> mon_act \<Rightarrow> mon_sys \<Rightarrow> bool" where
  "mon_act_ok once (Call pc) s \<longleftrightarrow> (pc = MS_Load \<and> (once \<longrightarrow> mts s = [])) \<or> pc = MD_Load \<or> pc = MR_Load \<or> pc = MX_Load"
| "mon_act_ok once _ s \<longleftrightarrow> True"

fun mon_run :: "bool \<Rightarrow> mon_act list \<Rightarrow> mon_sys \<Rightarrow> mon_sys option" where
  "mon_run once [] s = Some s"
| "mon_run once (a # as) s =
     (if mon_act_ok once a s then (case mon_act_step a s of None \<Rightarrow> None | Some t \<Rightarrow> mon_run once as t) else None)"

lemma mon_act_step_sound:
  assumes "mon_act_ok once a s" and "mon_act_step a s = Some t"
  shows "mon_step once s t"
proof (cases a)
  case (Call pc)
  then show ?thesis
    using assms mon_step.call_start [of s once] mon_step.call_detach [of s once] mon_step.call_reattach [of s once]
      mon_step.call_stop [of s once]
    by (auto simp: thread_pool_monitor_start_def thread_pool_monitor_detach_def thread_pool_monitor_reattach_def split: if_splits)
qed (use assms in \<open>auto split: if_splits intro: mon_step.intros\<close>)

lemma mon_run_reachable:
  "mon_run once as s = Some t \<Longrightarrow> reachable mon_start_state (mon_step once) s \<Longrightarrow>
     reachable mon_start_state (mon_step once) t"
proof (induction as arbitrary: s)
  case (Cons a as)
  from Cons.prems(1) obtain u where "mon_act_ok once a s" "mon_act_step a s = Some u" "mon_run once as u = Some t"
    by (auto split: if_splits option.splits)
  then show ?case
    using Cons.IH reachable.advance [of mon_start_state "mon_step once", OF Cons.prems(2) mon_act_step_sound] by blast
qed simp

definition mon_fresh :: mon_sys where
  "mon_fresh = \<lparr>mon = \<lparr>mon_tid = 0, tid_valid = False, running = False, ever_init = False\<rparr>, mts = [], joined = [],
     mpc = MO_Idle, mret = None, mon_paused = False, pool_freed = False\<rparr>"

lemma mon_run_fresh: "mon_run once as mon_fresh = Some t \<Longrightarrow> reachable mon_start_state (mon_step once) t"
  by (erule mon_run_reachable) (rule reachable.start, simp add: mon_start_state_def mon_fresh_def)

lemmas mon_run_eval = mon_fresh_def mt_ready_def mon_owner_ready_def monitor_thread_def uses_pool_def mt_go_def
  mon_create_def mon_join_def mon_call_defs

text \<open>Start, a pause by key, detach, reattach, quit by key, destroy.\<close>

definition mon_joining :: "mon_act list" where
  "mon_joining = [Call MS_Load, By_Owner True, By_Owner True, By_Owner True, By_Thread 0 Key_Other, By_Owner True, By_Thread 0 Key_Other,
     By_Thread 0 Key_Other, By_Thread 0 Key_P, By_Thread 0 Key_Other, Call MD_Load, By_Owner True, By_Owner True]"

definition mon_session :: "mon_act list" where
  "mon_session = mon_joining @ [By_Thread 0 Key_Other, By_Thread 0 Key_Other, By_Thread 0 Key_Other, By_Owner True,
     Call MR_Load, By_Owner True, By_Owner True, By_Owner True, By_Owner True, By_Owner True, By_Owner True,
     By_Thread 1 Key_Other, By_Thread 1 Key_Other, By_Thread 1 Key_Other, By_Thread 1 Key_Q, By_Thread 1 Key_Other,
     By_Thread 1 Key_Other, By_Thread 1 Key_Other, Call MX_Load, By_Owner True, By_Owner True, Free_Pool]"

definition mon_final :: mon_sys where
  "mon_final = \<lparr>mon = \<lparr>mon_tid = 1, tid_valid = False, running = False, ever_init = True\<rparr>, mts = [MT_Done, MT_Done],
     joined = [1, 0], mpc = MO_Idle, mret = Some 0, mon_paused = True, pool_freed = True\<rparr>"

lemma mon_session_run: "mon_run True mon_session mon_fresh = Some mon_final"
  by (simp add: mon_session_def mon_joining_def mon_final_def mon_run_eval)

theorem monitor_lifecycle_safe_witness:
  "mon_run True mon_session mon_fresh = Some mon_final \<and> pool_freed mon_final \<and> \<not> mon_can_fault mon_final \<and>
   list_all (\<lambda>pc. pc = MT_Done) (mts mon_final)"
  using monitor_lifecycle_safe [OF mon_run_fresh [OF mon_session_run]] mon_session_run by (simp add: mon_final_def)

definition mon_waiting :: mon_sys where
  "mon_waiting = \<lparr>mon = \<lparr>mon_tid = 0, tid_valid = True, running = False, ever_init = True\<rparr>, mts = [MT_Nap],
     joined = [], mpc = MD_Join, mret = None, mon_paused = True, pool_freed = False\<rparr>"

lemma mon_joining_run: "mon_run True mon_joining mon_fresh = Some mon_waiting"
  by (simp add: mon_joining_def mon_waiting_def mon_run_eval)

theorem monitor_join_terminates_witness:
  "mpc mon_waiting = MD_Join \<and> \<not> mon_owner_ready mon_waiting \<and>
   (\<exists>s'. mt_run [Key_R, Key_P, Key_Q, Key_R, Key_P, Key_Other] 0 mon_waiting = Some s' \<and> mts s' ! 0 = MT_Done \<and>
      mon_owner_ready s')"
  using monitor_join_terminates [OF mon_run_fresh [OF mon_joining_run], of "[Key_R, Key_P, Key_Q, Key_R, Key_P, Key_Other]"]
  by (simp add: mon_waiting_def mon_owner_ready_def)

section \<open>A second start\<close>

text \<open>
  After a key has quit the first thread, which still sleeps, \<^verbatim>\<open>monitor_start\<close> stores a second id over the
  first. Destroy joins the second thread only.
\<close>

definition mon_restart :: "mon_act list" where
  "mon_restart = [Call MS_Load, By_Owner True, By_Owner True, By_Owner True, By_Owner True, By_Thread 0 Key_Other,
     By_Thread 0 Key_Other, By_Thread 0 Key_Other, By_Thread 0 Key_Q, Call MS_Load, By_Owner True, By_Owner True,
     By_Owner True, By_Owner True, Call MX_Load, By_Owner True, By_Owner True, By_Owner True, By_Thread 1 Key_Other,
     By_Thread 1 Key_Other, By_Thread 1 Key_Other, Free_Pool, By_Thread 0 Key_Other]"

definition mon_dangling :: mon_sys where
  "mon_dangling = \<lparr>mon = \<lparr>mon_tid = 1, tid_valid = False, running = False, ever_init = True\<rparr>, mts = [MT_Test, MT_Done],
     joined = [1], mpc = MO_Idle, mret = None, mon_paused = False, pool_freed = True\<rparr>"

lemma mon_restart_run: "mon_run False mon_restart mon_fresh = Some mon_dangling"
  by (simp add: mon_restart_def mon_dangling_def mon_run_eval)

text \<open>
  C28: the documented restriction of \<^verbatim>\<open>monitor_start\<close> to one call is necessary, although the function itself
  refuses only while \<^verbatim>\<open>running\<close> is set: after the key \<^verbatim>\<open>q\<close> a second call overwrites the id of a thread
  nobody has joined, and that thread then reads \<^verbatim>\<open>running\<close> in the freed pool.
\<close>

theorem monitor_restart_unsafe:
  "\<exists>s. reachable mon_start_state (mon_step False) s \<and> pool_freed s \<and> mt_ready s 0 \<and> (\<forall>k. monitor_thread k 0 s = None)"
proof (intro exI conjI)
  show "reachable mon_start_state (mon_step False) mon_dangling" by (rule mon_run_fresh [OF mon_restart_run])
qed (simp_all add: mon_dangling_def mt_ready_def monitor_thread_def uses_pool_def)

end
