(* ===== verification/Lock_Client.thy ===== *)
theory Lock_Client
  imports Pool_Prelude
begin

text \<open>
  What the critical section of the two lock programs under \<^verbatim>\<open>proof/\<close> relies on. Both read a shared counter
  into a local variable and store the incremented copy: two accesses, so that an update is lost unless the
  lock excludes all other threads in between.
\<close>

text \<open>
  \<open>copy s i\<close> is the local copy thread \<open>i\<close> holds between its read and its write, \<open>cnt\<close> the shared counter and
  \<open>incs\<close> the number of writes done so far. The lock promises \<open>excl\<close>; the program is made of the steps of
  \<open>body\<close>.
\<close>

locale counted_section =
  fixes ok :: "'s \<Rightarrow> bool"
    and step :: "'s \<Rightarrow> 's \<Rightarrow> bool"
    and copy :: "'s \<Rightarrow> nat \<Rightarrow> int option"
    and cnt incs :: "'s \<Rightarrow> int"
  assumes excl: "ok s \<Longrightarrow> copy s i = Some v \<Longrightarrow> copy s j = Some w \<Longrightarrow> i = j"
    and body: "ok s \<Longrightarrow> step s t \<Longrightarrow>
      (cnt t = cnt s \<and> incs t = incs s \<and> (\<forall>i. copy t i = copy s i \<or> copy t i = Some (cnt s))) \<or>
      (\<exists>i v. copy s i = Some v \<and> cnt t = v + 1 \<and> incs t = incs s + 1 \<and> copy t i = None \<and>
         (\<forall>j. j \<noteq> i \<longrightarrow> copy t j = copy s j))"
    and closed: "ok s \<Longrightarrow> step s t \<Longrightarrow> ok t"
begin

definition exact :: "'s \<Rightarrow> bool" where
  "exact s \<longleftrightarrow> cnt s = incs s \<and> (\<forall>i v. copy s i = Some v \<longrightarrow> v = cnt s)"

lemma exact_step:
  assumes "ok s" and "exact s" and "step s t"
  shows "exact t"
  using body [OF assms(1,3)]
proof (elim disjE conjE exE)
  assume "cnt t = cnt s" "incs t = incs s" and c: "\<forall>i. copy t i = copy s i \<or> copy t i = Some (cnt s)"
  moreover have "v = cnt s" if v: "copy t i = Some v" for i v
    using c [rule_format, of i] v assms(2) by (auto simp: exact_def)
  ultimately show ?thesis using assms(2) by (simp add: exact_def)
next
  fix i v assume i: "copy s i = Some v" "cnt t = v + 1" "incs t = incs s + 1" "copy t i = None"
    and rest: "\<forall>j. j \<noteq> i \<longrightarrow> copy t j = copy s j"
  have "copy t j = None" for j
  proof (cases "j = i")
    case False
    then have "copy t j = copy s j" using rest by simp
    moreover have "copy s j = None" using excl [OF assms(1) i(1), of j] False by (cases "copy s j") auto
    ultimately show ?thesis by simp
  qed (simp add: i(4))
  moreover have "v = cnt s" using i(1) assms(2) unfolding exact_def by blast
  ultimately show ?thesis using i assms(2) by (simp add: exact_def)
qed

lemma exact_reachable:
  assumes "reachable init step s" and "\<And>s. init s \<Longrightarrow> ok s \<and> exact s"
  shows "ok s \<and> exact s"
  using assms(1) by (induction) (use assms(2) exact_step closed in blast)+

end

text \<open>
  Both programs stop after \<open>iter\<close> increments: a thread that has written decides (\<open>deciding\<close>) whether to set
  the flag \<open>halted\<close>, and a thread that finds the flag set at the end of its round ends. \<open>left\<close> is the number
  of threads, of \<open>n\<close>, that are in a round before their write, or not created. A step is a move that keeps the
  counter, a write, or the store of the flag.
\<close>

locale bounded_section = counted_section ok step copy cnt incs
  for ok :: "'s \<Rightarrow> bool" and step :: "'s \<Rightarrow> 's \<Rightarrow> bool" and copy :: "'s \<Rightarrow> nat \<Rightarrow> int option" and cnt incs :: "'s \<Rightarrow> int" +
  fixes iter :: int
    and n :: nat
    and halted deciding :: "'s \<Rightarrow> bool"
    and left :: "'s \<Rightarrow> nat"
  assumes moves: "ok s \<Longrightarrow> exact s \<Longrightarrow> step s t \<Longrightarrow>
      (cnt t = cnt s \<and> halted t = halted s \<and> (halted s \<longrightarrow> left t \<le> left s) \<and> (deciding s \<longrightarrow> deciding t \<or> cnt s \<le> iter)) \<or>
      (cnt t = cnt s + 1 \<and> halted t = halted s \<and> left t < left s \<and> deciding t \<and> \<not> deciding s) \<or>
      (cnt t = cnt s \<and> halted t \<and> iter < cnt s \<and> left t < n \<and> left t \<le> left s)"
begin

definition limited :: "'s \<Rightarrow> bool" where
  "limited s \<longleftrightarrow>
     (if halted s then iter < cnt s \<and> cnt s + int (left s) \<le> iter + int n
      else cnt s \<le> iter \<or> cnt s = iter + 1 \<and> deciding s)"

lemma limited_step:
  assumes "ok s" and "exact s" and "limited s" and "step s t"
  shows "limited t"
  using moves [OF assms(1,2,4)] assms(3) by (cases "halted s") (auto simp: limited_def)

lemma limited_reachable:
  assumes "reachable init step s" and "\<And>s. init s \<Longrightarrow> ok s \<and> exact s \<and> limited s"
  shows "ok s \<and> exact s \<and> limited s"
  using assms(1) by (induction) (use assms(2) exact_step limited_step closed in blast)+

lemma limited_le: "limited s \<Longrightarrow> 0 < n \<Longrightarrow> cnt s \<le> iter + int n"
  by (auto simp: limited_def split: if_splits)

end

text \<open>Runs under a schedule: a thread by its number, or the main thread.\<close>

fun sched :: "(nat option \<Rightarrow> 's \<Rightarrow> 's option) \<Rightarrow> nat option list \<Rightarrow> 's \<Rightarrow> 's option" where
  "sched f [] s = Some s"
| "sched f (a # as) s = (case f a s of None \<Rightarrow> None | Some t \<Rightarrow> sched f as t)"

lemma sched_append: "sched f (as @ bs) s = (case sched f as s of None \<Rightarrow> None | Some t \<Rightarrow> sched f bs t)"
  by (induction as arbitrary: s) (auto split: option.split)

lemma sched_reachable:
  assumes "sched f as s = Some t" and "reachable init step s" and "\<And>a s t. f a s = Some t \<Longrightarrow> step s t"
  shows "reachable init step t"
  using assms(1,2)
proof (induction as arbitrary: s)
  case (Cons a as)
  then obtain u where u: "f a s = Some u" "sched f as u = Some t" by (auto split: option.splits)
  from reachable.advance [OF Cons.prems(2) assms(3) [OF u(1)]] show ?case by (rule Cons.IH [OF u(2)])
qed simp

end
