(* ===== verification/Filter_Lock.thy ===== *)
theory Filter_Lock
  imports Lock_Client
begin

text \<open>
  The filter lock of \<^verbatim>\<open>proof/filter-lock/filter_lock.c\<close>: eight threads and the main thread, one access to a
  shared variable per step, under sequentially consistent memory. The scan \<^verbatim>\<open>check_k\<close> is not atomic: it
  reads one level per step.
\<close>

section \<open>The program\<close>

definition fl_N_THREAD :: nat where "fl_N_THREAD = 8"

definition fl_ITER :: int where "fl_ITER = 100"

text \<open>
  The thread: \<open>FL_Level i\<close> and \<open>FL_Victim i\<close> the two stores of round \<open>i\<close>, \<open>FL_Check i k\<close> the scan at \<open>k\<close>,
  \<open>FL_Test i\<close> the test of the victim after a scan that returned 1, then the critical section with the
  local copy of the counter, the unlocking and the loop condition.
\<close>

datatype fl_pc =
    FL_Level nat | FL_Victim nat | FL_Check nat nat | FL_Test nat
  | FL_Read | FL_Write int | FL_Limit | FL_Stop | FL_Unlock
  | FL_Again | FL_Exit

datatype fl_main = FM_Id nat | FM_Create nat | FM_Join nat | FM_Exit

text \<open>The threads created so far are the entries of \<open>fl_pcs\<close>; \<open>fl_incs\<close> counts the writes of \<^verbatim>\<open>count\<close>.\<close>

record filter_sys =
  level :: "nat list"
  victim :: "nat list"
  t_id :: "nat list"
  fl_count :: int
  fl_shutdown :: bool
  fl_pcs :: "fl_pc list"
  fl_main :: fl_main
  fl_incs :: int

definition fl_go :: "nat \<Rightarrow> fl_pc \<Rightarrow> filter_sys \<Rightarrow> filter_sys" where
  "fl_go me pc s = s\<lparr>fl_pcs := (fl_pcs s)[me := pc]\<rparr>"

text \<open>After the wait of round \<open>i\<close>: the next round or the critical section.\<close>

definition fl_next :: "nat \<Rightarrow> fl_pc" where
  "fl_next i = (if Suc i < fl_N_THREAD then FL_Level (Suc i) else FL_Read)"

text \<open>One step of the scan: on to the next \<open>k\<close>, or the result 0 or 1.\<close>

definition check_k :: "nat \<Rightarrow> nat \<Rightarrow> nat \<Rightarrow> filter_sys \<Rightarrow> fl_pc" where
  "check_k me i k s =
     (if fl_N_THREAD \<le> k then fl_next i
      else if k = me then FL_Check i (Suc k)
      else if i \<le> level s ! (t_id s ! k) then FL_Test i
      else FL_Check i (Suc k))"

definition routine :: "nat \<Rightarrow> filter_sys \<Rightarrow> filter_sys" where
  "routine me s =
     (case fl_pcs s ! me of
        FL_Level i \<Rightarrow> fl_go me (FL_Victim i) (s\<lparr>level := (level s)[me := i]\<rparr>)
      | FL_Victim i \<Rightarrow> fl_go me (FL_Check i 0) (s\<lparr>victim := (victim s)[i := me]\<rparr>)
      | FL_Check i k \<Rightarrow> fl_go me (check_k me i k s) s
      | FL_Test i \<Rightarrow> fl_go me (if victim s ! i = me then FL_Check i 0 else fl_next i) s
      | FL_Read \<Rightarrow> fl_go me (FL_Write (fl_count s)) s
      | FL_Write temp \<Rightarrow> fl_go me FL_Limit (s\<lparr>fl_count := temp + 1, fl_incs := fl_incs s + 1\<rparr>)
      | FL_Limit \<Rightarrow> fl_go me (if fl_count s > fl_ITER then FL_Stop else FL_Unlock) s
      | FL_Stop \<Rightarrow> fl_go me FL_Unlock (s\<lparr>fl_shutdown := True\<rparr>)
      | FL_Unlock \<Rightarrow> fl_go me FL_Again (s\<lparr>level := (level s)[me := 0]\<rparr>)
      | FL_Again \<Rightarrow> fl_go me (if \<not> fl_shutdown s then FL_Level 1 else FL_Exit) s
      | FL_Exit \<Rightarrow> s)"

text \<open>\<^verbatim>\<open>main\<close>: it stores an id and creates the thread, for each thread in turn, then joins them.\<close>

definition filter_main :: "filter_sys \<Rightarrow> filter_sys" where
  "filter_main s =
     (case fl_main s of
        FM_Id i \<Rightarrow>
          (if i < fl_N_THREAD then s\<lparr>t_id := (t_id s)[i := i], fl_main := FM_Create i\<rparr> else s\<lparr>fl_main := FM_Join 0\<rparr>)
      | FM_Create i \<Rightarrow> s\<lparr>fl_pcs := fl_pcs s @ [FL_Level 1], fl_main := FM_Id (Suc i)\<rparr>
      | FM_Join i \<Rightarrow> s\<lparr>fl_main := if i < fl_N_THREAD then FM_Join (Suc i) else FM_Exit\<rparr>
      | FM_Exit \<Rightarrow> s)"

definition filter_main_ready :: "filter_sys \<Rightarrow> bool" where
  "filter_main_ready s \<longleftrightarrow>
     (case fl_main s of FM_Join i \<Rightarrow> i < fl_N_THREAD \<longrightarrow> fl_pcs s ! i = FL_Exit | FM_Exit \<Rightarrow> False | _ \<Rightarrow> True)"

inductive filter_step :: "filter_sys \<Rightarrow> filter_sys \<Rightarrow> bool" where
  thread: "me < length (fl_pcs s) \<Longrightarrow> fl_pcs s ! me \<noteq> FL_Exit \<Longrightarrow> filter_step s (routine me s)"
| main: "filter_main_ready s \<Longrightarrow> filter_step s (filter_main s)"

text \<open>The globals are zero, and \<^verbatim>\<open>main\<close> has cleared the levels.\<close>

definition filter_start :: "filter_sys \<Rightarrow> bool" where
  "filter_start s \<longleftrightarrow> level s = replicate fl_N_THREAD 0 \<and> victim s = replicate fl_N_THREAD 0 \<and>
     t_id s = replicate fl_N_THREAD 0 \<and> fl_count s = 0 \<and> \<not> fl_shutdown s \<and> fl_pcs s = [] \<and> fl_main s = FM_Id 0 \<and>
     fl_incs s = 0"

section \<open>The invariant\<close>

text \<open>The critical section, and the rounds a thread has entered (its victim store is done) or passed.\<close>

fun fl_crit :: "fl_pc \<Rightarrow> bool" where
  "fl_crit FL_Read \<longleftrightarrow> True"
| "fl_crit (FL_Write _) \<longleftrightarrow> True"
| "fl_crit FL_Limit \<longleftrightarrow> True"
| "fl_crit FL_Stop \<longleftrightarrow> True"
| "fl_crit FL_Unlock \<longleftrightarrow> True"
| "fl_crit _ \<longleftrightarrow> False"

fun fl_entered :: "fl_pc \<Rightarrow> nat \<Rightarrow> bool" where
  "fl_entered (FL_Level i) l \<longleftrightarrow> l < i"
| "fl_entered (FL_Victim i) l \<longleftrightarrow> l < i"
| "fl_entered (FL_Check i _) l \<longleftrightarrow> l \<le> i"
| "fl_entered (FL_Test i) l \<longleftrightarrow> l \<le> i"
| "fl_entered pc l \<longleftrightarrow> fl_crit pc"

fun fl_passed :: "fl_pc \<Rightarrow> nat \<Rightarrow> bool" where
  "fl_passed (FL_Level i) l \<longleftrightarrow> l < i"
| "fl_passed (FL_Victim i) l \<longleftrightarrow> l < i"
| "fl_passed (FL_Check i _) l \<longleftrightarrow> l < i"
| "fl_passed (FL_Test i) l \<longleftrightarrow> l < i"
| "fl_passed pc l \<longleftrightarrow> fl_crit pc"

text \<open>At round \<open>l\<close> the thread has gone past \<open>k\<close>: by the wait of the round or by its current scan.\<close>

fun fl_cleared :: "fl_pc \<Rightarrow> nat \<Rightarrow> nat \<Rightarrow> bool" where
  "fl_cleared (FL_Check i p) l k \<longleftrightarrow> l < i \<or> l = i \<and> k < p"
| "fl_cleared pc l k \<longleftrightarrow> fl_passed pc l"

fun fl_level_of :: "fl_pc \<Rightarrow> nat" where
  "fl_level_of (FL_Level i) = i - 1"
| "fl_level_of (FL_Victim i) = i"
| "fl_level_of (FL_Check i _) = i"
| "fl_level_of (FL_Test i) = i"
| "fl_level_of FL_Again = 0"
| "fl_level_of FL_Exit = 0"
| "fl_level_of _ = fl_N_THREAD - 1"

fun fl_wf :: "fl_pc \<Rightarrow> bool" where
  "fl_wf (FL_Level i) \<longleftrightarrow> 1 \<le> i \<and> i < fl_N_THREAD"
| "fl_wf (FL_Victim i) \<longleftrightarrow> 1 \<le> i \<and> i < fl_N_THREAD"
| "fl_wf (FL_Check i k) \<longleftrightarrow> 1 \<le> i \<and> i < fl_N_THREAD \<and> k \<le> fl_N_THREAD"
| "fl_wf (FL_Test i) \<longleftrightarrow> 1 \<le> i \<and> i < fl_N_THREAD"
| "fl_wf _ \<longleftrightarrow> True"

fun fm_created :: "fl_main \<Rightarrow> nat" where
  "fm_created (FM_Id i) = i"
| "fm_created (FM_Create i) = i"
| "fm_created _ = fl_N_THREAD"

fun fm_named :: "fl_main \<Rightarrow> nat" where
  "fm_named (FM_Create i) = Suc i"
| "fm_named pc = fm_created pc"

fun fm_wf :: "fl_main \<Rightarrow> bool" where
  "fm_wf (FM_Id i) \<longleftrightarrow> i \<le> fl_N_THREAD"
| "fm_wf (FM_Create i) \<longleftrightarrow> i < fl_N_THREAD"
| "fm_wf (FM_Join i) \<longleftrightarrow> i \<le> fl_N_THREAD"
| "fm_wf FM_Exit \<longleftrightarrow> True"

definition fl_shape :: "filter_sys \<Rightarrow> bool" where
  "fl_shape s \<longleftrightarrow> length (level s) = fl_N_THREAD \<and> length (victim s) = fl_N_THREAD \<and> length (t_id s) = fl_N_THREAD \<and>
     fm_wf (fl_main s) \<and> length (fl_pcs s) = fm_created (fl_main s) \<and>
     (\<forall>k < fm_named (fl_main s). t_id s ! k = k)"

definition fl_local :: "filter_sys \<Rightarrow> bool" where
  "fl_local s \<longleftrightarrow> (\<forall>k < length (fl_pcs s). fl_wf (fl_pcs s ! k) \<and> level s ! k = fl_level_of (fl_pcs s ! k)) \<and>
     (\<forall>k < fl_N_THREAD. length (fl_pcs s) \<le> k \<longrightarrow> level s ! k = 0)"

text \<open>A thread that went past \<open>k\<close> at a round is not its victim any more, unless \<open>k\<close> has not entered it.\<close>

definition fl_order :: "filter_sys \<Rightarrow> bool" where
  "fl_order s \<longleftrightarrow> (\<forall>i < length (fl_pcs s). \<forall>k < length (fl_pcs s). \<forall>l.
     i \<noteq> k \<and> 1 \<le> l \<and> l < fl_N_THREAD \<and> fl_cleared (fl_pcs s ! i) l k \<and> fl_entered (fl_pcs s ! k) l \<longrightarrow> victim s ! l \<noteq> i)"

text \<open>The victim of a round somebody has entered has entered it itself.\<close>

definition fl_victims :: "filter_sys \<Rightarrow> bool" where
  "fl_victims s \<longleftrightarrow> (\<forall>l k. 1 \<le> l \<and> l < fl_N_THREAD \<and> k < length (fl_pcs s) \<and> fl_entered (fl_pcs s ! k) l \<longrightarrow>
     victim s ! l < length (fl_pcs s) \<and> fl_entered (fl_pcs s ! (victim s ! l)) l)"

definition fl_inv :: "filter_sys \<Rightarrow> bool" where
  "fl_inv s \<longleftrightarrow> fl_shape s \<and> fl_local s \<and> fl_order s \<and> fl_victims s"

lemma fl_victimsD:
  "fl_inv s \<Longrightarrow> 1 \<le> l \<Longrightarrow> l < fl_N_THREAD \<Longrightarrow> k < length (fl_pcs s) \<Longrightarrow> fl_entered (fl_pcs s ! k) l \<Longrightarrow>
     victim s ! l < length (fl_pcs s) \<and> fl_entered (fl_pcs s ! (victim s ! l)) l"
  unfolding fl_inv_def fl_victims_def by blast

lemma fl_orderD:
  "fl_inv s \<Longrightarrow> i < length (fl_pcs s) \<Longrightarrow> k < length (fl_pcs s) \<Longrightarrow> i \<noteq> k \<Longrightarrow> 1 \<le> l \<Longrightarrow> l < fl_N_THREAD \<Longrightarrow>
     fl_cleared (fl_pcs s ! i) l k \<Longrightarrow> fl_entered (fl_pcs s ! k) l \<Longrightarrow> victim s ! l \<noteq> i"
  unfolding fl_inv_def fl_order_def by blast

lemma fl_localD:
  "fl_inv s \<Longrightarrow> k < length (fl_pcs s) \<Longrightarrow> fl_wf (fl_pcs s ! k) \<and> level s ! k = fl_level_of (fl_pcs s ! k)"
  by (simp add: fl_inv_def fl_local_def)

lemma fl_uncreated:
  "fl_inv s \<Longrightarrow> k < fl_N_THREAD \<Longrightarrow> length (fl_pcs s) \<le> k \<Longrightarrow> level s ! k = 0"
  by (simp add: fl_inv_def fl_local_def)

lemma fl_shapeD:
  assumes "fl_inv s"
  shows "length (level s) = fl_N_THREAD" "length (victim s) = fl_N_THREAD" "length (t_id s) = fl_N_THREAD"
    "fm_wf (fl_main s)" "length (fl_pcs s) = fm_created (fl_main s)" "length (fl_pcs s) \<le> fl_N_THREAD"
    "k < fm_named (fl_main s) \<Longrightarrow> t_id s ! k = k" "length (fl_pcs s) \<le> fm_named (fl_main s)"
  using assms by (cases "fl_main s"; simp add: fl_inv_def fl_shape_def)+

section \<open>Mutual exclusion from the invariant\<close>

lemma fl_passed_entered: "fl_passed pc l \<Longrightarrow> fl_entered pc l"
  by (cases pc) auto

lemma fl_passed_cleared: "fl_passed pc l \<Longrightarrow> fl_cleared pc l k"
  by (cases pc) auto

lemma fl_entered_Suc: "fl_entered pc (Suc l) \<Longrightarrow> fl_passed pc l"
  by (cases pc) auto

lemma fl_crit_passed: "fl_crit pc \<Longrightarrow> fl_passed pc l"
  by (cases pc) auto

definition fl_in :: "filter_sys \<Rightarrow> nat \<Rightarrow> nat set" where
  "fl_in s l = {k. k < length (fl_pcs s) \<and> fl_entered (fl_pcs s ! k) l}"

definition fl_past :: "filter_sys \<Rightarrow> nat \<Rightarrow> nat set" where
  "fl_past s l = {k. k < length (fl_pcs s) \<and> fl_passed (fl_pcs s ! k) l}"

lemma fl_sets: "finite (fl_in s l)" "fl_past s l \<subseteq> fl_in s l" "fl_in s (Suc l) \<subseteq> fl_past s l"
  by (auto simp: fl_in_def fl_past_def fl_passed_entered fl_entered_Suc)

text \<open>The victim of a round with two threads stays behind.\<close>

lemma fl_one_stays:
  assumes inv: "fl_inv s" and l: "1 \<le> l" "l < fl_N_THREAD" and two: "1 < card (fl_in s l)"
  shows "card (fl_past s l) < card (fl_in s l)"
proof -
  let ?v = "victim s ! l"
  obtain a where "a \<in> fl_in s l" using two by (cases "fl_in s l = {}") auto
  then have v: "?v \<in> fl_in s l" using inv l by (auto simp: fl_inv_def fl_victims_def fl_in_def)
  have "\<not> fl_in s l \<subseteq> {?v}" using two card_mono [of "{?v}" "fl_in s l"] by auto
  then obtain b where b: "b \<in> fl_in s l" "b \<noteq> ?v" by blast
  have "?v \<notin> fl_past s l"
  proof
    assume "?v \<in> fl_past s l"
    then have "?v < length (fl_pcs s)" "fl_cleared (fl_pcs s ! ?v) l b" by (auto simp: fl_past_def fl_passed_cleared)
    then show False using inv l b by (auto simp: fl_inv_def fl_order_def fl_in_def)
  qed
  then have "fl_past s l \<subset> fl_in s l" using v fl_sets(2) by blast
  then show ?thesis using fl_sets(1) psubset_card_mono by blast
qed

lemma fl_past_bound:
  assumes inv: "fl_inv s" and l: "1 \<le> l" "l < fl_N_THREAD"
  shows "card (fl_past s l) \<le> fl_N_THREAD - l"
proof -
  have round: "card (fl_past s l) \<le> fl_N_THREAD - l" if "1 \<le> l" "l < fl_N_THREAD" "card (fl_in s l) \<le> fl_N_THREAD - l + 1" for l
  proof (cases "1 < card (fl_in s l)")
    case True
    then show ?thesis using fl_one_stays [OF inv that(1,2)] that(3) by simp
  next
    case False
    then show ?thesis using card_mono [OF fl_sets(1,2), of s l] that(2) by linarith
  qed
  show ?thesis using l
  proof (induction l rule: dec_induct)
    case base
    have "fl_in s 1 \<subseteq> {..< length (fl_pcs s)}" by (auto simp: fl_in_def)
    then have "card (fl_in s 1) \<le> length (fl_pcs s)" using card_mono [of "{..< length (fl_pcs s)}"] by simp
    also have "\<dots> \<le> fl_N_THREAD" by (rule fl_shapeD(6) [OF inv])
    finally show ?case using round [of 1] base by simp
  next
    case (step l)
    have "card (fl_in s (Suc l)) \<le> card (fl_past s l)"
      by (rule card_mono [OF finite_subset [OF fl_sets(2,1)] fl_sets(3)])
    then show ?case using step.IH step.prems step.hyps round [of "Suc l"] by simp
  qed
qed

lemma fl_mutex:
  assumes inv: "fl_inv s" and "i < length (fl_pcs s)" "fl_crit (fl_pcs s ! i)" "j < length (fl_pcs s)" "fl_crit (fl_pcs s ! j)"
  shows "i = j"
proof -
  have "card (fl_past s (fl_N_THREAD - 1)) \<le> 1" using fl_past_bound [OF inv, of "fl_N_THREAD - 1"] by (simp add: fl_N_THREAD_def)
  moreover have "i \<in> fl_past s (fl_N_THREAD - 1)" "j \<in> fl_past s (fl_N_THREAD - 1)"
    using assms by (auto simp: fl_past_def fl_crit_passed)
  moreover have "finite (fl_past s (fl_N_THREAD - 1))" by (rule finite_subset [OF fl_sets(2,1)])
  ultimately show ?thesis using card_le_Suc0_iff_eq [of "fl_past s (fl_N_THREAD - 1)"] by simp
qed

section \<open>Preservation\<close>

text \<open>A move that enters and leaves no round.\<close>

lemma fl_inv_move:
  assumes inv: "fl_inv s" and me: "me < length (fl_pcs s)"
    and s': "fl_pcs s' = (fl_pcs s)[me := pc]" "victim s' = victim s" "t_id s' = t_id s" "fl_main s' = fl_main s"
      "level s' = (level s)[me := fl_level_of pc]"
    and wf: "fl_wf pc"
    and same: "\<And>l. 1 \<le> l \<Longrightarrow> l < fl_N_THREAD \<Longrightarrow> fl_entered pc l = fl_entered (fl_pcs s ! me) l"
    and clear: "\<And>l k. 1 \<le> l \<Longrightarrow> l < fl_N_THREAD \<Longrightarrow> k < length (fl_pcs s) \<Longrightarrow> k \<noteq> me \<Longrightarrow> fl_cleared pc l k \<Longrightarrow>
      fl_cleared (fl_pcs s ! me) l k \<or> \<not> fl_entered (fl_pcs s ! k) l \<or> victim s ! l \<noteq> me"
  shows "fl_inv s'"
proof -
  have ent: "fl_entered (fl_pcs s' ! k) l = fl_entered (fl_pcs s ! k) l" if "1 \<le> l" "l < fl_N_THREAD" for k l
    using same that me by (cases "k = me") (simp_all add: s')
  have "fl_shape s'" using inv by (simp add: fl_inv_def fl_shape_def s')
  moreover have "me < length (level s)" using me fl_shapeD(1,6) [OF inv] by simp
  then have "fl_local s'" using inv wf me by (simp add: fl_inv_def fl_local_def s' nth_list_update)
  moreover have "fl_victims s'"
    unfolding fl_victims_def
  proof (intro allI impI, elim conjE)
    fix l k assume lk: "1 \<le> l" "l < fl_N_THREAD" "k < length (fl_pcs s')" "fl_entered (fl_pcs s' ! k) l"
    have "fl_entered (fl_pcs s ! k) l" using lk ent by simp
    then have "victim s ! l < length (fl_pcs s) \<and> fl_entered (fl_pcs s ! (victim s ! l)) l"
      using fl_victimsD [OF inv] lk by (simp add: s'(1))
    then show "victim s' ! l < length (fl_pcs s') \<and> fl_entered (fl_pcs s' ! (victim s' ! l)) l"
      using ent [OF lk(1,2)] by (simp add: s'(1,2))
  qed
  moreover have "fl_order s'"
    unfolding fl_order_def
  proof (intro allI impI, elim conjE)
    fix i k l assume ik: "i < length (fl_pcs s')" "k < length (fl_pcs s')" "i \<noteq> k" "1 \<le> l" "l < fl_N_THREAD"
      "fl_cleared (fl_pcs s' ! i) l k" "fl_entered (fl_pcs s' ! k) l"
    have "fl_entered (fl_pcs s ! k) l" using ik ent by simp
    moreover have "fl_cleared (fl_pcs s ! i) l k \<or> victim s ! l \<noteq> i"
      using ik clear [of l k] calculation by (cases "i = me") (auto simp: s')
    ultimately show "victim s' ! l \<noteq> i" using inv ik by (auto simp: fl_inv_def fl_order_def s')
  qed
  ultimately show ?thesis by (simp add: fl_inv_def)
qed

text \<open>The store of the victim enters the round: everybody else who entered it is released from its wait.\<close>

lemma fl_inv_victim:
  assumes inv: "fl_inv s" and me: "me < length (fl_pcs s)" and pc: "fl_pcs s ! me = FL_Victim i"
  shows "fl_inv (fl_go me (FL_Check i 0) (s\<lparr>victim := (victim s)[i := me]\<rparr>))"
proof -
  let ?s = "fl_go me (FL_Check i 0) (s\<lparr>victim := (victim s)[i := me]\<rparr>)"
  have i: "1 \<le> i" "i < fl_N_THREAD" "level s ! me = i" using fl_localD [OF inv me] pc by auto
  have vi: "victim ?s ! l = (if l = i then me else victim s ! l)" for l
    using i(2) fl_shapeD(2) [OF inv] by (simp add: fl_go_def nth_list_update)
  have pcs: "fl_pcs ?s ! k = (if k = me then FL_Check i 0 else fl_pcs s ! k)" if "k < length (fl_pcs s)" for k
    using that by (simp add: fl_go_def nth_list_update)
  have len: "length (fl_pcs ?s) = length (fl_pcs s)" by (simp add: fl_go_def)
  have "fl_shape ?s" using inv by (simp add: fl_inv_def fl_shape_def fl_go_def)
  moreover have "fl_local ?s"
    unfolding fl_local_def len using fl_localD [OF inv] fl_uncreated [OF inv] i by (simp add: pcs) (simp add: fl_go_def)
  moreover have "fl_victims ?s"
    unfolding fl_victims_def len
  proof (intro allI impI, elim conjE)
    fix l k assume lk: "1 \<le> l" "l < fl_N_THREAD" "k < length (fl_pcs s)" "fl_entered (fl_pcs ?s ! k) l"
    show "victim ?s ! l < length (fl_pcs s) \<and> fl_entered (fl_pcs ?s ! (victim ?s ! l)) l"
    proof (cases "l = i")
      case True
      then show ?thesis using me by (simp add: vi pcs)
    next
      case False
      then have "fl_entered (fl_pcs s ! k) l" using lk pc by (cases "k = me") (auto simp: pcs)
      from fl_victimsD [OF inv lk(1,2,3) this] show ?thesis
        using False pc me by (cases "victim s ! l = me") (auto simp: vi pcs)
    qed
  qed
  moreover have "fl_order ?s"
    unfolding fl_order_def len
  proof (intro allI impI, elim conjE)
    fix a k l assume ak: "a < length (fl_pcs s)" "k < length (fl_pcs s)" "a \<noteq> k" "1 \<le> l" "l < fl_N_THREAD"
      "fl_cleared (fl_pcs ?s ! a) l k" "fl_entered (fl_pcs ?s ! k) l"
    show "victim ?s ! l \<noteq> a"
    proof (cases "l = i")
      case True
      then show ?thesis using ak by (auto simp: vi pcs)
    next
      case False
      then have "fl_entered (fl_pcs s ! k) l" using ak pc by (cases "k = me") (auto simp: pcs)
      moreover have "fl_cleared (fl_pcs s ! a) l k" using ak False pc by (cases "a = me") (auto simp: pcs)
      ultimately show ?thesis using fl_orderD [OF inv ak(1-5)] False by (simp add: vi)
    qed
  qed
  ultimately show ?thesis by (simp add: fl_inv_def)
qed

text \<open>A thread that unlocks leaves all rounds; where it is the victim nobody else has entered.\<close>

lemma fl_inv_unlock:
  assumes inv: "fl_inv s" and me: "me < length (fl_pcs s)" and pc: "fl_pcs s ! me = FL_Unlock"
  shows "fl_inv (fl_go me FL_Again (s\<lparr>level := (level s)[me := 0]\<rparr>))"
proof -
  let ?s = "fl_go me FL_Again (s\<lparr>level := (level s)[me := 0]\<rparr>)"
  have pcs: "fl_pcs ?s ! k = (if k = me then FL_Again else fl_pcs s ! k)" if "k < length (fl_pcs s)" for k
    using that by (simp add: fl_go_def nth_list_update)
  have len: "length (fl_pcs ?s) = length (fl_pcs s)" by (simp add: fl_go_def)
  have vi: "victim ?s = victim s" by (simp add: fl_go_def)
  have "fl_shape ?s" using inv by (simp add: fl_inv_def fl_shape_def fl_go_def)
  moreover have "fl_local ?s"
    unfolding fl_local_def len using fl_localD [OF inv] fl_uncreated [OF inv] me fl_shapeD(1,6) [OF inv]
    by (simp add: pcs) (simp add: fl_go_def nth_list_update)
  moreover have "fl_victims ?s"
    unfolding fl_victims_def len vi
  proof (intro allI impI, elim conjE)
    fix l k assume lk: "1 \<le> l" "l < fl_N_THREAD" "k < length (fl_pcs s)" "fl_entered (fl_pcs ?s ! k) l"
    then have k: "k \<noteq> me" "fl_entered (fl_pcs s ! k) l" by (auto simp: pcs split: if_splits)
    have "victim s ! l \<noteq> me" using fl_orderD [OF inv me lk(3) k(1) [symmetric] lk(1,2) _ k(2)] pc by simp
    then show "victim s ! l < length (fl_pcs s) \<and> fl_entered (fl_pcs ?s ! (victim s ! l)) l"
      using fl_victimsD [OF inv lk(1,2,3) k(2)] by (simp add: pcs)
  qed
  moreover have "fl_order ?s"
    unfolding fl_order_def len vi
  proof (intro allI impI, elim conjE)
    fix a k l assume ak: "a < length (fl_pcs s)" "k < length (fl_pcs s)" "a \<noteq> k" "1 \<le> l" "l < fl_N_THREAD"
      "fl_cleared (fl_pcs ?s ! a) l k" "fl_entered (fl_pcs ?s ! k) l"
    then show "victim s ! l \<noteq> a" using fl_orderD [OF inv ak(1-5)] by (auto simp: pcs split: if_splits)
  qed
  ultimately show ?thesis by (simp add: fl_inv_def)
qed

lemma fl_behind: "fl_level_of pc < l \<Longrightarrow> l < fl_N_THREAD \<Longrightarrow> fl_wf pc \<Longrightarrow> \<not> fl_entered pc l"
  by (cases pc) auto

lemma fl_next_facts:
  assumes "1 \<le> i" and "i < fl_N_THREAD"
  shows "fl_wf (fl_next i)" "fl_level_of (fl_next i) = i" "l < fl_N_THREAD \<Longrightarrow> fl_entered (fl_next i) l \<longleftrightarrow> l \<le> i"
    "l < fl_N_THREAD \<Longrightarrow> fl_cleared (fl_next i) l k \<longleftrightarrow> l \<le> i"
  using assms by (auto simp: fl_next_def)

text \<open>The scan goes past a thread only when that thread has not entered the round.\<close>

lemma fl_inv_check:
  assumes inv: "fl_inv s" and me: "me < length (fl_pcs s)" and pc: "fl_pcs s ! me = FL_Check i k"
  shows "fl_inv (fl_go me (check_k me i k s) s)"
proof -
  have i: "1 \<le> i" "i < fl_N_THREAD" "k \<le> fl_N_THREAD" "level s ! me = i" using fl_localD [OF inv me] pc by auto
  note nxt = fl_next_facts [OF i(1,2)]
  have lev: "level s = (level s)[me := i]" using i(4) by (metis list_update_id)
  note move = fl_inv_move [OF inv me, of "fl_go me pc' s" pc' for pc']
  consider (finished) "fl_N_THREAD \<le> k" "check_k me i k s = fl_next i"
    | (on) "check_k me i k s = FL_Check i (Suc k)" "k < fl_N_THREAD" "k = me \<or> level s ! (t_id s ! k) < i"
    | (wait) "check_k me i k s = FL_Test i"
    by (cases "fl_N_THREAD \<le> k"; cases "k = me"; cases "i \<le> level s ! (t_id s ! k)") (simp_all add: check_k_def)
  then show ?thesis
  proof cases
    case finished
    then have "fl_cleared (FL_Check i k) l j" if "l \<le> i" "j < length (fl_pcs s)" for l j
      using that fl_shapeD(6) [OF inv] by auto
    then show ?thesis using finished(2) lev
      by (intro fl_inv_move [OF inv me, of _ "fl_next i"]) (simp_all add: fl_go_def nxt pc)
  next
    case on
    have "\<not> fl_entered (fl_pcs s ! k) i" if k: "k < length (fl_pcs s)" "k \<noteq> me"
    proof -
      have "t_id s ! k = k" using fl_shapeD(7,8) [OF inv] k(1) by simp
      then show ?thesis using fl_behind [of "fl_pcs s ! k" i] fl_localD [OF inv k(1)] on(3) k(2) i(2) by simp
    qed
    then show ?thesis using on(1,2) lev i
      by (intro fl_inv_move [OF inv me, of _ "FL_Check i (Suc k)"]) (auto simp: fl_go_def pc less_Suc_eq)
  next
    case wait
    then show ?thesis using lev i
      by (intro fl_inv_move [OF inv me, of _ "FL_Test i"]) (auto simp: fl_go_def pc)
  qed
qed

lemma routine_inv:
  assumes inv: "fl_inv s" and me: "me < length (fl_pcs s)"
  shows "fl_inv (routine me s)"
proof -
  have wf: "fl_wf (fl_pcs s ! me)" and lev: "level s ! me = fl_level_of (fl_pcs s ! me)" using fl_localD [OF inv me] by auto
  have keep: "level s = (level s)[me := fl_level_of pc]" if "fl_level_of pc = fl_level_of (fl_pcs s ! me)" for pc
    using lev that by (metis list_update_id)
  note move = fl_inv_move [OF inv me]
  show ?thesis
  proof (cases "fl_pcs s ! me")
    case (FL_Level i)
    then show ?thesis using wf by (intro move [of _ "FL_Victim i"]) (auto simp: routine_def fl_go_def)
  next
    case (FL_Victim i)
    then show ?thesis using fl_inv_victim [OF inv me] by (simp add: routine_def)
  next
    case (FL_Check i k)
    then show ?thesis using fl_inv_check [OF inv me] by (simp add: routine_def)
  next
    case (FL_Test i)
    have i: "1 \<le> i" "i < fl_N_THREAD" using wf FL_Test by auto
    show ?thesis
    proof (cases "victim s ! i = me")
      case True
      then show ?thesis using FL_Test i keep [of "FL_Check i 0"]
        by (intro move [of _ "FL_Check i 0"]) (auto simp: routine_def fl_go_def)
    next
      case False
      then show ?thesis using FL_Test i keep [of "fl_next i"]
        by (intro move [of _ "fl_next i"]) (auto simp: routine_def fl_go_def fl_next_facts [OF i])
    qed
  next
    case FL_Read
    then show ?thesis using keep [of "FL_Write (fl_count s)"] by (intro move [of _ "FL_Write (fl_count s)"]) (auto simp: routine_def fl_go_def)
  next
    case (FL_Write v)
    then show ?thesis using keep [of FL_Limit] by (intro move [of _ FL_Limit]) (auto simp: routine_def fl_go_def)
  next
    case FL_Limit
    let ?pc = "if fl_count s > fl_ITER then FL_Stop else FL_Unlock"
    show ?thesis using FL_Limit keep [of ?pc] by (intro move [of _ ?pc]) (auto simp: routine_def fl_go_def)
  next
    case FL_Stop
    then show ?thesis using keep [of FL_Unlock] by (intro move [of _ FL_Unlock]) (auto simp: routine_def fl_go_def)
  next
    case FL_Unlock
    then show ?thesis using fl_inv_unlock [OF inv me] by (simp add: routine_def)
  next
    case FL_Again
    then show ?thesis
      using keep [of "FL_Level 1"] keep [of FL_Exit] move [of "routine me s" "FL_Level 1"] move [of "routine me s" FL_Exit]
      by (cases "fl_shutdown s") (simp_all add: routine_def fl_go_def fl_N_THREAD_def)
  next
    case FL_Exit
    then show ?thesis using inv by (simp add: routine_def)
  qed
qed

lemma filter_main_inv:
  assumes inv: "fl_inv s"
  shows "fl_inv (filter_main s)"
proof -
  have keep: "fl_inv t" if "level t = level s" "victim t = victim s" "fl_pcs t = fl_pcs s" "fl_shape t" for t
    using inv that by (simp add: fl_inv_def fl_local_def fl_order_def fl_victims_def)
  have sh: "fl_shape s" using inv by (simp add: fl_inv_def)
  show ?thesis
  proof (cases "fl_main s")
    case (FM_Id i)
    then show ?thesis using sh by (intro keep) (auto simp: filter_main_def fl_shape_def nth_list_update less_Suc_eq)
  next
    case (FM_Join i)
    then show ?thesis using sh by (intro keep) (auto simp: filter_main_def fl_shape_def)
  next
    case FM_Exit
    then show ?thesis using inv by (simp add: filter_main_def)
  next
    case (FM_Create i)
    let ?s = "filter_main s"
    have i: "i < fl_N_THREAD" "length (fl_pcs s) = i" using sh FM_Create by (auto simp: fl_shape_def)
    have pcs: "fl_pcs ?s = fl_pcs s @ [FL_Level 1]" "victim ?s = victim s" "level ?s = level s"
      using FM_Create by (simp_all add: filter_main_def)
    have new: "k < i \<and> fl_pcs ?s ! k = fl_pcs s ! k \<or> k = i \<and> fl_pcs ?s ! k = FL_Level 1" if "k < Suc i" for k
      using that i by (auto simp: pcs nth_append less_Suc_eq)
    have "fl_shape ?s" using sh FM_Create by (auto simp: filter_main_def fl_shape_def)
    moreover have "fl_local ?s"
      unfolding fl_local_def using new i fl_localD [OF inv] fl_uncreated [OF inv]
      by (fastforce simp: pcs nth_append less_Suc_eq fl_N_THREAD_def)
    moreover have "fl_victims ?s"
      unfolding fl_victims_def
    proof (intro allI impI, elim conjE)
      fix l k assume lk: "1 \<le> l" "l < fl_N_THREAD" "k < length (fl_pcs ?s)" "fl_entered (fl_pcs ?s ! k) l"
      then have "k < i" "fl_entered (fl_pcs s ! k) l" using new [of k] i by (auto simp: pcs)
      then show "victim ?s ! l < length (fl_pcs ?s) \<and> fl_entered (fl_pcs ?s ! (victim ?s ! l)) l"
        using fl_victimsD [OF inv lk(1,2), of k] i by (simp add: pcs nth_append)
    qed
    moreover have "fl_order ?s"
      unfolding fl_order_def
    proof (intro allI impI, elim conjE)
      fix a k l assume ak: "a < length (fl_pcs ?s)" "k < length (fl_pcs ?s)" "a \<noteq> k" "1 \<le> l" "l < fl_N_THREAD"
        "fl_cleared (fl_pcs ?s ! a) l k" "fl_entered (fl_pcs ?s ! k) l"
      then have "k < i" "fl_entered (fl_pcs s ! k) l" "a < i" "fl_cleared (fl_pcs s ! a) l k"
        using new [of k] new [of a] i by (auto simp: pcs)
      then show "victim ?s ! l \<noteq> a" using fl_orderD [OF inv, of a k l] ak i by (simp add: pcs)
    qed
    ultimately show ?thesis by (simp add: fl_inv_def)
  qed
qed

section \<open>The flag and the end\<close>

fun fm_joined :: "fl_main \<Rightarrow> nat" where
  "fm_joined (FM_Join i) = i"
| "fm_joined FM_Exit = fl_N_THREAD"
| "fm_joined _ = 0"

definition fl_ends :: "filter_sys \<Rightarrow> bool" where
  "fl_ends s \<longleftrightarrow> (FL_Stop \<in> set (fl_pcs s) \<longrightarrow> fl_ITER < fl_count s) \<and> (FL_Exit \<in> set (fl_pcs s) \<longrightarrow> fl_shutdown s) \<and>
     (\<forall>k < fm_joined (fl_main s). fl_pcs s ! k = FL_Exit)"

lemma fl_alone:
  assumes inv: "fl_inv s" and me: "me < length (fl_pcs s)" "fl_crit (fl_pcs s ! me)" and pc: "pc \<in> set (fl_pcs s)" "fl_crit pc"
  shows "pc = fl_pcs s ! me"
  using fl_mutex [OF inv me] pc by (metis in_set_conv_nth)

lemma routine_frame: "k \<noteq> me \<Longrightarrow> fl_pcs (routine me s) ! k = fl_pcs s ! k" "fl_main (routine me s) = fl_main s"
  by (cases "fl_pcs s ! me"; simp add: routine_def fl_go_def)+

lemma fl_ends_routine:
  assumes inv: "fl_inv s" and ends: "fl_ends s" and me: "me < length (fl_pcs s)" "fl_pcs s ! me \<noteq> FL_Exit"
  shows "fl_ends (routine me s)"
proof -
  have stop: "FL_Stop \<in> set (fl_pcs s) \<Longrightarrow> fl_ITER < fl_count s" and exit: "FL_Exit \<in> set (fl_pcs s) \<Longrightarrow> fl_shutdown s"
    using ends by (auto simp: fl_ends_def)
  have "k \<noteq> me" if "k < fm_joined (fl_main s)" for k using ends me(2) that by (auto simp: fl_ends_def)
  then have "\<forall>k < fm_joined (fl_main (routine me s)). fl_pcs (routine me s) ! k = FL_Exit"
    using ends by (simp add: fl_ends_def routine_frame)
  moreover have "FL_Stop \<in> set (fl_pcs (routine me s)) \<longrightarrow> fl_ITER < fl_count (routine me s)"
  proof (cases "fl_pcs s ! me")
    case (FL_Write v)
    then have "FL_Stop \<notin> set (fl_pcs s)" using fl_alone [OF inv me(1), of FL_Stop] by auto
    then show ?thesis using FL_Write by (auto simp: routine_def fl_go_def dest!: member_updateD)
  qed (use stop in \<open>auto simp: routine_def fl_go_def check_k_def fl_next_def dest!: member_updateD split: if_splits\<close>)
  moreover have "FL_Exit \<in> set (fl_pcs (routine me s)) \<longrightarrow> fl_shutdown (routine me s)"
    using exit by (cases "fl_pcs s ! me") (auto simp: routine_def fl_go_def check_k_def fl_next_def dest!: member_updateD split: if_splits)
  ultimately show ?thesis by (simp add: fl_ends_def)
qed

lemma fl_ends_main:
  assumes ends: "fl_ends s" and rdy: "filter_main_ready s"
  shows "fl_ends (filter_main s)"
  using ends rdy by (cases "fl_main s") (auto simp: fl_ends_def filter_main_def filter_main_ready_def less_Suc_eq)

definition fl_ok :: "filter_sys \<Rightarrow> bool" where
  "fl_ok s \<longleftrightarrow> fl_inv s \<and> fl_ends s"

interpretation filter_run: inductive_invariant filter_start filter_step fl_ok
proof
  fix s assume "filter_start s"
  then show "fl_ok s"
    by (simp add: filter_start_def fl_ok_def fl_ends_def fl_inv_def fl_shape_def fl_local_def fl_order_def fl_victims_def)
next
  fix s t assume "fl_ok s" "filter_step s t"
  from this(2,1) show "fl_ok t"
    by cases (simp_all add: fl_ok_def routine_inv filter_main_inv fl_ends_routine fl_ends_main)
qed

section \<open>The counter\<close>

definition fl_copy :: "filter_sys \<Rightarrow> nat \<Rightarrow> int option" where
  "fl_copy s i = (if i < length (fl_pcs s) then case fl_pcs s ! i of FL_Write v \<Rightarrow> Some v | _ \<Rightarrow> None else None)"

lemma fl_copy_crit: "fl_copy s i = Some v \<Longrightarrow> i < length (fl_pcs s) \<and> fl_crit (fl_pcs s ! i)"
  by (auto simp: fl_copy_def split: if_splits fl_pc.splits)

lemma fl_copy_routine:
  assumes "me < length (fl_pcs s)"
  shows "(fl_count (routine me s) = fl_count s \<and> fl_incs (routine me s) = fl_incs s \<and>
      (\<forall>i. fl_copy (routine me s) i = fl_copy s i \<or> fl_copy (routine me s) i = Some (fl_count s))) \<or>
    (\<exists>i v. fl_copy s i = Some v \<and> fl_count (routine me s) = v + 1 \<and> fl_incs (routine me s) = fl_incs s + 1 \<and>
      fl_copy (routine me s) i = None \<and> (\<forall>j. j \<noteq> i \<longrightarrow> fl_copy (routine me s) j = fl_copy s j))"
proof (cases "\<exists>v. fl_pcs s ! me = FL_Write v")
  case True
  then obtain v where v: "fl_pcs s ! me = FL_Write v" by blast
  then have "fl_copy s me = Some v" using assms by (simp add: fl_copy_def)
  moreover have "fl_copy (routine me s) j = (if j = me then None else fl_copy s j)" for j
    using v assms by (simp add: fl_copy_def routine_def fl_go_def)
  ultimately show ?thesis using v by (intro disjI2 exI [of _ me] exI [of _ v]) (simp add: routine_def fl_go_def)
next
  case False
  have other: "fl_copy (routine me s) i = fl_copy s i" if "i \<noteq> me" for i
    using that by (cases "fl_pcs s ! me") (auto simp: fl_copy_def routine_def fl_go_def)
  have "fl_copy (routine me s) me = fl_copy s me \<or> fl_copy (routine me s) me = Some (fl_count s)"
    using False assms by (cases "fl_pcs s ! me") (auto simp: fl_copy_def routine_def fl_go_def check_k_def fl_next_def)
  moreover have "fl_count (routine me s) = fl_count s" "fl_incs (routine me s) = fl_incs s"
    using False by (cases "fl_pcs s ! me"; simp add: routine_def fl_go_def)+
  ultimately show ?thesis using other by metis
qed

interpretation filter_counter: counted_section fl_ok filter_step fl_copy fl_count fl_incs
proof
  fix s i j v w assume "fl_ok s" "fl_copy s i = Some v" "fl_copy s j = Some w"
  then show "i = j" using fl_copy_crit fl_mutex unfolding fl_ok_def by blast
next
  fix s t assume "fl_ok s" and "filter_step s t"
  from this(2) show "(fl_count t = fl_count s \<and> fl_incs t = fl_incs s \<and> (\<forall>i. fl_copy t i = fl_copy s i \<or> fl_copy t i = Some (fl_count s))) \<or>
    (\<exists>i v. fl_copy s i = Some v \<and> fl_count t = v + 1 \<and> fl_incs t = fl_incs s + 1 \<and> fl_copy t i = None \<and>
       (\<forall>j. j \<noteq> i \<longrightarrow> fl_copy t j = fl_copy s j))"
  proof cases
    case (thread me)
    then show ?thesis using fl_copy_routine by simp
  next
    case main
    have "fl_copy (filter_main s) i = fl_copy s i" for i
      by (cases "fl_main s") (auto simp: fl_copy_def filter_main_def nth_append less_Suc_eq)
    moreover have "fl_count (filter_main s) = fl_count s" "fl_incs (filter_main s) = fl_incs s"
      by (cases "fl_main s"; simp add: filter_main_def)+
    ultimately show ?thesis using main by simp
  qed
next
  fix s t assume "fl_ok s" "filter_step s t"
  then show "fl_ok t" by (rule filter_run.step_inv)
qed

section \<open>The final value\<close>

text \<open>The threads that will still increment the counter, those not created yet among them.\<close>

fun fl_pending :: "fl_pc \<Rightarrow> nat" where
  "fl_pending (FL_Level _) = 1"
| "fl_pending (FL_Victim _) = 1"
| "fl_pending (FL_Check _ _) = 1"
| "fl_pending (FL_Test _) = 1"
| "fl_pending FL_Read = 1"
| "fl_pending (FL_Write _) = 1"
| "fl_pending _ = 0"

definition fl_left :: "filter_sys \<Rightarrow> nat" where
  "fl_left s = tally fl_pending (fl_pcs s) + (fl_N_THREAD - length (fl_pcs s))"

definition fl_deciding :: "filter_sys \<Rightarrow> bool" where
  "fl_deciding s \<longleftrightarrow> FL_Limit \<in> set (fl_pcs s) \<or> FL_Stop \<in> set (fl_pcs s)"

lemma fl_left_update:
  assumes "me < length (fl_pcs s)" and "fl_pcs t = (fl_pcs s)[me := pc]"
  shows "fl_left t + fl_pending (fl_pcs s ! me) = fl_left s + fl_pending pc"
  using assms tally_others [OF assms(1), of fl_pending] by (simp add: fl_left_def)

lemma fl_left_less:
  assumes me: "me < length (fl_pcs s)" "fl_pending (fl_pcs s ! me) = 0" and le: "length (fl_pcs s) \<le> fl_N_THREAD"
  shows "fl_left s < fl_N_THREAD"
proof -
  have one: "fl_pending pc \<le> 1" for pc by (cases pc) auto
  then have "tally fl_pending xs \<le> length xs" for xs
    by (induction xs) (simp_all add: add_mono [of _ "Suc 0", simplified])
  from this [of "(fl_pcs s)[me := FL_Read]"] tally_others [OF me(1), of fl_pending] me(2)
  have "tally fl_pending (fl_pcs s) < length (fl_pcs s)" by simp
  then show ?thesis using le by (simp add: fl_left_def)
qed

text \<open>Steps that leave the counter and the flag alone.\<close>

lemma fl_quiet:
  assumes me: "me < length (fl_pcs s)"
    and t: "fl_pcs t = (fl_pcs s)[me := pc]"
    and p: "fl_shutdown s \<Longrightarrow> fl_pending pc \<le> fl_pending (fl_pcs s ! me)"
    and w: "fl_pcs s ! me = FL_Limit \<Longrightarrow> pc = FL_Stop \<or> fl_count s \<le> fl_ITER" "fl_pcs s ! me \<noteq> FL_Stop"
  shows "(fl_shutdown s \<longrightarrow> fl_left t \<le> fl_left s) \<and> (fl_deciding s \<longrightarrow> fl_deciding t \<or> fl_count s \<le> fl_ITER)"
proof -
  have "FL_Stop \<in> set (fl_pcs t)" if "FL_Stop \<in> set (fl_pcs s)"
    using member_update [OF that w(2)] by (simp add: t)
  moreover have "fl_deciding t \<or> fl_count s \<le> fl_ITER" if "FL_Limit \<in> set (fl_pcs s)"
    using member_update [OF that, of me pc] w(1) set_update_memI [OF me, of pc] by (auto simp: t fl_deciding_def)
  ultimately show ?thesis using p fl_left_update [OF me t] by (auto simp: fl_deciding_def)
qed

lemma fl_copy_at: "me < length (fl_pcs s) \<Longrightarrow> fl_pcs s ! me = FL_Write v \<Longrightarrow> fl_copy s me = Some v"
  by (simp add: fl_copy_def)

lemma fl_copy_exact: "filter_counter.exact s \<Longrightarrow> me < length (fl_pcs s) \<Longrightarrow> fl_pcs s ! me = FL_Write v \<Longrightarrow> v = fl_count s"
  using fl_copy_at unfolding filter_counter.exact_def by blast

lemma fl_routine_quiet:
  assumes me: "me < length (fl_pcs s)" "fl_pcs s ! me \<noteq> FL_Stop" "\<And>v. fl_pcs s ! me \<noteq> FL_Write v" "fl_pcs s ! me \<noteq> FL_Exit"
  shows "fl_count (routine me s) = fl_count s \<and> fl_shutdown (routine me s) = fl_shutdown s \<and>
    (fl_shutdown s \<longrightarrow> fl_left (routine me s) \<le> fl_left s) \<and>
    (fl_deciding s \<longrightarrow> fl_deciding (routine me s) \<or> fl_count s \<le> fl_ITER)"
proof -
  have "\<exists>pc. fl_pcs (routine me s) = (fl_pcs s)[me := pc] \<and> (fl_shutdown s \<longrightarrow> fl_pending pc \<le> fl_pending (fl_pcs s ! me)) \<and>
      (fl_pcs s ! me = FL_Limit \<longrightarrow> pc = FL_Stop \<or> fl_count s \<le> fl_ITER)"
    using me by (cases "fl_pcs s ! me") (auto simp: routine_def fl_go_def check_k_def fl_next_def)
  then show ?thesis using me fl_quiet [OF me(1), of "routine me s"]
    by (cases "fl_pcs s ! me") (auto simp: routine_def fl_go_def)
qed

lemma fl_routine_moves:
  assumes ok: "fl_ok s" and ex: "filter_counter.exact s" and me: "me < length (fl_pcs s)" "fl_pcs s ! me \<noteq> FL_Exit"
  defines "t \<equiv> routine me s"
  shows "(fl_count t = fl_count s \<and> fl_shutdown t = fl_shutdown s \<and> (fl_shutdown s \<longrightarrow> fl_left t \<le> fl_left s) \<and>
       (fl_deciding s \<longrightarrow> fl_deciding t \<or> fl_count s \<le> fl_ITER)) \<or>
     (fl_count t = fl_count s + 1 \<and> fl_shutdown t = fl_shutdown s \<and> fl_left t < fl_left s \<and> fl_deciding t \<and> \<not> fl_deciding s) \<or>
     (fl_count t = fl_count s \<and> fl_shutdown t \<and> fl_ITER < fl_count s \<and> fl_left t < fl_N_THREAD \<and> fl_left t \<le> fl_left s)"
proof (cases "fl_pcs s ! me")
  case (FL_Write v)
  have inv: "fl_inv s" using ok by (simp add: fl_ok_def)
  have t: "fl_pcs t = (fl_pcs s)[me := FL_Limit]" "fl_count t = fl_count s + 1" "fl_shutdown t = fl_shutdown s"
    using FL_Write fl_copy_exact [OF ex me(1) FL_Write] by (simp_all add: t_def routine_def fl_go_def)
  have "fl_deciding t" using set_update_memI [OF me(1)] by (simp add: t(1) fl_deciding_def)
  moreover have "\<not> fl_deciding s"
    using fl_alone [OF inv me(1), of FL_Limit] fl_alone [OF inv me(1), of FL_Stop] FL_Write by (auto simp: fl_deciding_def)
  moreover have "fl_left t < fl_left s" using fl_left_update [OF me(1) t(1)] FL_Write by simp
  ultimately show ?thesis using t by simp
next
  case FL_Stop
  have inv: "fl_inv s" using ok by (simp add: fl_ok_def)
  have t: "fl_pcs t = (fl_pcs s)[me := FL_Unlock]" "fl_count t = fl_count s" "fl_shutdown t"
    using FL_Stop by (simp_all add: t_def routine_def fl_go_def)
  have "FL_Stop \<in> set (fl_pcs s)" using FL_Stop me(1) by (metis nth_mem)
  then have "fl_ITER < fl_count s" using ok by (simp add: fl_ok_def fl_ends_def)
  moreover have "fl_left t = fl_left s" using fl_left_update [OF me(1) t(1)] FL_Stop by simp
  moreover have "fl_left s < fl_N_THREAD" using fl_left_less [OF me(1) _ fl_shapeD(6) [OF inv]] FL_Stop by simp
  ultimately show ?thesis using t by simp
qed (use fl_routine_quiet [OF me(1)] me(2) in \<open>simp_all add: t_def\<close>)

interpretation filter_limit: bounded_section fl_ok filter_step fl_copy fl_count fl_incs fl_ITER fl_N_THREAD fl_shutdown fl_deciding fl_left
proof
  fix s t assume ok: "fl_ok s" and ex: "filter_counter.exact s" and "filter_step s t"
  from this(3) show "(fl_count t = fl_count s \<and> fl_shutdown t = fl_shutdown s \<and> (fl_shutdown s \<longrightarrow> fl_left t \<le> fl_left s) \<and>
       (fl_deciding s \<longrightarrow> fl_deciding t \<or> fl_count s \<le> fl_ITER)) \<or>
     (fl_count t = fl_count s + 1 \<and> fl_shutdown t = fl_shutdown s \<and> fl_left t < fl_left s \<and> fl_deciding t \<and> \<not> fl_deciding s) \<or>
     (fl_count t = fl_count s \<and> fl_shutdown t \<and> fl_ITER < fl_count s \<and> fl_left t < fl_N_THREAD \<and> fl_left t \<le> fl_left s)"
  proof cases
    case (thread me)
    then show ?thesis using fl_routine_moves [OF ok ex] by simp
  next
    case main
    have inv: "fl_inv s" using ok by (simp add: fl_ok_def)
    have "fl_left (filter_main s) = fl_left s"
      using fl_shapeD(4,5) [OF inv] by (cases "fl_main s") (auto simp: fl_left_def filter_main_def)
    moreover have "fl_deciding (filter_main s) = fl_deciding s" "fl_count (filter_main s) = fl_count s"
        "fl_shutdown (filter_main s) = fl_shutdown s"
      by (cases "fl_main s"; simp add: fl_deciding_def filter_main_def)+
    ultimately show ?thesis using main by simp
  qed
qed

lemma filter_reachable:
  assumes "reachable filter_start filter_step s"
  shows "fl_ok s \<and> filter_counter.exact s \<and> filter_limit.limited s"
proof (rule filter_limit.limited_reachable [OF assms])
  fix s assume st: "filter_start s"
  then have "\<not> fl_shutdown s" "fl_count s \<le> fl_ITER" by (simp_all add: filter_start_def fl_ITER_def)
  moreover have "filter_counter.exact s" using st by (simp add: filter_start_def filter_counter.exact_def fl_copy_def)
  ultimately have "filter_counter.exact s" "filter_limit.limited s" by (simp_all add: filter_limit.limited_def)
  then show "fl_ok s \<and> filter_counter.exact s \<and> filter_limit.limited s" using filter_run.init_inv [OF st] by simp
qed

lemma fl_final:
  assumes "fl_ok s" and "filter_limit.limited s" and "fl_main s = FM_Exit"
  shows "fl_ITER < fl_count s \<and> fl_count s \<le> fl_ITER + int fl_N_THREAD"
proof -
  have len: "length (fl_pcs s) = fl_N_THREAD" using assms fl_shapeD(5) by (simp add: fl_ok_def)
  then have "FL_Exit \<in> set (fl_pcs s)" using assms nth_mem [of 0 "fl_pcs s"] by (simp add: fl_ok_def fl_ends_def fl_N_THREAD_def)
  then have "fl_shutdown s" using assms by (simp add: fl_ok_def fl_ends_def)
  then show ?thesis using assms by (auto simp: filter_limit.limited_def)
qed

section \<open>Progress\<close>

fun fl_round :: "fl_pc \<Rightarrow> nat option" where
  "fl_round (FL_Check i _) = Some i"
| "fl_round (FL_Test i) = Some i"
| "fl_round _ = None"

lemma routine_check: "me < length (fl_pcs s) \<Longrightarrow> routine me (fl_go me (FL_Check i k) s) = fl_go me (check_k me i k s) s"
  by (simp add: routine_def fl_go_def check_k_def)

lemma routine_test:
  "me < length (fl_pcs s) \<Longrightarrow> routine me (fl_go me (FL_Test i) s) = fl_go me (if victim s ! i = me then FL_Check i 0 else fl_next i) s"
  by (simp add: routine_def fl_go_def)

lemma funpow_first: "(f ^^ n) (f x) = y \<Longrightarrow> n < m \<Longrightarrow> \<exists>n \<le> m. (f ^^ n) x = y"
  by (rule exI [of _ "Suc n"]) (simp only: funpow_Suc_right o_apply, simp)

text \<open>A thread that is not the victim of its round leaves it at the end of its scan or at the next test.\<close>

lemma fl_escape:
  assumes me: "me < length (fl_pcs s)" and v: "victim s ! i \<noteq> me"
  shows "\<exists>n \<le> fl_N_THREAD - k + 2. (routine me ^^ n) (fl_go me (FL_Check i k) s) = fl_go me (fl_next i) s"
proof (induction "fl_N_THREAD - k" arbitrary: k rule: less_induct)
  case less
  have test: "(routine me ^^ 1) (fl_go me (FL_Test i) s) = fl_go me (fl_next i) s" using v by (simp add: routine_test [OF me])
  consider "check_k me i k s = fl_next i" | "check_k me i k s = FL_Check i (Suc k)" "k < fl_N_THREAD" | "check_k me i k s = FL_Test i"
    by (cases "fl_N_THREAD \<le> k"; cases "k = me"; cases "i \<le> level s ! (t_id s ! k)") (simp_all add: check_k_def)
  then show ?case
  proof cases
    case 1
    show ?thesis by (rule funpow_first [of 0]) (simp_all add: routine_check [OF me] 1)
  next
    case 2
    then obtain n where "n \<le> fl_N_THREAD - Suc k + 2" "(routine me ^^ n) (fl_go me (FL_Check i (Suc k)) s) = fl_go me (fl_next i) s"
      using less [of "Suc k"] by fastforce
    then show ?thesis using 2 by (intro funpow_first [of n]) (simp_all add: routine_check [OF me])
  next
    case 3
    show ?thesis by (rule funpow_first [of 1]) (use test in \<open>simp_all add: routine_check [OF me] 3\<close>)
  qed
qed

text \<open>A scan that meets only lower levels leaves the round.\<close>

lemma fl_scan:
  assumes me: "me < length (fl_pcs s)" and low: "\<And>j. j < fl_N_THREAD \<Longrightarrow> j \<noteq> me \<Longrightarrow> level s ! (t_id s ! j) < i"
  shows "\<exists>n \<le> fl_N_THREAD - k + 1. (routine me ^^ n) (fl_go me (FL_Check i k) s) = fl_go me (fl_next i) s"
proof (induction "fl_N_THREAD - k" arbitrary: k rule: less_induct)
  case less
  show ?case
  proof (cases "k < fl_N_THREAD")
    case True
    then have c: "check_k me i k s = FL_Check i (Suc k)" using low [of k] by (cases "k = me") (simp_all add: check_k_def)
    obtain n where "n \<le> fl_N_THREAD - Suc k + 1" "(routine me ^^ n) (fl_go me (FL_Check i (Suc k)) s) = fl_go me (fl_next i) s"
      using less [of "Suc k"] True by fastforce
    then show ?thesis using True c by (intro funpow_first [of n]) (simp_all add: routine_check [OF me])
  next
    case False
    show ?thesis by (rule funpow_first [of 0]) (use False in \<open>simp_all add: routine_check [OF me] check_k_def\<close>)
  qed
qed

text \<open>When everybody waits or has ended, somebody at the highest round can leave it.\<close>

lemma fl_round_level: "fl_round pc = Some i \<Longrightarrow> fl_level_of pc = i"
  by (cases pc) auto

lemma fl_leave:
  assumes me: "me < length (fl_pcs s)" "fl_round (fl_pcs s ! me) = Some i"
    and can: "victim s ! i \<noteq> me \<or> (\<forall>j < fl_N_THREAD. j \<noteq> me \<longrightarrow> level s ! (t_id s ! j) < i)"
  shows "\<exists>n \<le> fl_N_THREAD + 2. (routine me ^^ n) s = fl_go me (fl_next i) s"
proof -
  have same: "fl_go me pc s = s" if "fl_pcs s ! me = pc" for pc using that by (auto simp: fl_go_def)
  have scan: "\<exists>n \<le> fl_N_THREAD - k + 2. (routine me ^^ n) (fl_go me (FL_Check i k) s) = fl_go me (fl_next i) s" for k
  proof (cases "victim s ! i = me")
    case True
    then obtain n where "n \<le> fl_N_THREAD - k + 1" "(routine me ^^ n) (fl_go me (FL_Check i k) s) = fl_go me (fl_next i) s"
      using fl_scan [OF me(1), of i k] can by blast
    then show ?thesis by (intro exI [of _ n]) simp
  qed (rule fl_escape [OF me(1)])
  show ?thesis
  proof (cases "fl_pcs s ! me")
    case (FL_Check j k)
    then have s: "fl_go me (FL_Check i k) s = s" using same me(2) by simp
    obtain n where "n \<le> fl_N_THREAD - k + 2" "(routine me ^^ n) s = fl_go me (fl_next i) s"
      using scan [of k] unfolding s by blast
    then show ?thesis by (intro exI [of _ n]) simp
  next
    case (FL_Test j)
    then have s: "fl_go me (FL_Test i) s = s" using same me(2) by simp
    show ?thesis
    proof (cases "victim s ! i = me")
      case True
      then have "routine me s = fl_go me (FL_Check i 0) s" using routine_test [OF me(1), of i] s by simp
      moreover obtain n where "n \<le> fl_N_THREAD + 1" "(routine me ^^ n) (fl_go me (FL_Check i 0) s) = fl_go me (fl_next i) s"
        using True can fl_scan [OF me(1), of i 0] by (metis diff_zero)
      ultimately show ?thesis by (intro funpow_first [of n]) simp_all
    next
      case False
      then have "routine me s = fl_go me (fl_next i) s" using routine_test [OF me(1), of i] s by simp
      then show ?thesis by (intro funpow_first [of 0]) simp_all
    qed
  qed (use me(2) in auto)
qed

lemma fl_highest:
  assumes "i < length (fl_pcs s)" and "fl_round (fl_pcs s ! i) \<noteq> None"
  obtains me r where "me < length (fl_pcs s)" "fl_round (fl_pcs s ! me) = Some r"
    "\<And>j q. j < length (fl_pcs s) \<Longrightarrow> fl_round (fl_pcs s ! j) = Some q \<Longrightarrow> q \<le> r"
proof -
  let ?R = "{q. \<exists>j < length (fl_pcs s). fl_round (fl_pcs s ! j) = Some q}"
  have "?R \<subseteq> (\<lambda>j. the (fl_round (fl_pcs s ! j))) ` {..< length (fl_pcs s)}" by force
  then have fin: "finite ?R" by (rule finite_subset) simp
  have "?R \<noteq> {}" using assms by blast
  then have "Max ?R \<in> ?R" by (rule Max_in [OF fin])
  then show thesis using that Max_ge [OF fin] by blast
qed

lemma fl_progress:
  assumes inv: "fl_inv s" and all: "length (fl_pcs s) = fl_N_THREAD"
    and wait: "\<And>j. j < fl_N_THREAD \<Longrightarrow> fl_round (fl_pcs s ! j) \<noteq> None \<or> fl_pcs s ! j = FL_Exit"
    and some: "i < fl_N_THREAD" "fl_pcs s ! i \<noteq> FL_Exit"
  shows "\<exists>me < fl_N_THREAD. \<exists>r. fl_round (fl_pcs s ! me) = Some r \<and>
    (\<exists>n \<le> fl_N_THREAD + 2. (routine me ^^ n) s = fl_go me (fl_next r) s)"
proof -
  obtain me r where me: "me < length (fl_pcs s)" "fl_round (fl_pcs s ! me) = Some r"
    and top: "\<And>j q. j < length (fl_pcs s) \<Longrightarrow> fl_round (fl_pcs s ! j) = Some q \<Longrightarrow> q \<le> r"
    using fl_highest [of i s] wait [OF some(1)] some all by auto
  show ?thesis
  proof (cases "\<exists>j < fl_N_THREAD. j \<noteq> victim s ! r \<and> fl_round (fl_pcs s ! j) = Some r")
    case True
    then show ?thesis using fl_leave [of _ s r] all by metis
  next
    case False
    have "level s ! (t_id s ! j) < r" if j: "j < fl_N_THREAD" "j \<noteq> me" for j
    proof -
      have "1 \<le> r" using fl_localD [OF inv me(1)] me(2) by (cases "fl_pcs s ! me") auto
      have "fl_level_of (fl_pcs s ! j) < r"
      proof (cases "fl_round (fl_pcs s ! j)")
        case None
        then show ?thesis using wait [OF j(1)] \<open>1 \<le> r\<close> by auto
      next
        case (Some q)
        have "me = victim s ! r" using False me all by metis
        then have "q \<noteq> r" using False Some j by metis
        then show ?thesis using top [of j q] Some j(1) all fl_round_level [OF Some] by simp
      qed
      moreover have "t_id s ! j = j" using fl_shapeD(7,8) [OF inv] j(1) all by simp
      ultimately show ?thesis using fl_localD [OF inv] j(1) all by simp
    qed
    then show ?thesis using fl_leave [OF me] me all by metis
  qed
qed

end
