(* ===== verification/Bakery_Lock.thy ===== *)
theory Bakery_Lock
  imports Lock_Client
begin

text \<open>
  The bakery lock of \<^verbatim>\<open>proof/bakery-lock/main.c\<close>: three threads and the main thread, one access to a shared
  variable per step, under sequentially consistent memory. Neither \<^verbatim>\<open>max_label\<close> nor \<^verbatim>\<open>check_waiting\<close> is
  atomic. Labels are unbounded here, and proved to stay far below the range of \<^verbatim>\<open>int\<close>.
\<close>

section \<open>The program\<close>

definition bk_N_THREAD :: nat where "bk_N_THREAD = 3"

definition bk_ITER :: int where "bk_ITER = 15"

text \<open>
  The thread: \<open>BK_Max k m\<close> the scan of \<^verbatim>\<open>max_label\<close> at \<open>k\<close> with the maximum \<open>m\<close> so far and \<open>BK_Take k m\<close> its second
  read of a greater label; \<open>BK_Check k\<close>, \<open>BK_Less k\<close> and \<open>BK_Equal k\<close> the scan of \<^verbatim>\<open>check_waiting\<close> at \<open>k\<close>, reading
  the flag, then the label twice.
\<close>

datatype bk_pc =
    BK_Flag | BK_Max nat int | BK_Take nat int | BK_Label int
  | BK_Check nat | BK_Less nat | BK_Equal nat
  | BK_Read | BK_Write int | BK_Limit | BK_Stop | BK_Unlock
  | BK_Again | BK_Exit

datatype bk_main = BM_Create nat | BM_Join nat | BM_Exit

text \<open>\<open>bk_incs\<close> counts the writes of \<^verbatim>\<open>count\<close>, \<open>bk_doors\<close> those of the labels.\<close>

record bakery_sys =
  bk_flag :: "bool list"
  bk_label :: "int list"
  bk_count :: int
  bk_shutdown :: bool
  bk_pcs :: "bk_pc list"
  bk_main :: bk_main
  bk_incs :: int
  bk_doors :: int

definition bk_go :: "nat \<Rightarrow> bk_pc \<Rightarrow> bakery_sys \<Rightarrow> bakery_sys" where
  "bk_go me pc s = s\<lparr>bk_pcs := (bk_pcs s)[me := pc]\<rparr>"

definition max_label :: "nat \<Rightarrow> int \<Rightarrow> bakery_sys \<Rightarrow> bk_pc" where
  "max_label k m s =
     (if bk_N_THREAD \<le> k then BK_Label m
      else if m < bk_label s ! k then BK_Take k m
      else BK_Max (Suc k) m)"

text \<open>\<^verbatim>\<open>check_k_i\<close>: the first comparison, and the second one with its result, on which the scan goes on or starts again.\<close>

definition check_less :: "nat \<Rightarrow> nat \<Rightarrow> bakery_sys \<Rightarrow> bk_pc" where
  "check_less k i s = (if bk_label s ! k < bk_label s ! i then BK_Check 0 else BK_Equal k)"

definition check_equal :: "nat \<Rightarrow> nat \<Rightarrow> bakery_sys \<Rightarrow> bk_pc" where
  "check_equal k i s = (if bk_label s ! k = bk_label s ! i \<and> k < i then BK_Check 0 else BK_Check (Suc k))"

definition check_waiting :: "nat \<Rightarrow> nat \<Rightarrow> bakery_sys \<Rightarrow> bk_pc" where
  "check_waiting me k s =
     (if bk_N_THREAD \<le> k then BK_Read
      else if k = me then BK_Check (Suc k)
      else if bk_flag s ! k then BK_Less k
      else BK_Check (Suc k))"

definition bk_routine :: "nat \<Rightarrow> bakery_sys \<Rightarrow> bakery_sys" where
  "bk_routine me s =
     (case bk_pcs s ! me of
        BK_Flag \<Rightarrow> bk_go me (BK_Max 0 (- 1)) (s\<lparr>bk_flag := (bk_flag s)[me := True]\<rparr>)
      | BK_Max k m \<Rightarrow> bk_go me (max_label k m s) s
      | BK_Take k m \<Rightarrow> bk_go me (BK_Max (Suc k) (bk_label s ! k)) s
      | BK_Label m \<Rightarrow> bk_go me (BK_Check 0) (s\<lparr>bk_label := (bk_label s)[me := m + 1], bk_doors := bk_doors s + 1\<rparr>)
      | BK_Check k \<Rightarrow> bk_go me (check_waiting me k s) s
      | BK_Less k \<Rightarrow> bk_go me (check_less k me s) s
      | BK_Equal k \<Rightarrow> bk_go me (check_equal k me s) s
      | BK_Read \<Rightarrow> bk_go me (BK_Write (bk_count s)) s
      | BK_Write temp \<Rightarrow> bk_go me BK_Limit (s\<lparr>bk_count := temp + 1, bk_incs := bk_incs s + 1\<rparr>)
      | BK_Limit \<Rightarrow> bk_go me (if bk_count s > bk_ITER then BK_Stop else BK_Unlock) s
      | BK_Stop \<Rightarrow> bk_go me BK_Unlock (s\<lparr>bk_shutdown := True\<rparr>)
      | BK_Unlock \<Rightarrow> bk_go me BK_Again (s\<lparr>bk_flag := (bk_flag s)[me := False]\<rparr>)
      | BK_Again \<Rightarrow> bk_go me (if \<not> bk_shutdown s then BK_Flag else BK_Exit) s
      | BK_Exit \<Rightarrow> s)"

text \<open>\<^verbatim>\<open>main\<close>: the id it stores before it creates a thread is read by that thread only.\<close>

definition bakery_main :: "bakery_sys \<Rightarrow> bakery_sys" where
  "bakery_main s =
     (case bk_main s of
        BM_Create i \<Rightarrow>
          (if i < bk_N_THREAD then s\<lparr>bk_pcs := bk_pcs s @ [BK_Flag], bk_main := BM_Create (Suc i)\<rparr> else s\<lparr>bk_main := BM_Join 0\<rparr>)
      | BM_Join i \<Rightarrow> s\<lparr>bk_main := if i < bk_N_THREAD then BM_Join (Suc i) else BM_Exit\<rparr>
      | BM_Exit \<Rightarrow> s)"

definition bakery_main_ready :: "bakery_sys \<Rightarrow> bool" where
  "bakery_main_ready s \<longleftrightarrow>
     (case bk_main s of BM_Join i \<Rightarrow> i < bk_N_THREAD \<longrightarrow> bk_pcs s ! i = BK_Exit | BM_Exit \<Rightarrow> False | _ \<Rightarrow> True)"

inductive bakery_step :: "bakery_sys \<Rightarrow> bakery_sys \<Rightarrow> bool" where
  thread: "me < length (bk_pcs s) \<Longrightarrow> bk_pcs s ! me \<noteq> BK_Exit \<Longrightarrow> bakery_step s (bk_routine me s)"
| main: "bakery_main_ready s \<Longrightarrow> bakery_step s (bakery_main s)"

definition bakery_start :: "bakery_sys \<Rightarrow> bool" where
  "bakery_start s \<longleftrightarrow> bk_flag s = replicate bk_N_THREAD False \<and> bk_label s = replicate bk_N_THREAD 0 \<and>
     bk_count s = 0 \<and> \<not> bk_shutdown s \<and> bk_pcs s = [] \<and> bk_main s = BM_Create 0 \<and> bk_incs s = 0 \<and> bk_doors s = 0"

section \<open>The invariant\<close>

fun bk_crit :: "bk_pc \<Rightarrow> bool" where
  "bk_crit BK_Read \<longleftrightarrow> True"
| "bk_crit (BK_Write _) \<longleftrightarrow> True"
| "bk_crit BK_Limit \<longleftrightarrow> True"
| "bk_crit BK_Stop \<longleftrightarrow> True"
| "bk_crit BK_Unlock \<longleftrightarrow> True"
| "bk_crit _ \<longleftrightarrow> False"

fun bk_flagged :: "bk_pc \<Rightarrow> bool" where
  "bk_flagged BK_Flag \<longleftrightarrow> False"
| "bk_flagged BK_Again \<longleftrightarrow> False"
| "bk_flagged BK_Exit \<longleftrightarrow> False"
| "bk_flagged _ \<longleftrightarrow> True"

text \<open>The scan of a labelled thread has gone past \<open>j\<close>.\<close>

fun bk_past :: "bk_pc \<Rightarrow> nat \<Rightarrow> bool" where
  "bk_past (BK_Check k) j \<longleftrightarrow> j < k"
| "bk_past (BK_Less k) j \<longleftrightarrow> j < k"
| "bk_past (BK_Equal k) j \<longleftrightarrow> j < k"
| "bk_past pc j \<longleftrightarrow> bk_crit pc"

text \<open>
  What thread \<open>j\<close> at \<open>pc\<close> must satisfy while \<open>i\<close> has gone past it: without a flag nothing; in the doorway it will
  choose a greater label than that of \<open>i\<close>; with a label, it comes after \<open>i\<close>.
\<close>

fun bk_behind :: "int list \<Rightarrow> nat \<Rightarrow> nat \<Rightarrow> bk_pc \<Rightarrow> bool" where
  "bk_behind lab i j (BK_Max k m) \<longleftrightarrow> (i < k \<longrightarrow> lab ! i \<le> m) \<or> lab ! i \<le> lab ! j"
| "bk_behind lab i j (BK_Take k m) \<longleftrightarrow> (i < k \<longrightarrow> lab ! i \<le> m) \<or> lab ! i \<le> lab ! j"
| "bk_behind lab i j (BK_Label m) \<longleftrightarrow> lab ! i \<le> m"
| "bk_behind lab i j pc \<longleftrightarrow> (bk_flagged pc \<longrightarrow> lab ! i < lab ! j \<or> lab ! i = lab ! j \<and> i < j)"

text \<open>What a thread knows of the labels.\<close>

fun bk_own :: "int list \<Rightarrow> nat \<Rightarrow> bk_pc \<Rightarrow> bool" where
  "bk_own lab me (BK_Max k m) \<longleftrightarrow> k \<le> bk_N_THREAD \<and> (me < k \<longrightarrow> lab ! me \<le> m)"
| "bk_own lab me (BK_Take k m) \<longleftrightarrow> k < bk_N_THREAD \<and> (me < k \<longrightarrow> lab ! me \<le> m) \<and> m < lab ! k"
| "bk_own lab me (BK_Label m) \<longleftrightarrow> lab ! me \<le> m"
| "bk_own lab me (BK_Check k) \<longleftrightarrow> k \<le> bk_N_THREAD"
| "bk_own lab me (BK_Less k) \<longleftrightarrow> k < bk_N_THREAD \<and> k \<noteq> me"
| "bk_own lab me (BK_Equal k) \<longleftrightarrow> k < bk_N_THREAD \<and> k \<noteq> me \<and> lab ! me \<le> lab ! k"
| "bk_own lab me _ \<longleftrightarrow> True"

fun bm_created :: "bk_main \<Rightarrow> nat" where
  "bm_created (BM_Create i) = i"
| "bm_created _ = bk_N_THREAD"

fun bm_wf :: "bk_main \<Rightarrow> bool" where
  "bm_wf (BM_Create i) \<longleftrightarrow> i \<le> bk_N_THREAD"
| "bm_wf (BM_Join i) \<longleftrightarrow> i \<le> bk_N_THREAD"
| "bm_wf BM_Exit \<longleftrightarrow> True"

definition bk_shape :: "bakery_sys \<Rightarrow> bool" where
  "bk_shape s \<longleftrightarrow> length (bk_flag s) = bk_N_THREAD \<and> length (bk_label s) = bk_N_THREAD \<and>
     bm_wf (bk_main s) \<and> length (bk_pcs s) = bm_created (bk_main s) \<and>
     (\<forall>k < bk_N_THREAD. length (bk_pcs s) \<le> k \<longrightarrow> \<not> bk_flag s ! k)"

definition bk_local :: "bakery_sys \<Rightarrow> bool" where
  "bk_local s \<longleftrightarrow> (\<forall>k < length (bk_pcs s). bk_own (bk_label s) k (bk_pcs s ! k) \<and> bk_flag s ! k = bk_flagged (bk_pcs s ! k))"

definition bk_order :: "bakery_sys \<Rightarrow> bool" where
  "bk_order s \<longleftrightarrow> (\<forall>i j. i < length (bk_pcs s) \<and> j < length (bk_pcs s) \<and> i \<noteq> j \<and> bk_past (bk_pcs s ! i) j \<longrightarrow>
     bk_behind (bk_label s) i j (bk_pcs s ! j))"

definition bk_inv :: "bakery_sys \<Rightarrow> bool" where
  "bk_inv s \<longleftrightarrow> bk_shape s \<and> bk_local s \<and> bk_order s"

lemma bk_shapeD:
  assumes "bk_inv s"
  shows "length (bk_flag s) = bk_N_THREAD" "length (bk_label s) = bk_N_THREAD" "bm_wf (bk_main s)"
    "length (bk_pcs s) = bm_created (bk_main s)" "length (bk_pcs s) \<le> bk_N_THREAD"
    "k < bk_N_THREAD \<Longrightarrow> length (bk_pcs s) \<le> k \<Longrightarrow> \<not> bk_flag s ! k"
  using assms by (cases "bk_main s"; simp add: bk_inv_def bk_shape_def)+

lemma bk_localD:
  "bk_inv s \<Longrightarrow> k < length (bk_pcs s) \<Longrightarrow> bk_own (bk_label s) k (bk_pcs s ! k) \<and> bk_flag s ! k = bk_flagged (bk_pcs s ! k)"
  by (simp add: bk_inv_def bk_local_def)

lemma bk_orderD:
  "bk_inv s \<Longrightarrow> i < length (bk_pcs s) \<Longrightarrow> j < length (bk_pcs s) \<Longrightarrow> i \<noteq> j \<Longrightarrow> bk_past (bk_pcs s ! i) j \<Longrightarrow>
     bk_behind (bk_label s) i j (bk_pcs s ! j)"
  by (simp add: bk_inv_def bk_order_def)

text \<open>Two threads in the critical section have gone past each other, and each comes after the other.\<close>

lemma bk_mutex:
  assumes inv: "bk_inv s" and "i < length (bk_pcs s)" "bk_crit (bk_pcs s ! i)" "j < length (bk_pcs s)" "bk_crit (bk_pcs s ! j)"
  shows "i = j"
proof (rule ccontr)
  assume ne: "i \<noteq> j"
  have past: "bk_past pc k" and lex: "bk_behind lab a b pc \<longleftrightarrow> lab ! a < lab ! b \<or> lab ! a = lab ! b \<and> a < b"
    if "bk_crit pc" for pc k lab a b using that by (cases pc; simp)+
  show False
    using bk_orderD [OF inv assms(2,4) ne] bk_orderD [OF inv assms(4,2)] ne past lex assms(3,5) by auto
qed

section \<open>Preservation\<close>

lemma bk_inv_move:
  assumes inv: "bk_inv s" and me: "me < length (bk_pcs s)"
    and t: "bk_pcs t = (bk_pcs s)[me := pc]" "bk_label t = bk_label s" "bk_main t = bk_main s"
      "bk_flag t = (bk_flag s)[me := bk_flagged pc]"
    and own: "bk_own (bk_label s) me pc"
    and past: "\<And>j. j < length (bk_pcs s) \<Longrightarrow> j \<noteq> me \<Longrightarrow> bk_past pc j \<Longrightarrow> \<not> bk_past (bk_pcs s ! me) j \<Longrightarrow>
      bk_behind (bk_label s) me j (bk_pcs s ! j)"
    and behind: "\<And>i. i < length (bk_pcs s) \<Longrightarrow> bk_behind (bk_label s) i me (bk_pcs s ! me) \<Longrightarrow> bk_behind (bk_label s) i me pc"
  shows "bk_inv t"
proof -
  have lf: "me < length (bk_flag s)" using me bk_shapeD(1,5) [OF inv] by simp
  have "bk_shape t" using inv me by (auto simp: bk_inv_def bk_shape_def t nth_list_update)
  moreover have "bk_local t"
    using bk_localD [OF inv] own lf by (simp add: bk_local_def t nth_list_update)
  moreover have "bk_order t"
    unfolding bk_order_def
  proof (intro allI impI, elim conjE)
    fix i j assume ij: "i < length (bk_pcs t)" "j < length (bk_pcs t)" "i \<noteq> j" "bk_past (bk_pcs t ! i) j"
    then have l: "i < length (bk_pcs s)" "j < length (bk_pcs s)" by (simp_all add: t(1))
    consider "i = me" | "j = me" "i \<noteq> me" | "i \<noteq> me" "j \<noteq> me" by blast
    then show "bk_behind (bk_label t) i j (bk_pcs t ! j)"
    proof cases
      case 1
      then show ?thesis using ij l past [of j] bk_orderD [OF inv l ij(3)] by (auto simp: t)
    next
      case 2
      then show ?thesis using ij l behind [of i] bk_orderD [OF inv l ij(3)] by (simp add: t)
    next
      case 3
      then show ?thesis using ij l bk_orderD [OF inv l ij(3)] by (simp add: t)
    qed
  qed
  ultimately show ?thesis by (simp add: bk_inv_def)
qed

text \<open>The store of the label, the only step that changes the labels: it raises the thread's own.\<close>

lemma bk_own_raise:
  assumes "bk_own lab k pc" and "k \<noteq> me" and "me < length lab" and "lab ! me \<le> v"
  shows "bk_own (lab[me := v]) k pc"
  using assms by (cases pc) (auto simp: nth_list_update)

lemma bk_behind_raise:
  assumes "bk_behind lab i j pc" and "i \<noteq> me" and "me < length lab" and "lab ! me \<le> v" and "j \<noteq> me"
  shows "bk_behind (lab[me := v]) i j pc"
  using assms by (cases pc) (auto simp: nth_list_update)

lemma bk_inv_label:
  assumes inv: "bk_inv s" and me: "me < length (bk_pcs s)" and pc: "bk_pcs s ! me = BK_Label m"
  shows "bk_inv (bk_routine me s)"
proof -
  let ?t = "bk_routine me s"
  have t: "bk_pcs ?t = (bk_pcs s)[me := BK_Check 0]" "bk_label ?t = (bk_label s)[me := m + 1]" "bk_flag ?t = bk_flag s"
      "bk_main ?t = bk_main s"
    using pc by (simp_all add: bk_routine_def bk_go_def)
  have m: "bk_label s ! me \<le> m" "bk_flag s ! me" using bk_localD [OF inv me] pc by auto
  have len: "me < length (bk_label s)" using me bk_shapeD(2,5) [OF inv] by simp
  have "bk_shape ?t" using inv by (simp add: bk_inv_def bk_shape_def t)
  moreover have "bk_local ?t"
    unfolding bk_local_def
  proof (intro allI impI)
    fix k assume "k < length (bk_pcs ?t)"
    then have k: "k < length (bk_pcs s)" by (simp add: t)
    show "bk_own (bk_label ?t) k (bk_pcs ?t ! k) \<and> bk_flag ?t ! k = bk_flagged (bk_pcs ?t ! k)"
      using bk_localD [OF inv k] bk_own_raise [OF _ _ len, of k "bk_pcs s ! k" "m + 1"] m me
      by (cases "k = me") (simp_all add: t)
  qed
  moreover have "bk_order ?t"
    unfolding bk_order_def
  proof (intro allI impI, elim conjE)
    fix i j assume ij: "i < length (bk_pcs ?t)" "j < length (bk_pcs ?t)" "i \<noteq> j" "bk_past (bk_pcs ?t ! i) j"
    then have l: "i < length (bk_pcs s)" "j < length (bk_pcs s)" by (simp_all add: t(1))
    have i: "i \<noteq> me" using ij(4) l by (auto simp: t)
    then have b: "bk_behind (bk_label s) i j (bk_pcs s ! j)" using bk_orderD [OF inv l ij(3)] ij(4) by (simp add: t)
    show "bk_behind (bk_label ?t) i j (bk_pcs ?t ! j)"
    proof (cases "j = me")
      case True
      then show ?thesis using b pc i len l by (simp add: t)
    next
      case False
      then show ?thesis using bk_behind_raise [OF b i len _ False, of "m + 1"] m by (simp add: t)
    qed
  qed
  ultimately show ?thesis by (simp add: bk_inv_def)
qed

lemma bk_equal_behind:
  assumes "bk_own lab j pc" and "lab ! i \<le> lab ! j" and "\<not> (lab ! j = lab ! i \<and> j < i)" and "i \<noteq> j"
  shows "bk_behind lab i j pc"
  using assms by (cases pc) auto

lemma bk_routine_inv:
  assumes inv: "bk_inv s" and me: "me < length (bk_pcs s)"
  shows "bk_inv (bk_routine me s)"
proof -
  have own: "bk_own (bk_label s) me (bk_pcs s ! me)" and fl: "bk_flag s ! me = bk_flagged (bk_pcs s ! me)"
    using bk_localD [OF inv me] by auto
  have le: "length (bk_pcs s) \<le> bk_N_THREAD" by (rule bk_shapeD(5) [OF inv])
  have keep: "bk_flag s = (bk_flag s)[me := bk_flagged pc]" if "bk_flagged pc = bk_flagged (bk_pcs s ! me)" for pc
    unfolding that fl [symmetric] by simp
  note move = bk_inv_move [OF inv me]
  show ?thesis
  proof (cases "bk_pcs s ! me")
    case BK_Flag
    then show ?thesis by (intro move [of _ "BK_Max 0 (- 1)"]) (simp_all add: bk_routine_def bk_go_def)
  next
    case (BK_Max k m)
    let ?pc = "max_label k m s"
    have "bk_flagged ?pc" by (simp add: max_label_def)
    then show ?thesis using BK_Max own keep [of ?pc] me le
      by (intro move [of _ ?pc]) (auto simp: bk_routine_def bk_go_def max_label_def less_Suc_eq split: if_splits)
  next
    case (BK_Take k m)
    let ?pc = "BK_Max (Suc k) (bk_label s ! k)"
    show ?thesis using BK_Take own keep [of ?pc]
      by (intro move [of _ ?pc]) (auto simp: bk_routine_def bk_go_def less_Suc_eq)
  next
    case (BK_Label m)
    then show ?thesis by (rule bk_inv_label [OF inv me])
  next
    case (BK_Check k)
    let ?pc = "check_waiting me k s"
    have "bk_flagged ?pc" by (simp add: check_waiting_def)
    moreover have "bk_behind (bk_label s) me k (bk_pcs s ! k)" if "\<not> bk_flag s ! k" "k < length (bk_pcs s)"
      using bk_localD [OF inv that(2)] that(1) by (cases "bk_pcs s ! k") auto
    ultimately show ?thesis using BK_Check own keep [of ?pc] le
      by (intro move [of _ ?pc]) (auto simp: bk_routine_def bk_go_def check_waiting_def less_Suc_eq split: if_splits)
  next
    case (BK_Less k)
    let ?pc = "check_less k me s"
    have "bk_flagged ?pc" by (simp add: check_less_def)
    then show ?thesis using BK_Less own keep [of ?pc]
      by (intro move [of _ ?pc]) (auto simp: bk_routine_def bk_go_def check_less_def split: if_splits)
  next
    case (BK_Equal k)
    let ?pc = "check_equal k me s"
    have f: "bk_flagged ?pc" by (simp add: check_equal_def)
    show ?thesis
    proof (rule move [of _ ?pc])
      fix j assume j: "j < length (bk_pcs s)" "j \<noteq> me" "bk_past ?pc j" "\<not> bk_past (bk_pcs s ! me) j"
      then have "j = k" "\<not> (bk_label s ! k = bk_label s ! me \<and> k < me)"
        using BK_Equal by (auto simp: check_equal_def split: if_splits)
      then show "bk_behind (bk_label s) me j (bk_pcs s ! j)"
        using bk_equal_behind [of "bk_label s" k "bk_pcs s ! k" me] bk_localD [OF inv j(1)] own BK_Equal by simp
    qed (use BK_Equal own keep [of ?pc] f in \<open>auto simp: bk_routine_def bk_go_def check_equal_def\<close>)
  next
    case BK_Read
    then show ?thesis using keep [of "BK_Write (bk_count s)"]
      by (intro move [of _ "BK_Write (bk_count s)"]) (auto simp: bk_routine_def bk_go_def)
  next
    case (BK_Write v)
    then show ?thesis using keep [of BK_Limit] by (intro move [of _ BK_Limit]) (auto simp: bk_routine_def bk_go_def)
  next
    case BK_Limit
    let ?pc = "if bk_count s > bk_ITER then BK_Stop else BK_Unlock"
    show ?thesis using BK_Limit keep [of ?pc] by (intro move [of _ ?pc]) (auto simp: bk_routine_def bk_go_def)
  next
    case BK_Stop
    then show ?thesis using keep [of BK_Unlock] by (intro move [of _ BK_Unlock]) (auto simp: bk_routine_def bk_go_def)
  next
    case BK_Unlock
    then show ?thesis by (intro move [of _ BK_Again]) (auto simp: bk_routine_def bk_go_def)
  next
    case BK_Again
    then show ?thesis
      using keep [of BK_Flag] keep [of BK_Exit] move [of "bk_routine me s" BK_Flag] move [of "bk_routine me s" BK_Exit]
      by (cases "bk_shutdown s") (simp_all add: bk_routine_def bk_go_def)
  next
    case BK_Exit
    then show ?thesis using inv by (simp add: bk_routine_def)
  qed
qed

lemma bakery_main_inv:
  assumes inv: "bk_inv s"
  shows "bk_inv (bakery_main s)"
proof -
  have keep: "bk_inv t" if "bk_label t = bk_label s" "bk_flag t = bk_flag s" "bk_pcs t = bk_pcs s" "bk_shape t" for t
    using inv that by (simp add: bk_inv_def bk_local_def bk_order_def)
  have sh: "bk_shape s" using inv by (simp add: bk_inv_def)
  show ?thesis
  proof (cases "bk_main s")
    case (BM_Join i)
    then show ?thesis using sh by (intro keep) (auto simp: bakery_main_def bk_shape_def)
  next
    case BM_Exit
    then show ?thesis using inv by (simp add: bakery_main_def)
  next
    case (BM_Create i)
    show ?thesis
    proof (cases "i < bk_N_THREAD")
      case False
      then show ?thesis using sh BM_Create by (intro keep) (auto simp: bakery_main_def bk_shape_def)
    next
      case True
      let ?s = "bakery_main s"
      have i: "length (bk_pcs s) = i" using sh BM_Create by (simp add: bk_shape_def)
      have pcs: "bk_pcs ?s = bk_pcs s @ [BK_Flag]" "bk_label ?s = bk_label s" "bk_flag ?s = bk_flag s"
        using BM_Create True by (simp_all add: bakery_main_def)
      have new: "k < i \<and> bk_pcs ?s ! k = bk_pcs s ! k \<or> k = i \<and> bk_pcs ?s ! k = BK_Flag" if "k < length (bk_pcs ?s)" for k
        using that i by (auto simp: pcs nth_append less_Suc_eq)
      have "bk_shape ?s" using sh BM_Create True by (auto simp: bakery_main_def bk_shape_def)
      moreover have "bk_local ?s"
        unfolding bk_local_def pcs(2,3) using new i True bk_localD [OF inv] bk_shapeD(6) [OF inv, of i] by fastforce
      moreover have "bk_order ?s"
        unfolding bk_order_def pcs(2)
      proof (intro allI impI, elim conjE)
        fix a j assume aj: "a < length (bk_pcs ?s)" "j < length (bk_pcs ?s)" "a \<noteq> j" "bk_past (bk_pcs ?s ! a) j"
        then show "bk_behind (bk_label s) a j (bk_pcs ?s ! j)"
          using new [OF aj(1)] new [OF aj(2)] bk_orderD [OF inv, of a j] i by auto
      qed
      ultimately show ?thesis by (simp add: bk_inv_def)
    qed
  qed
qed

section \<open>The flag and the end\<close>

fun bm_joined :: "bk_main \<Rightarrow> nat" where
  "bm_joined (BM_Join i) = i"
| "bm_joined BM_Exit = bk_N_THREAD"
| "bm_joined _ = 0"

definition bk_ends :: "bakery_sys \<Rightarrow> bool" where
  "bk_ends s \<longleftrightarrow> (BK_Stop \<in> set (bk_pcs s) \<longrightarrow> bk_ITER < bk_count s) \<and> (BK_Exit \<in> set (bk_pcs s) \<longrightarrow> bk_shutdown s) \<and>
     (\<forall>k < bm_joined (bk_main s). bk_pcs s ! k = BK_Exit)"

lemma bk_alone:
  assumes inv: "bk_inv s" and me: "me < length (bk_pcs s)" "bk_crit (bk_pcs s ! me)" and pc: "pc \<in> set (bk_pcs s)" "bk_crit pc"
  shows "pc = bk_pcs s ! me"
  using bk_mutex [OF inv me] pc by (metis in_set_conv_nth)

lemma bk_routine_frame: "k \<noteq> me \<Longrightarrow> bk_pcs (bk_routine me s) ! k = bk_pcs s ! k" "bk_main (bk_routine me s) = bk_main s"
  by (cases "bk_pcs s ! me"; simp add: bk_routine_def bk_go_def)+

lemmas bk_scans = max_label_def check_waiting_def check_less_def check_equal_def

lemma bk_ends_routine:
  assumes inv: "bk_inv s" and ends: "bk_ends s" and me: "me < length (bk_pcs s)" "bk_pcs s ! me \<noteq> BK_Exit"
  shows "bk_ends (bk_routine me s)"
proof -
  have stop: "BK_Stop \<in> set (bk_pcs s) \<Longrightarrow> bk_ITER < bk_count s" and exit: "BK_Exit \<in> set (bk_pcs s) \<Longrightarrow> bk_shutdown s"
    using ends by (auto simp: bk_ends_def)
  have "k \<noteq> me" if "k < bm_joined (bk_main s)" for k using ends me(2) that by (auto simp: bk_ends_def)
  then have "\<forall>k < bm_joined (bk_main (bk_routine me s)). bk_pcs (bk_routine me s) ! k = BK_Exit"
    using ends by (simp add: bk_ends_def bk_routine_frame)
  moreover have "BK_Stop \<in> set (bk_pcs (bk_routine me s)) \<longrightarrow> bk_ITER < bk_count (bk_routine me s)"
  proof (cases "bk_pcs s ! me")
    case (BK_Write v)
    then have "BK_Stop \<notin> set (bk_pcs s)" using bk_alone [OF inv me(1), of BK_Stop] by auto
    then show ?thesis using BK_Write by (auto simp: bk_routine_def bk_go_def dest!: member_updateD)
  qed (use stop in \<open>auto simp: bk_routine_def bk_go_def bk_scans dest!: member_updateD split: if_splits\<close>)
  moreover have "BK_Exit \<in> set (bk_pcs (bk_routine me s)) \<longrightarrow> bk_shutdown (bk_routine me s)"
    using exit by (cases "bk_pcs s ! me") (auto simp: bk_routine_def bk_go_def bk_scans dest!: member_updateD split: if_splits)
  ultimately show ?thesis by (simp add: bk_ends_def)
qed

lemma bk_ends_main:
  assumes ends: "bk_ends s" and rdy: "bakery_main_ready s"
  shows "bk_ends (bakery_main s)"
  using ends rdy by (cases "bk_main s") (auto simp: bk_ends_def bakery_main_def bakery_main_ready_def less_Suc_eq)

section \<open>The labels\<close>

text \<open>The threads between the store of their label and that of the counter, and the maximum a thread carries.\<close>

fun bk_inside :: "bk_pc \<Rightarrow> nat" where
  "bk_inside (BK_Check _) = 1"
| "bk_inside (BK_Less _) = 1"
| "bk_inside (BK_Equal _) = 1"
| "bk_inside BK_Read = 1"
| "bk_inside (BK_Write _) = 1"
| "bk_inside _ = 0"

fun bk_carries :: "int \<Rightarrow> bk_pc \<Rightarrow> bool" where
  "bk_carries d (BK_Max _ m) \<longleftrightarrow> m \<le> d"
| "bk_carries d (BK_Take _ m) \<longleftrightarrow> m \<le> d"
| "bk_carries d (BK_Label m) \<longleftrightarrow> m \<le> d"
| "bk_carries d _ \<longleftrightarrow> True"

definition bk_labels :: "bakery_sys \<Rightarrow> bool" where
  "bk_labels s \<longleftrightarrow> 0 \<le> bk_doors s \<and> bk_doors s = bk_incs s + int (tally bk_inside (bk_pcs s)) \<and>
     list_all (\<lambda>l. l \<le> bk_doors s) (bk_label s) \<and> list_all (bk_carries (bk_doors s)) (bk_pcs s)"

lemma bk_carries_mono: "bk_carries d pc \<Longrightarrow> d \<le> e \<Longrightarrow> bk_carries e pc"
  by (cases pc) auto

lemma list_all_updateI: "list_all P xs \<Longrightarrow> P x \<Longrightarrow> list_all P (xs[i := x])"
  by (auto simp: list_all_iff dest!: member_updateD)

lemma list_all_weaken: "list_all P xs \<Longrightarrow> (\<And>x. P x \<Longrightarrow> Q x) \<Longrightarrow> list_all Q xs"
  by (auto simp: list_all_iff)

lemma bk_labels_update:
  assumes lab: "bk_labels s" and me: "me < length (bk_pcs s)"
    and t: "bk_pcs t = (bk_pcs s)[me := pc]" "bk_label t = bk_label s \<or> bk_label t = (bk_label s)[me := v]"
    and v: "bk_label t \<noteq> bk_label s \<Longrightarrow> v \<le> bk_doors t" and c: "bk_carries (bk_doors t) pc"
    and d: "bk_doors s \<le> bk_doors t" "bk_doors t - bk_incs t + int (bk_inside (bk_pcs s ! me)) = bk_doors s - bk_incs s + int (bk_inside pc)"
  shows "bk_labels t"
proof -
  have "bk_doors t = bk_incs t + int (tally bk_inside (bk_pcs t))"
    using lab d(2) tally_others [OF me, of bk_inside] unfolding bk_labels_def t(1) by simp
  moreover have "list_all (bk_carries (bk_doors t)) (bk_pcs t)"
    unfolding t(1) using lab c d(1) by (intro list_all_updateI) (auto simp: bk_labels_def intro: list_all_weaken bk_carries_mono)
  moreover have old: "list_all (\<lambda>l. l \<le> bk_doors t) (bk_label s)"
    using lab d(1) by (auto simp: bk_labels_def list_all_iff)
  then have "list_all (\<lambda>l. l \<le> bk_doors t) (bk_label t)"
    using t(2) v list_all_updateI [OF old] by (cases "bk_label t = bk_label s") auto
  ultimately show ?thesis using lab d(1) by (simp add: bk_labels_def)
qed

lemma bk_labels_routine:
  assumes inv: "bk_inv s" and lab: "bk_labels s" and me: "me < length (bk_pcs s)"
  shows "bk_labels (bk_routine me s)"
proof -
  have c: "bk_carries (bk_doors s) (bk_pcs s ! me)" and d: "0 \<le> bk_doors s" using lab me by (auto simp: bk_labels_def list_all_length)
  have l: "bk_label s ! k \<le> bk_doors s" if "k < bk_N_THREAD" for k
    using lab that bk_shapeD(2) [OF inv] by (auto simp: bk_labels_def list_all_length)
  have own: "bk_own (bk_label s) me (bk_pcs s ! me)" using bk_localD [OF inv me] by simp
  show ?thesis
  proof (cases "bk_pcs s ! me = BK_Exit \<or> (\<exists>m. bk_pcs s ! me = BK_Label m)")
    case True
    then show ?thesis
    proof (elim disjE exE)
      fix m assume "bk_pcs s ! me = BK_Label m"
      then show ?thesis using c d
        by (intro bk_labels_update [OF lab me, of _ "BK_Check 0" "m + 1"]) (auto simp: bk_routine_def bk_go_def)
    qed (use lab in \<open>simp add: bk_routine_def\<close>)
  next
    case False
    then obtain pc where "bk_pcs (bk_routine me s) = (bk_pcs s)[me := pc]" "bk_label (bk_routine me s) = bk_label s"
        "bk_carries (bk_doors (bk_routine me s)) pc" "bk_doors s \<le> bk_doors (bk_routine me s)"
        "bk_doors (bk_routine me s) - bk_incs (bk_routine me s) + int (bk_inside (bk_pcs s ! me)) = bk_doors s - bk_incs s + int (bk_inside pc)"
      using c d l own by (cases "bk_pcs s ! me") (auto simp: bk_routine_def bk_go_def bk_scans)
    then show ?thesis using bk_labels_update [OF lab me] by blast
  qed
qed

lemma bk_labels_main: "bk_labels s \<Longrightarrow> bk_labels (bakery_main s)"
  by (cases "bk_main s") (auto simp: bk_labels_def bakery_main_def)

definition bk_ok :: "bakery_sys \<Rightarrow> bool" where
  "bk_ok s \<longleftrightarrow> bk_inv s \<and> bk_ends s \<and> bk_labels s"

interpretation bakery_run: inductive_invariant bakery_start bakery_step bk_ok
proof
  fix s assume "bakery_start s"
  then show "bk_ok s"
    by (simp add: bakery_start_def bk_ok_def bk_ends_def bk_inv_def bk_shape_def bk_local_def bk_order_def bk_labels_def list_all_iff)
next
  fix s t assume "bk_ok s" "bakery_step s t"
  from this(2,1) show "bk_ok t"
    by cases (simp_all add: bk_ok_def bk_routine_inv bakery_main_inv bk_ends_routine bk_ends_main bk_labels_routine bk_labels_main)
qed

section \<open>The counter\<close>

definition bk_copy :: "bakery_sys \<Rightarrow> nat \<Rightarrow> int option" where
  "bk_copy s i = (if i < length (bk_pcs s) then case bk_pcs s ! i of BK_Write v \<Rightarrow> Some v | _ \<Rightarrow> None else None)"

lemma bk_copy_crit: "bk_copy s i = Some v \<Longrightarrow> i < length (bk_pcs s) \<and> bk_crit (bk_pcs s ! i)"
  by (auto simp: bk_copy_def split: if_splits bk_pc.splits)

lemma bk_copy_routine:
  assumes "me < length (bk_pcs s)"
  shows "(bk_count (bk_routine me s) = bk_count s \<and> bk_incs (bk_routine me s) = bk_incs s \<and>
      (\<forall>i. bk_copy (bk_routine me s) i = bk_copy s i \<or> bk_copy (bk_routine me s) i = Some (bk_count s))) \<or>
    (\<exists>i v. bk_copy s i = Some v \<and> bk_count (bk_routine me s) = v + 1 \<and> bk_incs (bk_routine me s) = bk_incs s + 1 \<and>
      bk_copy (bk_routine me s) i = None \<and> (\<forall>j. j \<noteq> i \<longrightarrow> bk_copy (bk_routine me s) j = bk_copy s j))"
proof (cases "\<exists>v. bk_pcs s ! me = BK_Write v")
  case True
  then obtain v where v: "bk_pcs s ! me = BK_Write v" by blast
  then have "bk_copy s me = Some v" using assms by (simp add: bk_copy_def)
  moreover have "bk_copy (bk_routine me s) j = (if j = me then None else bk_copy s j)" for j
    using v assms by (simp add: bk_copy_def bk_routine_def bk_go_def)
  ultimately show ?thesis using v by (intro disjI2 exI [of _ me] exI [of _ v]) (simp add: bk_routine_def bk_go_def)
next
  case False
  have other: "bk_copy (bk_routine me s) i = bk_copy s i" if "i \<noteq> me" for i
    using that by (cases "bk_pcs s ! me") (auto simp: bk_copy_def bk_routine_def bk_go_def)
  have "bk_copy (bk_routine me s) me = bk_copy s me \<or> bk_copy (bk_routine me s) me = Some (bk_count s)"
    using False assms by (cases "bk_pcs s ! me") (auto simp: bk_copy_def bk_routine_def bk_go_def bk_scans)
  moreover have "bk_count (bk_routine me s) = bk_count s" "bk_incs (bk_routine me s) = bk_incs s"
    using False by (cases "bk_pcs s ! me"; simp add: bk_routine_def bk_go_def)+
  ultimately show ?thesis using other by metis
qed

interpretation bakery_counter: counted_section bk_ok bakery_step bk_copy bk_count bk_incs
proof
  fix s i j v w assume "bk_ok s" "bk_copy s i = Some v" "bk_copy s j = Some w"
  then show "i = j" using bk_copy_crit bk_mutex unfolding bk_ok_def by blast
next
  fix s t assume "bk_ok s" and "bakery_step s t"
  from this(2) show "(bk_count t = bk_count s \<and> bk_incs t = bk_incs s \<and> (\<forall>i. bk_copy t i = bk_copy s i \<or> bk_copy t i = Some (bk_count s))) \<or>
    (\<exists>i v. bk_copy s i = Some v \<and> bk_count t = v + 1 \<and> bk_incs t = bk_incs s + 1 \<and> bk_copy t i = None \<and>
       (\<forall>j. j \<noteq> i \<longrightarrow> bk_copy t j = bk_copy s j))"
  proof cases
    case (thread me)
    then show ?thesis using bk_copy_routine by simp
  next
    case main
    have "bk_copy (bakery_main s) i = bk_copy s i" for i
      by (cases "bk_main s") (auto simp: bk_copy_def bakery_main_def nth_append less_Suc_eq)
    moreover have "bk_count (bakery_main s) = bk_count s" "bk_incs (bakery_main s) = bk_incs s"
      by (cases "bk_main s"; simp add: bakery_main_def)+
    ultimately show ?thesis using main by simp
  qed
next
  fix s t assume "bk_ok s" "bakery_step s t"
  then show "bk_ok t" by (rule bakery_run.step_inv)
qed

section \<open>The final value\<close>

text \<open>The threads that will still increment the counter, those not created yet among them.\<close>

fun bk_pending :: "bk_pc \<Rightarrow> nat" where
  "bk_pending BK_Limit = 0"
| "bk_pending BK_Stop = 0"
| "bk_pending BK_Unlock = 0"
| "bk_pending BK_Again = 0"
| "bk_pending BK_Exit = 0"
| "bk_pending _ = 1"

definition bk_left :: "bakery_sys \<Rightarrow> nat" where
  "bk_left s = tally bk_pending (bk_pcs s) + (bk_N_THREAD - length (bk_pcs s))"

definition bk_deciding :: "bakery_sys \<Rightarrow> bool" where
  "bk_deciding s \<longleftrightarrow> BK_Limit \<in> set (bk_pcs s) \<or> BK_Stop \<in> set (bk_pcs s)"

lemma bk_left_update:
  assumes "me < length (bk_pcs s)" and "bk_pcs t = (bk_pcs s)[me := pc]"
  shows "bk_left t + bk_pending (bk_pcs s ! me) = bk_left s + bk_pending pc"
  using assms tally_others [OF assms(1), of bk_pending] by (simp add: bk_left_def)

lemma bk_left_less:
  assumes me: "me < length (bk_pcs s)" "bk_pending (bk_pcs s ! me) = 0" and le: "length (bk_pcs s) \<le> bk_N_THREAD"
  shows "bk_left s < bk_N_THREAD"
proof -
  have one: "bk_pending pc \<le> 1" for pc by (cases pc) auto
  then have "tally bk_pending xs \<le> length xs" for xs
    by (induction xs) (simp_all add: add_mono [of _ "Suc 0", simplified])
  from this [of "(bk_pcs s)[me := BK_Read]"] tally_others [OF me(1), of bk_pending] me(2)
  have "tally bk_pending (bk_pcs s) < length (bk_pcs s)" by simp
  then show ?thesis using le by (simp add: bk_left_def)
qed

text \<open>Steps that leave the counter and the flag alone.\<close>

lemma bk_quiet:
  assumes me: "me < length (bk_pcs s)"
    and t: "bk_pcs t = (bk_pcs s)[me := pc]"
    and p: "bk_shutdown s \<Longrightarrow> bk_pending pc \<le> bk_pending (bk_pcs s ! me)"
    and w: "bk_pcs s ! me = BK_Limit \<Longrightarrow> pc = BK_Stop \<or> bk_count s \<le> bk_ITER" "bk_pcs s ! me \<noteq> BK_Stop"
  shows "(bk_shutdown s \<longrightarrow> bk_left t \<le> bk_left s) \<and> (bk_deciding s \<longrightarrow> bk_deciding t \<or> bk_count s \<le> bk_ITER)"
proof -
  have "BK_Stop \<in> set (bk_pcs t)" if "BK_Stop \<in> set (bk_pcs s)"
    using member_update [OF that w(2)] by (simp add: t)
  moreover have "bk_deciding t \<or> bk_count s \<le> bk_ITER" if "BK_Limit \<in> set (bk_pcs s)"
    using member_update [OF that, of me pc] w(1) set_update_memI [OF me, of pc] by (auto simp: t bk_deciding_def)
  ultimately show ?thesis using p bk_left_update [OF me t] by (auto simp: bk_deciding_def)
qed

lemma bk_copy_at: "me < length (bk_pcs s) \<Longrightarrow> bk_pcs s ! me = BK_Write v \<Longrightarrow> bk_copy s me = Some v"
  by (simp add: bk_copy_def)

lemma bk_copy_exact: "bakery_counter.exact s \<Longrightarrow> me < length (bk_pcs s) \<Longrightarrow> bk_pcs s ! me = BK_Write v \<Longrightarrow> v = bk_count s"
  using bk_copy_at unfolding bakery_counter.exact_def by blast

lemma bk_routine_quiet:
  assumes me: "me < length (bk_pcs s)" "bk_pcs s ! me \<noteq> BK_Stop" "\<And>v. bk_pcs s ! me \<noteq> BK_Write v" "bk_pcs s ! me \<noteq> BK_Exit"
  shows "bk_count (bk_routine me s) = bk_count s \<and> bk_shutdown (bk_routine me s) = bk_shutdown s \<and>
    (bk_shutdown s \<longrightarrow> bk_left (bk_routine me s) \<le> bk_left s) \<and>
    (bk_deciding s \<longrightarrow> bk_deciding (bk_routine me s) \<or> bk_count s \<le> bk_ITER)"
proof -
  have "\<exists>pc. bk_pcs (bk_routine me s) = (bk_pcs s)[me := pc] \<and> (bk_shutdown s \<longrightarrow> bk_pending pc \<le> bk_pending (bk_pcs s ! me)) \<and>
      (bk_pcs s ! me = BK_Limit \<longrightarrow> pc = BK_Stop \<or> bk_count s \<le> bk_ITER)"
    using me by (cases "bk_pcs s ! me") (auto simp: bk_routine_def bk_go_def bk_scans)
  then show ?thesis using me bk_quiet [OF me(1), of "bk_routine me s"]
    by (cases "bk_pcs s ! me") (auto simp: bk_routine_def bk_go_def)
qed

lemma bk_routine_moves:
  assumes ok: "bk_ok s" and ex: "bakery_counter.exact s" and me: "me < length (bk_pcs s)" "bk_pcs s ! me \<noteq> BK_Exit"
  defines "t \<equiv> bk_routine me s"
  shows "(bk_count t = bk_count s \<and> bk_shutdown t = bk_shutdown s \<and> (bk_shutdown s \<longrightarrow> bk_left t \<le> bk_left s) \<and>
       (bk_deciding s \<longrightarrow> bk_deciding t \<or> bk_count s \<le> bk_ITER)) \<or>
     (bk_count t = bk_count s + 1 \<and> bk_shutdown t = bk_shutdown s \<and> bk_left t < bk_left s \<and> bk_deciding t \<and> \<not> bk_deciding s) \<or>
     (bk_count t = bk_count s \<and> bk_shutdown t \<and> bk_ITER < bk_count s \<and> bk_left t < bk_N_THREAD \<and> bk_left t \<le> bk_left s)"
proof (cases "bk_pcs s ! me")
  case (BK_Write v)
  have inv: "bk_inv s" using ok by (simp add: bk_ok_def)
  have t: "bk_pcs t = (bk_pcs s)[me := BK_Limit]" "bk_count t = bk_count s + 1" "bk_shutdown t = bk_shutdown s"
    using BK_Write bk_copy_exact [OF ex me(1) BK_Write] by (simp_all add: t_def bk_routine_def bk_go_def)
  have "bk_deciding t" using set_update_memI [OF me(1)] by (simp add: t(1) bk_deciding_def)
  moreover have "\<not> bk_deciding s"
    using bk_alone [OF inv me(1), of BK_Limit] bk_alone [OF inv me(1), of BK_Stop] BK_Write by (auto simp: bk_deciding_def)
  moreover have "bk_left t < bk_left s" using bk_left_update [OF me(1) t(1)] BK_Write by simp
  ultimately show ?thesis using t by simp
next
  case BK_Stop
  have inv: "bk_inv s" using ok by (simp add: bk_ok_def)
  have t: "bk_pcs t = (bk_pcs s)[me := BK_Unlock]" "bk_count t = bk_count s" "bk_shutdown t"
    using BK_Stop by (simp_all add: t_def bk_routine_def bk_go_def)
  have "BK_Stop \<in> set (bk_pcs s)" using BK_Stop me(1) by (metis nth_mem)
  then have "bk_ITER < bk_count s" using ok by (simp add: bk_ok_def bk_ends_def)
  moreover have "bk_left t = bk_left s" using bk_left_update [OF me(1) t(1)] BK_Stop by simp
  moreover have "bk_left s < bk_N_THREAD" using bk_left_less [OF me(1) _ bk_shapeD(5) [OF inv]] BK_Stop by simp
  ultimately show ?thesis using t by simp
qed (use bk_routine_quiet [OF me(1)] me(2) in \<open>simp_all add: t_def\<close>)

interpretation bakery_limit: bounded_section bk_ok bakery_step bk_copy bk_count bk_incs bk_ITER bk_N_THREAD bk_shutdown bk_deciding bk_left
proof
  fix s t assume ok: "bk_ok s" and ex: "bakery_counter.exact s" and "bakery_step s t"
  from this(3) show "(bk_count t = bk_count s \<and> bk_shutdown t = bk_shutdown s \<and> (bk_shutdown s \<longrightarrow> bk_left t \<le> bk_left s) \<and>
       (bk_deciding s \<longrightarrow> bk_deciding t \<or> bk_count s \<le> bk_ITER)) \<or>
     (bk_count t = bk_count s + 1 \<and> bk_shutdown t = bk_shutdown s \<and> bk_left t < bk_left s \<and> bk_deciding t \<and> \<not> bk_deciding s) \<or>
     (bk_count t = bk_count s \<and> bk_shutdown t \<and> bk_ITER < bk_count s \<and> bk_left t < bk_N_THREAD \<and> bk_left t \<le> bk_left s)"
  proof cases
    case (thread me)
    then show ?thesis using bk_routine_moves [OF ok ex] by simp
  next
    case main
    have inv: "bk_inv s" using ok by (simp add: bk_ok_def)
    have "bk_left (bakery_main s) = bk_left s"
      using bk_shapeD(3,4) [OF inv] by (cases "bk_main s") (auto simp: bk_left_def bakery_main_def)
    moreover have "bk_deciding (bakery_main s) = bk_deciding s" "bk_count (bakery_main s) = bk_count s"
        "bk_shutdown (bakery_main s) = bk_shutdown s"
      by (cases "bk_main s"; simp add: bk_deciding_def bakery_main_def)+
    ultimately show ?thesis using main by simp
  qed
qed

lemma bakery_reachable:
  assumes "reachable bakery_start bakery_step s"
  shows "bk_ok s \<and> bakery_counter.exact s \<and> bakery_limit.limited s"
proof (rule bakery_limit.limited_reachable [OF assms])
  fix s assume st: "bakery_start s"
  then have "\<not> bk_shutdown s" "bk_count s \<le> bk_ITER" by (simp_all add: bakery_start_def bk_ITER_def)
  moreover have "bakery_counter.exact s" using st by (simp add: bakery_start_def bakery_counter.exact_def bk_copy_def)
  ultimately have "bakery_counter.exact s" "bakery_limit.limited s" by (simp_all add: bakery_limit.limited_def)
  then show "bk_ok s \<and> bakery_counter.exact s \<and> bakery_limit.limited s" using bakery_run.init_inv [OF st] by simp
qed

lemma bk_final:
  assumes "bk_ok s" and "bakery_limit.limited s" and "bk_main s = BM_Exit"
  shows "bk_ITER < bk_count s \<and> bk_count s \<le> bk_ITER + int bk_N_THREAD"
proof -
  have len: "length (bk_pcs s) = bk_N_THREAD" using assms bk_shapeD(4) by (simp add: bk_ok_def)
  then have "BK_Exit \<in> set (bk_pcs s)" using assms nth_mem [of 0 "bk_pcs s"] by (simp add: bk_ok_def bk_ends_def bk_N_THREAD_def)
  then have "bk_shutdown s" using assms by (simp add: bk_ok_def bk_ends_def)
  then show ?thesis using assms by (auto simp: bakery_limit.limited_def)
qed

end
