(* ===== verification/Lock_Properties.thy ===== *)
theory Lock_Properties
  imports Filter_Lock Bakery_Lock
begin

text \<open>
  What the two lock programs of \<^verbatim>\<open>proof/\<close> demonstrate, as theorems over every interleaving: mutual exclusion,
  no lost increment, the bounds of the final counter, and progress.
\<close>

section \<open>Runs of the filter lock\<close>

fun filter_act :: "nat option \<Rightarrow> filter_sys \<Rightarrow> filter_sys option" where
  "filter_act (Some me) s = (if me < length (fl_pcs s) \<and> fl_pcs s ! me \<noteq> FL_Exit then Some (routine me s) else None)"
| "filter_act None s = (if filter_main_ready s then Some (filter_main s) else None)"

lemma filter_act_step: "filter_act a s = Some t \<Longrightarrow> filter_step s t"
  by (cases a) (auto split: if_splits intro: filter_step.intros)

definition filter_fresh :: filter_sys where
  "filter_fresh = \<lparr>level = [0, 0, 0, 0, 0, 0, 0, 0], victim = [0, 0, 0, 0, 0, 0, 0, 0], t_id = [0, 0, 0, 0, 0, 0, 0, 0], fl_count = 0,
     fl_shutdown = False, fl_pcs = [], fl_main = FM_Id 0, fl_incs = 0\<rparr>"

lemma filter_fresh_start: "filter_start filter_fresh"
  by (simp add: filter_start_def filter_fresh_def fl_N_THREAD_def eval_nat_numeral)

lemma filter_sched: "sched filter_act as filter_fresh = Some t \<Longrightarrow> reachable filter_start filter_step t"
  by (erule sched_reachable [OF _ reachable.start [where init = filter_start, OF filter_fresh_start] filter_act_step])

text \<open>All threads created, nobody started, the counter at \<open>c\<close>.\<close>

definition filter_ready :: "nat list \<Rightarrow> int \<Rightarrow> filter_sys" where
  "filter_ready v c = \<lparr>level = [0, 0, 0, 0, 0, 0, 0, 0], victim = v, t_id = [0, 1, 2, 3, 4, 5, 6, 7], fl_count = c,
     fl_shutdown = False, fl_pcs = replicate 8 (FL_Level 1), fl_main = FM_Join 0, fl_incs = c\<rparr>"

lemmas filter_eval = routine_def check_k_def fl_next_def fl_go_def filter_main_def filter_main_ready_def fl_N_THREAD_def fl_ITER_def

lemma filter_creates: "sched filter_act (replicate 17 None) filter_fresh = Some (filter_ready [0, 0, 0, 0, 0, 0, 0, 0] 0)"
  by (simp add: filter_fresh_def filter_ready_def filter_eval replicate_numeral)

lemma filter_lap:
  assumes "c < 100"
  shows "sched filter_act (replicate 82 (Some 0)) (filter_ready [0, 0, 0, 0, 0, 0, 0, 0] c) = Some (filter_ready [0, 0, 0, 0, 0, 0, 0, 0] (c + 1))"
  using assms by (simp add: filter_ready_def filter_eval replicate_numeral)

definition filter_laps :: "nat \<Rightarrow> nat option list" where
  "filter_laps n = concat (replicate n (replicate 82 (Some 0)))"

lemma filter_laps_run:
  "n \<le> 100 \<Longrightarrow> sched filter_act (filter_laps n) (filter_ready [0, 0, 0, 0, 0, 0, 0, 0] 0) = Some (filter_ready [0, 0, 0, 0, 0, 0, 0, 0] (int n))"
proof (induction n)
  case (Suc n)
  have "filter_laps (Suc n) = filter_laps n @ replicate 82 (Some 0)"
    by (simp add: filter_laps_def replicate_append_same [symmetric])
  then show ?case using Suc filter_lap [of "int n"] by (simp add: sched_append add.commute)
qed (simp add: filter_laps_def)

text \<open>The flag is set, the threads before \<open>k\<close> have ended, the counter is \<open>100 + k\<close>.\<close>

definition filter_ending :: "nat \<Rightarrow> filter_sys" where
  "filter_ending k = \<lparr>level = [0, 0, 0, 0, 0, 0, 0, 0], victim = [0, k - 1, k - 1, k - 1, k - 1, k - 1, k - 1, k - 1],
     t_id = [0, 1, 2, 3, 4, 5, 6, 7], fl_count = 100 + int k, fl_shutdown = True,
     fl_pcs = replicate k FL_Exit @ replicate (8 - k) (FL_Level 1), fl_main = FM_Join 0, fl_incs = 100 + int k\<rparr>"

lemma filter_last_lap:
  "sched filter_act (replicate 83 (Some 0)) (filter_ready [0, 0, 0, 0, 0, 0, 0, 0] 100) = Some (filter_ending 1)"
  by (simp add: filter_ready_def filter_ending_def filter_eval replicate_numeral)

lemma filter_end_laps:
  "sched filter_act (replicate 83 (Some 1)) (filter_ending 1) = Some (filter_ending 2)"
  "sched filter_act (replicate 83 (Some 2)) (filter_ending 2) = Some (filter_ending 3)"
  "sched filter_act (replicate 83 (Some 3)) (filter_ending 3) = Some (filter_ending 4)"
  "sched filter_act (replicate 83 (Some 4)) (filter_ending 4) = Some (filter_ending 5)"
  "sched filter_act (replicate 83 (Some 5)) (filter_ending 5) = Some (filter_ending 6)"
  "sched filter_act (replicate 83 (Some 6)) (filter_ending 6) = Some (filter_ending 7)"
  "sched filter_act (replicate 83 (Some 7)) (filter_ending 7) = Some (filter_ending 8)"
  by (simp_all add: filter_ending_def filter_eval replicate_numeral)

lemma filter_joins:
  "sched filter_act (replicate 9 None) (filter_ending 8) = Some ((filter_ending 8)\<lparr>fl_main := FM_Exit\<rparr>)"
  by (simp add: filter_ending_def filter_eval replicate_numeral)

definition filter_final :: filter_sys where
  "filter_final = (filter_ending 8)\<lparr>fl_main := FM_Exit\<rparr>"

lemma filter_final_run:
  "sched filter_act (replicate 17 None @ filter_laps 100 @ replicate 83 (Some 0) @ replicate 83 (Some 1) @ replicate 83 (Some 2) @
     replicate 83 (Some 3) @ replicate 83 (Some 4) @ replicate 83 (Some 5) @ replicate 83 (Some 6) @ replicate 83 (Some 7) @
     replicate 9 None) filter_fresh = Some filter_final"
  unfolding sched_append filter_creates option.case filter_laps_run [of 100, simplified] filter_last_lap filter_end_laps filter_joins
  by (simp add: filter_final_def)

text \<open>All threads in the wait of the first round.\<close>

definition filter_crowd :: filter_sys where
  "filter_crowd = \<lparr>level = [1, 1, 1, 1, 1, 1, 1, 1], victim = [0, 7, 0, 0, 0, 0, 0, 0], t_id = [0, 1, 2, 3, 4, 5, 6, 7], fl_count = 0,
     fl_shutdown = False, fl_pcs = replicate 8 (FL_Check 1 0), fl_main = FM_Join 0, fl_incs = 0\<rparr>"

lemma filter_crowd_run:
  "sched filter_act (replicate 17 None @ [Some 0, Some 0, Some 1, Some 1, Some 2, Some 2, Some 3, Some 3, Some 4, Some 4, Some 5, Some 5,
     Some 6, Some 6, Some 7, Some 7]) filter_fresh = Some filter_crowd"
  unfolding sched_append filter_creates option.case
  by (simp add: filter_ready_def filter_crowd_def filter_eval replicate_numeral)

section \<open>The filter lock\<close>

text \<open>
  C29: in every interleaving of the filter-lock program, at the granularity of single shared accesses, at most
  one of the eight threads is in the critical section; no increment is lost, so \<^verbatim>\<open>count\<close> is the number of
  increments; it never exceeds \<^verbatim>\<open>ITER + N_THREAD\<close>, and when \<^verbatim>\<open>main\<close> has joined all threads it exceeds \<^verbatim>\<open>ITER\<close>.
\<close>

theorem filter_lock_correct:
  assumes "reachable filter_start filter_step s"
  shows "(\<forall>i j. i < length (fl_pcs s) \<and> j < length (fl_pcs s) \<and> fl_crit (fl_pcs s ! i) \<and> fl_crit (fl_pcs s ! j) \<longrightarrow> i = j) \<and>
    fl_count s = fl_incs s \<and> fl_count s \<le> fl_ITER + int fl_N_THREAD \<and>
    (fl_main s = FM_Exit \<longrightarrow> fl_ITER < fl_count s)"
proof -
  have s: "fl_ok s" "filter_counter.exact s" "filter_limit.limited s" using filter_reachable [OF assms] by auto
  have "fl_inv s" using s(1) by (simp add: fl_ok_def)
  then have "\<forall>i j. i < length (fl_pcs s) \<and> j < length (fl_pcs s) \<and> fl_crit (fl_pcs s ! i) \<and> fl_crit (fl_pcs s ! j) \<longrightarrow> i = j"
    using fl_mutex by blast
  moreover have "fl_count s = fl_incs s" using s(2) by (simp only: filter_counter.exact_def)
  moreover have "fl_count s \<le> fl_ITER + int fl_N_THREAD" by (rule filter_limit.limited_le [OF s(3)]) (simp add: fl_N_THREAD_def)
  ultimately show ?thesis using fl_final [OF s(1,3)] by blast
qed

theorem filter_lock_correct_witness:
  "fl_main filter_final = FM_Exit \<and> fl_ITER < fl_count filter_final \<and> fl_count filter_final \<le> fl_ITER + int fl_N_THREAD \<and> fl_incs filter_final = 108"
  using filter_lock_correct [OF filter_sched [OF filter_final_run]] by (simp add: filter_final_def filter_ending_def)

text \<open>
  C30: the filter lock does not deadlock: whenever every thread waits in some round or has ended, one of the
  waiting threads leaves its round within ten of its own steps, even if no other thread moves.
\<close>

theorem filter_lock_progress:
  assumes "reachable filter_start filter_step s"
    and "length (fl_pcs s) = fl_N_THREAD"
    and "\<And>j. j < fl_N_THREAD \<Longrightarrow> fl_round (fl_pcs s ! j) \<noteq> None \<or> fl_pcs s ! j = FL_Exit"
    and "i < fl_N_THREAD" "fl_pcs s ! i \<noteq> FL_Exit"
  shows "\<exists>me r n. me < fl_N_THREAD \<and> fl_round (fl_pcs s ! me) = Some r \<and> n \<le> 10 \<and>
    fl_pcs ((routine me ^^ n) s) ! me = fl_next r"
proof -
  have "fl_inv s" using filter_reachable [OF assms(1)] by (simp add: fl_ok_def)
  from fl_progress [OF this assms(2-5)] obtain me r n where
    *: "me < fl_N_THREAD" "fl_round (fl_pcs s ! me) = Some r" "n \<le> fl_N_THREAD + 2" "(routine me ^^ n) s = fl_go me (fl_next r) s"
    by blast
  then have "fl_pcs ((routine me ^^ n) s) ! me = fl_next r" using assms(2) by (simp add: fl_go_def)
  moreover have "n \<le> 10" using *(3) by (simp add: fl_N_THREAD_def)
  ultimately show ?thesis using *(1,2) by blast
qed

theorem filter_lock_progress_witness:
  "fl_pcs filter_crowd = replicate 8 (FL_Check 1 0) \<and>
   (\<exists>me r n. me < fl_N_THREAD \<and> fl_round (fl_pcs filter_crowd ! me) = Some r \<and> n \<le> 10 \<and>
      fl_pcs ((routine me ^^ n) filter_crowd) ! me = fl_next r)"
proof
  show "fl_pcs filter_crowd = replicate 8 (FL_Check 1 0)" by (simp add: filter_crowd_def)
  then show "\<exists>me r n. me < fl_N_THREAD \<and> fl_round (fl_pcs filter_crowd ! me) = Some r \<and> n \<le> 10 \<and>
      fl_pcs ((routine me ^^ n) filter_crowd) ! me = fl_next r"
    by (intro filter_lock_progress [OF filter_sched [OF filter_crowd_run], of 0]) (simp_all add: fl_N_THREAD_def)
qed

section \<open>Runs of the bakery lock\<close>

fun bakery_act :: "nat option \<Rightarrow> bakery_sys \<Rightarrow> bakery_sys option" where
  "bakery_act (Some me) s = (if me < length (bk_pcs s) \<and> bk_pcs s ! me \<noteq> BK_Exit then Some (bk_routine me s) else None)"
| "bakery_act None s = (if bakery_main_ready s then Some (bakery_main s) else None)"

lemma bakery_act_step: "bakery_act a s = Some t \<Longrightarrow> bakery_step s t"
  by (cases a) (auto split: if_splits intro: bakery_step.intros)

definition bakery_fresh :: bakery_sys where
  "bakery_fresh = \<lparr>bk_flag = [False, False, False], bk_label = [0, 0, 0], bk_count = 0, bk_shutdown = False, bk_pcs = [],
     bk_main = BM_Create 0, bk_incs = 0, bk_doors = 0\<rparr>"

lemma bakery_fresh_start: "bakery_start bakery_fresh"
  by (simp add: bakery_start_def bakery_fresh_def bk_N_THREAD_def eval_nat_numeral)

lemma bakery_sched: "sched bakery_act as bakery_fresh = Some t \<Longrightarrow> reachable bakery_start bakery_step t"
  by (erule sched_reachable [OF _ reachable.start [where init = bakery_start, OF bakery_fresh_start] bakery_act_step])

lemmas bakery_eval = bk_routine_def bk_scans bk_go_def bakery_main_def bakery_main_ready_def bk_N_THREAD_def bk_ITER_def

definition bakery_final :: bakery_sys where
  "bakery_final = \<lparr>bk_flag = [False, False, False], bk_label = [16, 17, 18], bk_count = 18, bk_shutdown = True,
     bk_pcs = [BK_Exit, BK_Exit, BK_Exit], bk_main = BM_Exit, bk_incs = 18, bk_doors = 18\<rparr>"

lemma bakery_final_run:
  "sched bakery_act (replicate 4 None @ replicate 257 (Some 0) @ replicate 17 (Some 1) @ replicate 18 (Some 2) @ replicate 4 None) bakery_fresh
     = Some bakery_final"
  by (simp add: bakery_fresh_def bakery_final_def bakery_eval replicate_numeral)

section \<open>The bakery lock\<close>

lemma bk_label_bound:
  assumes "bk_ok s" and "bk_count s = bk_incs s" and "bk_count s \<le> bk_ITER + int bk_N_THREAD" and "l \<in> set (bk_label s)"
  shows "l \<le> bk_ITER + 2 * int bk_N_THREAD"
proof -
  have one: "bk_inside pc \<le> 1" for pc by (cases pc) auto
  then have "tally bk_inside xs \<le> length xs" for xs
    by (induction xs) (simp_all add: add_mono [of _ "Suc 0", simplified])
  from this [of "bk_pcs s"] have "tally bk_inside (bk_pcs s) \<le> bk_N_THREAD" using assms(1) bk_shapeD(5) [of s] by (simp add: bk_ok_def)
  then show ?thesis using assms by (auto simp: bk_ok_def bk_labels_def list_all_iff)
qed

text \<open>
  C31: in every interleaving of the bakery-lock program at most one of the three threads is in the critical
  section; no increment is lost; the labels stay at most \<^verbatim>\<open>ITER + 2 N_THREAD\<close>, so the label arithmetic does not
  overflow; and when \<^verbatim>\<open>main\<close> has joined all threads, \<^verbatim>\<open>count\<close> exceeds \<^verbatim>\<open>ITER\<close> by at most \<^verbatim>\<open>N_THREAD\<close>.
\<close>

theorem bakery_lock_correct:
  assumes "reachable bakery_start bakery_step s"
  shows "(\<forall>i j. i < length (bk_pcs s) \<and> j < length (bk_pcs s) \<and> bk_crit (bk_pcs s ! i) \<and> bk_crit (bk_pcs s ! j) \<longrightarrow> i = j) \<and>
    bk_count s = bk_incs s \<and> bk_count s \<le> bk_ITER + int bk_N_THREAD \<and>
    list_all (\<lambda>l. l \<le> bk_ITER + 2 * int bk_N_THREAD) (bk_label s) \<and>
    (bk_main s = BM_Exit \<longrightarrow> bk_ITER < bk_count s)"
proof -
  have s: "bk_ok s" "bakery_counter.exact s" "bakery_limit.limited s" using bakery_reachable [OF assms] by auto
  have "bk_inv s" using s(1) by (simp add: bk_ok_def)
  then have "\<forall>i j. i < length (bk_pcs s) \<and> j < length (bk_pcs s) \<and> bk_crit (bk_pcs s ! i) \<and> bk_crit (bk_pcs s ! j) \<longrightarrow> i = j"
    using bk_mutex by blast
  moreover have c: "bk_count s = bk_incs s" using s(2) by (simp only: bakery_counter.exact_def)
  moreover have le: "bk_count s \<le> bk_ITER + int bk_N_THREAD" by (rule bakery_limit.limited_le [OF s(3)]) (simp add: bk_N_THREAD_def)
  moreover have "list_all (\<lambda>l. l \<le> bk_ITER + 2 * int bk_N_THREAD) (bk_label s)"
    using bk_label_bound [OF s(1) c le] by (simp add: list_all_iff)
  ultimately show ?thesis using bk_final [OF s(1,3)] by blast
qed

theorem bakery_lock_correct_witness:
  "bk_main bakery_final = BM_Exit \<and> bk_ITER < bk_count bakery_final \<and> bk_count bakery_final = 18 \<and>
   list_all (\<lambda>l. l \<le> bk_ITER + 2 * int bk_N_THREAD) (bk_label bakery_final)"
  using bakery_lock_correct [OF bakery_sched [OF bakery_final_run]] by (simp add: bakery_final_def)

end
