(* ===== verification/Http_Log.thy ===== *)
theory Http_Log
  imports Decimal "HOL-Library.Monad_Syntax"
begin

text \<open>
  The request log of the HTTP demonstration (\<^verbatim>\<open>demo/http_server.c\<close>, \<^verbatim>\<open>log_ring_t\<close> and its functions): a ring of
  256 lines of at most 255 characters. Each function is one critical section of the ring's mutex. A C string is
  the list of its characters before the terminating zero.
\<close>

section \<open>The ring\<close>

definition LOG_RING_SIZE :: nat where "LOG_RING_SIZE = 256"

definition LOG_LINE_MAX :: nat where "LOG_LINE_MAX = 256"

record log_ring_t =
  ring_lines :: "string list"
  ring_start :: nat
  ring_count :: nat

definition log_ring_init :: log_ring_t where
  "log_ring_init = \<lparr>ring_lines = replicate LOG_RING_SIZE [], ring_start = 0, ring_count = 0\<rparr>"

definition log_ring_append :: "log_ring_t \<Rightarrow> string \<Rightarrow> log_ring_t option" where
  "log_ring_append ring line = do {
     let pos = (ring_start ring + ring_count ring) mod LOG_RING_SIZE;
     let (pos, ring) =
       (if ring_count ring = LOG_RING_SIZE
        then (ring_start ring, ring\<lparr>ring_start := (ring_start ring + 1) mod LOG_RING_SIZE\<rparr>)
        else (pos, ring\<lparr>ring_count := ring_count ring + 1\<rparr>));
     ls \<leftarrow> array_set (ring_lines ring) (int pos) (snprintf LOG_LINE_MAX line);
     Some (ring\<lparr>ring_lines := ls\<rparr>)
   }"

text \<open>
  The loop of \<^verbatim>\<open>log_ring_copy\<close> from index \<open>i\<close>, with \<open>n\<close> lines left; \<open>buf\<close> is the text before \<^verbatim>\<open>used\<close>, which is its
  length. A line that does not fit is cut, and the loop left.
\<close>

fun copy_lines :: "log_ring_t \<Rightarrow> nat \<Rightarrow> nat \<Rightarrow> nat \<Rightarrow> string \<Rightarrow> string option" where
  "copy_lines ring len 0 i buf = Some buf"
| "copy_lines ring len (Suc n) i buf =
     (if length buf < len then do {
        let pos = (ring_start ring + i) mod LOG_RING_SIZE;
        line \<leftarrow> array_get (ring_lines ring) (int pos);
        if length line \<ge> len - length buf
        then Some (buf @ snprintf (len - length buf) line)
        else copy_lines ring len n (Suc i) (buf @ line)
      }
      else Some buf)"

text \<open>The terminating zero is stored at \<^verbatim>\<open>buf[used]\<close>.\<close>

definition log_ring_copy :: "log_ring_t \<Rightarrow> nat \<Rightarrow> (string \<times> nat) option" where
  "log_ring_copy ring len = do {
     buf \<leftarrow> copy_lines ring len (ring_count ring) 0 [];
     if length buf < len then Some (buf, length buf) else None
   }"

section \<open>The ring holds the last lines\<close>

definition ring_ok :: "log_ring_t \<Rightarrow> bool" where
  "ring_ok ring \<longleftrightarrow> length (ring_lines ring) = LOG_RING_SIZE \<and> ring_start ring < LOG_RING_SIZE \<and>
     ring_count ring \<le> LOG_RING_SIZE \<and> list_all (\<lambda>l. length l < LOG_LINE_MAX) (ring_lines ring)"

definition ring_abs :: "log_ring_t \<Rightarrow> string list" where
  "ring_abs ring = map (\<lambda>i. ring_lines ring ! ((ring_start ring + i) mod LOG_RING_SIZE)) [0..<ring_count ring]"

text \<open>The specification: a list that keeps its last \<open>LOG_RING_SIZE\<close> entries.\<close>

definition log_push :: "string list \<Rightarrow> string \<Rightarrow> string list" where
  "log_push ls l = drop (Suc (length ls) - LOG_RING_SIZE) (ls @ [l])"

lemma log_sizes [simp]: "0 < LOG_RING_SIZE" "0 < LOG_LINE_MAX"
  by (simp_all add: LOG_RING_SIZE_def LOG_LINE_MAX_def)

lemma log_ring_init_ok: "ring_ok log_ring_init" "ring_abs log_ring_init = []"
  by (simp_all add: ring_ok_def ring_abs_def log_ring_init_def list_all_iff)

lemma mod_inj:
  assumes "i < n" and "j < n" and "(s + i) mod n = (s + j) mod n"
  shows "i = (j :: nat)"
proof -
  have "j \<le> i" if "i < n" "(s + i) mod n = (s + j) mod n" "j < n" for i j
  proof (rule ccontr)
    assume "\<not> j \<le> i"
    then have "n dvd j - i" using that mod_eq_dvd_iff_nat [of "s + i" "s + j" n] by simp
    then show False using \<open>\<not> j \<le> i\<close> that nat_dvd_not_less [of "j - i" n] by simp
  qed
  from this [of i j] this [of j i] show ?thesis using assms by simp
qed

lemma log_ring_append_ok:
  assumes ok: "ring_ok ring"
  shows "\<exists>ring'. log_ring_append ring line = Some ring' \<and> ring_ok ring' \<and>
    ring_abs ring' = log_push (ring_abs ring) (snprintf LOG_LINE_MAX line)"
proof (cases "ring_count ring = LOG_RING_SIZE")
  case True
  let ?s = "ring_start ring" and ?l = "snprintf LOG_LINE_MAX line"
  let ?r = "ring\<lparr>ring_start := (?s + 1) mod LOG_RING_SIZE, ring_lines := (ring_lines ring)[?s := ?l]\<rparr>"
  have s: "?s < LOG_RING_SIZE" "length (ring_lines ring) = LOG_RING_SIZE" using ok by (simp_all add: ring_ok_def)
  have "log_ring_append ring line = Some ?r" using True s by (simp add: log_ring_append_def)
  moreover have "ring_ok ?r"
    using ok length_snprintf [of LOG_LINE_MAX line] by (auto simp: ring_ok_def list_all_iff dest!: member_updateD)
  moreover have "ring_abs ?r = log_push (ring_abs ring) ?l"
  proof (rule nth_equalityI)
    show "length (ring_abs ?r) = length (log_push (ring_abs ring) ?l)" using True by (simp add: ring_abs_def log_push_def)
    fix i assume "i < length (ring_abs ?r)"
    then have i: "i < LOG_RING_SIZE" using True by (simp add: ring_abs_def)
    have m: "((?s + 1) mod LOG_RING_SIZE + i) mod LOG_RING_SIZE = (?s + Suc i) mod LOG_RING_SIZE" by (simp add: mod_add_left_eq)
    show "ring_abs ?r ! i = log_push (ring_abs ring) ?l ! i"
    proof (cases "Suc i = LOG_RING_SIZE")
      case last: True
      then have "(?s + Suc i) mod LOG_RING_SIZE = ?s" using s by simp
      moreover have "i = LOG_RING_SIZE - 1" using last by simp
      ultimately show ?thesis using True i s m by (simp add: ring_abs_def log_push_def nth_append)
    next
      case False
      then have "(?s + Suc i) mod LOG_RING_SIZE \<noteq> ?s" using mod_inj [of "Suc i" LOG_RING_SIZE 0 ?s] i s by auto
      moreover have "i < LOG_RING_SIZE - 1" "Suc i < LOG_RING_SIZE" using i False by simp_all
      ultimately show ?thesis using True i m by (simp add: ring_abs_def log_push_def nth_append)
    qed
  qed
  ultimately show ?thesis by blast
next
  case False
  let ?p = "(ring_start ring + ring_count ring) mod LOG_RING_SIZE" and ?l = "snprintf LOG_LINE_MAX line"
  let ?r = "ring\<lparr>ring_count := ring_count ring + 1, ring_lines := (ring_lines ring)[?p := ?l]\<rparr>"
  have s: "length (ring_lines ring) = LOG_RING_SIZE" "ring_count ring < LOG_RING_SIZE" "?p < LOG_RING_SIZE"
    using ok False by (simp_all add: ring_ok_def)
  have "log_ring_append ring line = Some ?r" using False s by (simp add: log_ring_append_def)
  moreover have "ring_ok ?r"
    using ok s(2) length_snprintf [of LOG_LINE_MAX line] by (auto simp: ring_ok_def list_all_iff dest!: member_updateD)
  moreover have "ring_abs ?r = ring_abs ring @ [?l]"
  proof -
    have "?p \<noteq> (ring_start ring + i) mod LOG_RING_SIZE" if "i < ring_count ring" for i
      using mod_inj [of i LOG_RING_SIZE "ring_count ring" "ring_start ring"] that s(2) by auto
    then have "(ring_lines ring)[?p := ?l] ! ((ring_start ring + i) mod LOG_RING_SIZE) = ring_lines ring ! ((ring_start ring + i) mod LOG_RING_SIZE)"
      if "i < ring_count ring" for i using that by (intro nth_list_update_neq) blast
    then show ?thesis using s by (simp add: ring_abs_def)
  qed
  moreover have "log_push (ring_abs ring) ?l = ring_abs ring @ [?l]" using s(2) by (simp add: log_push_def ring_abs_def)
  ultimately show ?thesis by metis
qed

lemma copy_lines_ok:
  assumes "ring_ok ring" and "length buf < len"
  shows "copy_lines ring len n i buf =
    Some (take (len - 1) (buf @ concat (map (\<lambda>i. ring_lines ring ! ((ring_start ring + i) mod LOG_RING_SIZE)) [i..<i + n])))"
  using assms(2)
proof (induction n arbitrary: i buf)
  case (Suc n)
  let ?line = "\<lambda>i. ring_lines ring ! ((ring_start ring + i) mod LOG_RING_SIZE)"
  have get: "array_get (ring_lines ring) (int ((ring_start ring + i) mod LOG_RING_SIZE)) = Some (?line i)"
    using assms(1) by (simp add: ring_ok_def array_get_def flip: of_nat_add)
  have up: "[i..<i + Suc n] = i # [Suc i..<Suc i + n]" by (simp add: upt_rec)
  show ?case
  proof (cases "length (?line i) \<ge> len - length buf")
    case True
    then show ?thesis using Suc.prems get unfolding up by (simp add: snprintf_def Let_def del: upt_Suc)
  next
    case False
    then have "length (buf @ ?line i) < len" by simp
    from Suc.IH [OF this, of "Suc i"] show ?thesis using Suc.prems False get unfolding up by (simp add: Let_def del: upt_Suc)
  qed
qed simp

lemma log_ring_copy_ok:
  assumes "ring_ok ring" and "0 < len"
  shows "log_ring_copy ring len = Some (take (len - 1) (concat (ring_abs ring)), min (len - 1) (length (concat (ring_abs ring))))"
  using copy_lines_ok [OF assms(1), of "[]" len "ring_count ring" 0] assms(2)
  by (simp add: log_ring_copy_def ring_abs_def min.commute)

text \<open>The size of the response body of \<^verbatim>\<open>/admin/logs\<close> is enough for all lines.\<close>

lemma concat_short:
  assumes "list_all (\<lambda>l. length l < m) ls" and "length ls \<le> n"
  shows "length (concat ls) \<le> n * m"
proof -
  have "length (concat ls) \<le> length ls * m" using assms(1) by (induction ls) auto
  then show ?thesis using assms(2) mult_le_mono1 [of "length ls" n m] by linarith
qed

lemma ring_abs_lines: "ring_ok ring \<Longrightarrow> list_all (\<lambda>l. length l < LOG_LINE_MAX) (ring_abs ring) \<and> length (ring_abs ring) \<le> LOG_RING_SIZE"
  by (auto simp: ring_ok_def ring_abs_def list_all_iff)

fun log_ring_append_all :: "log_ring_t \<Rightarrow> string list \<Rightarrow> log_ring_t option" where
  "log_ring_append_all ring [] = Some ring"
| "log_ring_append_all ring (l # ls) = do { ring \<leftarrow> log_ring_append ring l; log_ring_append_all ring ls }"

lemma log_push_last:
  "log_push (drop (length xs - LOG_RING_SIZE) xs) l = drop (Suc (length xs) - LOG_RING_SIZE) (xs @ [l])"
  by (cases "length xs < LOG_RING_SIZE") (simp_all add: log_push_def Suc_diff_le)

lemma log_ring_append_all_ok:
  assumes "ring_ok ring" and "ring_abs ring = drop (length xs - LOG_RING_SIZE) xs"
  shows "\<exists>ring'. log_ring_append_all ring ls = Some ring' \<and> ring_ok ring' \<and>
    ring_abs ring' = (let ys = xs @ map (snprintf LOG_LINE_MAX) ls in drop (length ys - LOG_RING_SIZE) ys)"
  using assms
proof (induction ls arbitrary: ring xs)
  case (Cons l ls)
  obtain r where r: "log_ring_append ring l = Some r" "ring_ok r" "ring_abs r = log_push (ring_abs ring) (snprintf LOG_LINE_MAX l)"
    using log_ring_append_ok [OF Cons.prems(1)] by blast
  have "ring_abs r = drop (length (xs @ [snprintf LOG_LINE_MAX l]) - LOG_RING_SIZE) (xs @ [snprintf LOG_LINE_MAX l])"
    unfolding r(3) Cons.prems(2) log_push_last by simp
  from Cons.IH [OF r(2) this] show ?case using r(1) by simp
qed simp

text \<open>
  C33: after any sequence of requests \<^verbatim>\<open>/admin/logs\<close> shows exactly the last 256 logged lines, oldest first and each cut to
  255 characters: no store of \<^verbatim>\<open>log_ring_append\<close> or \<^verbatim>\<open>log_ring_copy\<close> is out of bounds and the response buffer is never too small.
\<close>

theorem log_shows_last_lines:
  "\<exists>ring. log_ring_append_all log_ring_init ls = Some ring \<and>
    (let shown = concat (drop (length ls - LOG_RING_SIZE) (map (snprintf LOG_LINE_MAX) ls))
     in log_ring_copy ring (LOG_RING_SIZE * LOG_LINE_MAX + 1) = Some (shown, length shown))"
proof -
  obtain ring where r: "log_ring_append_all log_ring_init ls = Some ring" "ring_ok ring"
      "ring_abs ring = drop (length ls - LOG_RING_SIZE) (map (snprintf LOG_LINE_MAX) ls)"
    using log_ring_append_all_ok [of log_ring_init "[]" ls] log_ring_init_ok by (auto simp: Let_def)
  have "length (concat (ring_abs ring)) \<le> LOG_RING_SIZE * LOG_LINE_MAX" using ring_abs_lines [OF r(2)] concat_short by blast
  then show ?thesis using r log_ring_copy_ok [OF r(2), of "LOG_RING_SIZE * LOG_LINE_MAX + 1"] by (simp add: Let_def min_def)
qed

end
