(* ===== verification/Http_Parse.thy ===== *)
theory Http_Parse
  imports Decimal "HOL-Library.Monad_Syntax"
begin

text \<open>
  The parsers of the HTTP demonstration (\<^verbatim>\<open>demo/http_server.c\<close>): the request line, the parameters of the query, and the
  command line, over the C library functions they call.
\<close>

section \<open>The C library\<close>

definition is_space :: "char \<Rightarrow> bool" where
  "is_space c \<longleftrightarrow> of_char c \<in> {9, 10, 11, 12, 13, 32 :: nat}"

text \<open>The C string in a buffer of characters.\<close>

definition c_string :: "string \<Rightarrow> string" where
  "c_string buf = takeWhile (\<lambda>c. c \<noteq> char_of (0 :: nat)) buf"

text \<open>The conversion \<^verbatim>\<open>%ns\<close> of \<^verbatim>\<open>sscanf\<close>: the word, which is empty when there is none, and the rest.\<close>

definition scan_word :: "nat \<Rightarrow> string \<Rightarrow> string \<times> string" where
  "scan_word n s =
     (let t = dropWhile is_space s; w = take n (takeWhile (\<lambda>c. \<not> is_space c) t)
      in (w, drop (length w) t))"

text \<open>\<^verbatim>\<open>strtol (s, &end, 10)\<close>: the value, and whether \<^verbatim>\<open>end\<close> is not \<^verbatim>\<open>s\<close>.\<close>

definition clamp :: "int \<Rightarrow> int \<Rightarrow> int \<Rightarrow> int" where
  "clamp lo hi v = (if v < lo then lo else if hi < v then hi else v)"

definition sign_digits :: "string \<Rightarrow> bool \<times> string" where
  "sign_digits s =
     (case dropWhile is_space s of
        [] \<Rightarrow> (False, [])
      | c # u \<Rightarrow> if c = CHR ''-'' then (True, takeWhile is_digit u)
                 else if c = CHR ''+'' then (False, takeWhile is_digit u)
                 else (False, takeWhile is_digit (c # u)))"

definition strtol :: "string \<Rightarrow> int \<times> bool" where
  "strtol s =
     (case sign_digits s of (neg, ds) \<Rightarrow>
        if ds = [] then (0, False)
        else (clamp (- (2 ^ 63)) (2 ^ 63 - 1) (if neg then - int (undec ds) else int (undec ds)), True))"

text \<open>\<^verbatim>\<open>atoi\<close> is undefined when the value is not an \<^verbatim>\<open>int\<close>.\<close>

definition atoi :: "string \<Rightarrow> int option" where
  "atoi s = int_of (fst (strtol s))"

definition strtoull :: "string \<Rightarrow> u64" where
  "strtoull s =
     (case sign_digits s of (neg, ds) \<Rightarrow>
        if undec ds \<ge> 2 ^ 64 then - 1
        else if neg then - of_nat (undec ds) else of_nat (undec ds))"

text \<open>\<^verbatim>\<open>strchr\<close>: the text before and behind the first \<open>c\<close>.\<close>

definition split_at :: "char \<Rightarrow> string \<Rightarrow> string \<times> string option" where
  "split_at c s =
     (takeWhile (\<lambda>x. x \<noteq> c) s, case dropWhile (\<lambda>x. x \<noteq> c) s of [] \<Rightarrow> None | _ # u \<Rightarrow> Some u)"

section \<open>The request\<close>

text \<open>\<^verbatim>\<open>sscanf (req, "%15s %1023s", method, target)\<close>: the fields that are stored.\<close>

definition request_line :: "string \<Rightarrow> string option \<times> string option" where
  "request_line req =
     (case scan_word 15 req of (m, r) \<Rightarrow>
        if m = [] then (None, None)
        else case scan_word 1023 r of (t, _) \<Rightarrow> (Some m, if t = [] then None else Some t))"

lemma split_at_shorter: "split_at c s = (a, Some b) \<Longrightarrow> length b < length s"
  using length_dropWhile_le [of "\<lambda>x. x \<noteq> c" s] by (auto simp: split_at_def split: list.splits)

function query_int :: "string \<Rightarrow> string \<Rightarrow> int \<Rightarrow> int \<Rightarrow> int \<Rightarrow> int" where
  "query_int p key def mn mx =
     (if p = [] then def
      else if take (length key) p = key \<and> length key < length p \<and> p ! length key = CHR ''=''
      then (case strtol (drop (length key + 1) p) of (v, conv) \<Rightarrow>
        if \<not> conv then def
        else if v < mn then mn
        else if v > mx then mx
        else v)
      else (case split_at CHR ''&'' p of
          (_, None) \<Rightarrow> def
        | (_, Some p) \<Rightarrow> query_int p key def mn mx))"
  by auto
termination
  by (relation "measure (\<lambda>(p, key, def, mn, mx). length p)") (auto dest: split_at_shorter [OF sym])

declare query_int.simps [simp del]

section \<open>The command line\<close>

datatype server_mode_t = MODE_POOL | MODE_NAIVE

record server_config =
  port :: int
  admin_port :: int
  cfg_workers :: int
  cfg_max_tasks :: u64
  mode :: server_mode_t
  cfg_monitor :: bool
  host :: string

definition HOST_SIZE :: nat where "HOST_SIZE = 64"

definition server_defaults :: "int \<Rightarrow> server_config" where
  "server_defaults cores =
     \<lparr>port = 8080, admin_port = 9090, cfg_workers = (if cores \<le> 0 then 4 else cores), cfg_max_tasks = 0, mode = MODE_POOL,
      cfg_monitor = True, host = snprintf HOST_SIZE ''127.0.0.1''\<rparr>"

text \<open>\<open>Inl 2\<close> is the return value of \<^verbatim>\<open>usage\<close>.\<close>

definition usage :: "int + server_config" where
  "usage = Inl 2"

text \<open>An option with a value.\<close>

definition parse_option :: "string \<Rightarrow> string \<Rightarrow> server_config \<Rightarrow> (int + server_config) option" where
  "parse_option a v ctx =
     (if a = ''--port'' then do { n \<leftarrow> atoi v; Some (Inr (ctx\<lparr>port := n\<rparr>)) }
      else if a = ''--workers'' then do { n \<leftarrow> atoi v; Some (Inr (ctx\<lparr>cfg_workers := n\<rparr>)) }
      else if a = ''--max-tasks'' then Some (Inr (ctx\<lparr>cfg_max_tasks := strtoull v\<rparr>))
      else if a = ''--mode'' then
        Some (if v = ''pool'' then Inr (ctx\<lparr>mode := MODE_POOL\<rparr>)
          else if v = ''naive'' then Inr (ctx\<lparr>mode := MODE_NAIVE\<rparr>)
          else usage)
      else if a = ''--admin-port'' then do { n \<leftarrow> atoi v; Some (Inr (ctx\<lparr>admin_port := n\<rparr>)) }
      else if a = ''--host'' then Some (Inr (ctx\<lparr>host := snprintf HOST_SIZE v\<rparr>))
      else Some usage)"

text \<open>The loop over the arguments behind the program name.\<close>

fun parse_loop :: "string list \<Rightarrow> server_config \<Rightarrow> (int + server_config) option" where
  "parse_loop [] ctx = Some (Inr ctx)"
| "parse_loop [a] ctx =
     (if a = ''--no-monitor'' then Some (Inr (ctx\<lparr>cfg_monitor := False\<rparr>)) else Some usage)"
| "parse_loop (a # v # rest) ctx =
     (if a = ''--no-monitor'' then parse_loop (v # rest) (ctx\<lparr>cfg_monitor := False\<rparr>)
      else do {
        r \<leftarrow> parse_option a v ctx;
        case r of Inl e \<Rightarrow> Some (Inl e) | Inr ctx \<Rightarrow> parse_loop rest ctx
      })"

definition parse_args :: "string list \<Rightarrow> server_config \<Rightarrow> (int + server_config) option" where
  "parse_args args ctx = do {
     r \<leftarrow> parse_loop args ctx;
     case r of
       Inl e \<Rightarrow> Some (Inl e)
     | Inr ctx \<Rightarrow>
         Some (if port ctx \<le> 0 \<or> port ctx > 65535 \<or> admin_port ctx \<le> 0 \<or> admin_port ctx > 65535 \<or>
             cfg_workers ctx \<le> 0 \<or> port ctx = admin_port ctx
           then usage else Inr ctx)
   }"

section \<open>Numbers\<close>

lemma digit_not_special: "is_digit c \<Longrightarrow> \<not> is_space c \<and> c \<noteq> CHR ''-'' \<and> c \<noteq> CHR ''+''"
  by (auto simp: is_digit_def is_space_def)

lemma takeWhile_digits: "list_all is_digit ds \<Longrightarrow> takeWhile is_digit (ds @ r) = ds @ takeWhile is_digit r"
  by (simp add: list_all_iff takeWhile_append2)

lemma sign_digits_dec: "sign_digits (dec n) = (False, dec n)"
proof (cases "dec n")
  case (Cons c u)
  then have "is_digit c" using dec_digits [of n] by simp
  then show ?thesis using takeWhile_digits [OF dec_digits [of n], of "[]"] Cons digit_not_special [of c]
    by (simp add: sign_digits_def)
qed simp

lemma strtol_dec: "strtol (dec n) = (clamp (- (2 ^ 63)) (2 ^ 63 - 1) (int n), True)"
  by (simp add: strtol_def sign_digits_dec)

lemma atoi_dec: "0 \<le> v \<Longrightarrow> v < 2 ^ 31 \<Longrightarrow> atoi (dec (nat v)) = Some v"
  by (simp add: atoi_def strtol_dec clamp_def int_of_def int_ok_def)

lemma strtoull_dec: "strtoull (dec (unat n)) = n"
proof -
  have "unat n < 2 ^ LENGTH(64)" by (rule unsigned_less)
  then show ?thesis by (simp add: strtoull_def sign_digits_dec)
qed

text \<open>Reading stops at a character that is no part of a number.\<close>

lemma sign_digits_stop:
  assumes "\<not> is_digit c" "\<not> is_space c" "c \<noteq> CHR ''-''" "c \<noteq> CHR ''+''"
  shows "sign_digits (v @ c # r) = sign_digits v"
proof (cases "dropWhile is_space v")
  case Nil
  then have e: "dropWhile is_space (v @ c # r) = c # r" using assms(2) by (simp add: dropWhile_append)
  show ?thesis unfolding sign_digits_def Nil e using assms by simp
next
  case (Cons a u)
  then obtain x where "x \<in> set v" "\<not> is_space x" using dropWhile_eq_Nil_conv [of is_space v] by auto
  then have "dropWhile is_space (v @ c # r) = a # u @ c # r" using Cons dropWhile_append1 [of x v is_space] by simp
  moreover have "takeWhile is_digit (u @ c # r) = takeWhile is_digit u" using assms(1) by (rule takeWhile_tail)
  ultimately show ?thesis using Cons by (simp add: sign_digits_def)
qed

lemma strtol_stop: "strtol (v @ CHR ''&'' # r) = strtol v"
  by (simp add: strtol_def sign_digits_stop is_digit_def is_space_def)

section \<open>The parameters of a query\<close>

text \<open>The text of a query with the given parameters.\<close>

fun query_text :: "(string \<times> string) list \<Rightarrow> string" where
  "query_text [] = []"
| "query_text [(k, v)] = k @ CHR ''='' # v"
| "query_text ((k, v) # kvs) = k @ CHR ''='' # v @ CHR ''&'' # query_text kvs"

definition plain :: "string \<Rightarrow> bool" where
  "plain s \<longleftrightarrow> list_all (\<lambda>c. c \<noteq> CHR ''='' \<and> c \<noteq> CHR ''&'') s"

definition no_amp :: "string \<Rightarrow> bool" where
  "no_amp s \<longleftrightarrow> list_all (\<lambda>c. c \<noteq> CHR ''&'') s"

definition param_value :: "int \<Rightarrow> int \<Rightarrow> int \<Rightarrow> string \<Rightarrow> int" where
  "param_value def mn mx v = (if snd (strtol v) then clamp mn mx (fst (strtol v)) else def)"

lemma key_match:
  assumes "plain k" and "plain key"
  shows "take (length key) (k @ CHR ''='' # r) = key \<and> length key < length (k @ CHR ''='' # r) \<and>
    (k @ CHR ''='' # r) ! length key = CHR ''='' \<longleftrightarrow> k = key"
proof
  assume a: "take (length key) (k @ CHR ''='' # r) = key \<and> length key < length (k @ CHR ''='' # r) \<and>
    (k @ CHR ''='' # r) ! length key = CHR ''=''"
  consider "length key < length k" | "length key = length k" | "length k < length key" by linarith
  then show "k = key"
  proof cases
    case 1
    then have "k ! length key = CHR ''=''" using a by (simp add: nth_append)
    then show ?thesis using assms(1) 1 by (auto simp: plain_def list_all_length)
  next
    case 2
    then show ?thesis using a by simp
  next
    case 3
    then have "key ! length k = (k @ CHR ''='' # r) ! length k" using a by (metis nth_take)
    then show ?thesis using assms(2) 3 by (auto simp: plain_def list_all_length)
  qed
qed simp

lemma split_segment: "no_amp s \<Longrightarrow> split_at CHR ''&'' (s @ CHR ''&'' # r) = (s, Some r)" "no_amp s \<Longrightarrow> split_at CHR ''&'' s = (s, None)"
  by (induction s) (auto simp: split_at_def no_amp_def)

lemma no_amp_segment: "plain k \<Longrightarrow> no_amp v \<Longrightarrow> no_amp (k @ CHR ''='' # v)"
  by (auto simp: plain_def no_amp_def list_all_iff)

lemma query_int_match:
  assumes "plain key" and "strtol r = strtol v"
  shows "query_int (key @ CHR ''='' # r) key def mn mx = param_value def mn mx v"
  unfolding query_int.simps [of "key @ CHR ''='' # r"] using key_match [OF assms(1,1), of r] assms(2)
  by (simp add: param_value_def clamp_def case_prod_beta)

lemma query_int_skip:
  assumes "plain key" and "plain k" and "k \<noteq> key" and "no_amp v"
  shows "query_int (k @ CHR ''='' # v @ CHR ''&'' # r) key def mn mx = query_int r key def mn mx"
    and "query_int (k @ CHR ''='' # v) key def mn mx = def"
proof -
  have n: "\<not> (take (length key) (k @ CHR ''='' # u) = key \<and> length key < length (k @ CHR ''='' # u) \<and> (k @ CHR ''='' # u) ! length key = CHR ''='')" for u
    using key_match [OF assms(2,1)] assms(3) by blast
  have ne: "(k @ CHR ''='' # u = []) = False" for u by simp
  have "split_at CHR ''&'' (k @ CHR ''='' # v @ CHR ''&'' # r) = (k @ CHR ''='' # v, Some r)"
    using split_segment(1) [OF no_amp_segment [OF assms(2,4)], of r] by simp
  then show "query_int (k @ CHR ''='' # v @ CHR ''&'' # r) key def mn mx = query_int r key def mn mx"
    by (simp only: query_int.simps [of "k @ CHR ''='' # v @ CHR ''&'' # r"] if_not_P [OF n] ne if_False prod.case option.case)
  show "query_int (k @ CHR ''='' # v) key def mn mx = def"
    by (simp only: query_int.simps [of "k @ CHR ''='' # v"] if_not_P [OF n] ne if_False split_segment(2) [OF no_amp_segment [OF assms(2,4)]]
      prod.case option.case)
qed

text \<open>
  C34: reading a parameter of a query string gives what was written: on the text of any list of parameters
  \<^verbatim>\<open>query_int\<close> finds the first one of the given name, and returns its number clamped to the limits, or the default when there is
  none or its value is no number.
\<close>

theorem query_int_reads_parameter:
  assumes "list_all (\<lambda>(k, v). plain k \<and> no_amp v) kvs" and "plain key"
  shows "query_int (query_text kvs) key def mn mx =
    (case map_of kvs key of None \<Rightarrow> def | Some v \<Rightarrow> param_value def mn mx v)"
  using assms(1)
proof (induction kvs rule: query_text.induct)
  case 1
  show ?case by (simp add: query_int.simps)
next
  case (2 k v)
  then show ?case
    using query_int_match [OF assms(2) refl, of v] query_int_skip(2) [OF assms(2), of k v] by (cases "k = key") auto
next
  case (3 k v kv kvs)
  then show ?case
    using query_int_match [OF assms(2) strtol_stop, of v "query_text (kv # kvs)"]
      query_int_skip(1) [OF assms(2), of k v "query_text (kv # kvs)"] by (cases "k = key") auto
qed

theorem query_int_reads_parameter_witness:
  "query_int ''h=9&w=5000&w=7'' ''w'' 640 16 2048 = 2048 \<and> query_int ''h=9&w=5000&w=7'' ''iter'' 800 1 5000 = 800"
proof -
  let ?kvs = "[(''h'', ''9''), (''w'', ''5000''), (''w'', ''7'')]"
  have ok: "list_all (\<lambda>(k, v). plain k \<and> no_amp v) ?kvs" "plain ''w''" "plain ''iter''" by (simp_all add: plain_def no_amp_def)
  have "strtol ''5000'' = (5000, True)" by code_simp
  then show ?thesis
    using query_int_reads_parameter [OF ok(1,2), of 640 16 2048] query_int_reads_parameter [OF ok(1,3), of 800 1 5000]
    by (simp add: param_value_def clamp_def)
qed

section \<open>The options of the command line\<close>

definition config_ok :: "server_config \<Rightarrow> bool" where
  "config_ok ctx \<longleftrightarrow> 0 < port ctx \<and> port ctx \<le> 65535 \<and> 0 < admin_port ctx \<and> admin_port ctx \<le> 65535 \<and> port ctx \<noteq> admin_port ctx \<and>
     0 < cfg_workers ctx \<and> cfg_workers ctx < 2 ^ 31 \<and> length (host ctx) < HOST_SIZE"

text \<open>The arguments that ask for a configuration.\<close>

definition config_args :: "server_config \<Rightarrow> string list" where
  "config_args ctx =
     [''--port'', dec (nat (port ctx)), ''--admin-port'', dec (nat (admin_port ctx)), ''--workers'', dec (nat (cfg_workers ctx)),
      ''--max-tasks'', dec (unat (cfg_max_tasks ctx)), ''--mode'', (case mode ctx of MODE_POOL \<Rightarrow> ''pool'' | MODE_NAIVE \<Rightarrow> ''naive''),
      ''--host'', host ctx] @ (if cfg_monitor ctx then [] else [''--no-monitor''])"

lemma parse_option_inv:
  assumes "parse_option a v ctx = Some (Inr ctx')" and "length (host ctx) < HOST_SIZE" and "cfg_workers ctx < 2 ^ 31"
  shows "length (host ctx') < HOST_SIZE" and "cfg_workers ctx' < 2 ^ 31"
proof -
  have n: "n < 2 ^ 31" if "atoi v = Some n" for n using that by (auto simp: atoi_def int_ok_def)
  have h: "length (snprintf HOST_SIZE v) < HOST_SIZE" by (rule length_snprintf) (simp add: HOST_SIZE_def)
  show "length (host ctx') < HOST_SIZE" "cfg_workers ctx' < 2 ^ 31"
    using assms n h by (auto simp: parse_option_def usage_def bind_Some_iff split: if_splits)
qed

lemma parse_loop_inv:
  assumes "parse_loop args ctx = Some (Inr ctx')" and "length (host ctx) < HOST_SIZE" and "cfg_workers ctx < 2 ^ 31"
  shows "length (host ctx') < HOST_SIZE \<and> cfg_workers ctx' < 2 ^ 31"
  using assms
proof (induction args ctx rule: parse_loop.induct)
  case (3 a v rest ctx)
  show ?case
  proof (cases "a = ''--no-monitor''")
    case True
    then show ?thesis using 3 by simp
  next
    case False
    then obtain r where r: "parse_option a v ctx = Some r" "(case r of Inl e \<Rightarrow> Some (Inl e) | Inr ctx \<Rightarrow> parse_loop rest ctx) = Some (Inr ctx')"
      using "3.prems"(1) by (auto simp: bind_Some_iff)
    then obtain c where c: "parse_option a v ctx = Some (Inr c)" "parse_loop rest c = Some (Inr ctx')" by (cases r) auto
    show ?thesis using "3.IH"(2) [OF False c(1) refl c(2)] parse_option_inv [OF c(1) "3.prems"(2,3)] by simp
  qed
qed (auto simp: usage_def split: if_splits)

lemma parse_loop_usage: "parse_loop args ctx = Some (Inl e) \<Longrightarrow> e = 2"
proof (induction args ctx rule: parse_loop.induct)
  case (3 a v rest ctx)
  have opt: "e = 2" if "parse_option a v ctx = Some (Inl e)"
    using that by (auto simp: parse_option_def usage_def bind_Some_iff split: if_splits)
  show ?case
  proof (cases "a = ''--no-monitor''")
    case True
    then show ?thesis using 3 by simp
  next
    case False
    then obtain r where r: "parse_option a v ctx = Some r" "(case r of Inl e \<Rightarrow> Some (Inl e) | Inr ctx \<Rightarrow> parse_loop rest ctx) = Some (Inl e)"
      using "3.prems" by (auto simp: bind_Some_iff)
    then show ?thesis using opt "3.IH"(2) [OF False r(1)] by (cases r) auto
  qed
qed (auto simp: usage_def split: if_splits)

lemma parse_args_usage: "parse_args args ctx = Some (Inl e) \<Longrightarrow> e = 2"
  using parse_loop_usage [of args ctx]
  by (cases "parse_loop args ctx") (auto simp: parse_args_def usage_def split: sum.splits if_splits)

lemma parse_args_config:
  assumes ok: "config_ok ctx" and "cfg_monitor c0"
  shows "parse_args (config_args ctx) c0 = Some (Inr ctx)"
proof -
  have n: "atoi (dec (nat (port ctx))) = Some (port ctx)" "atoi (dec (nat (admin_port ctx))) = Some (admin_port ctx)"
      "atoi (dec (nat (cfg_workers ctx))) = Some (cfg_workers ctx)"
    using ok by (simp_all add: config_ok_def atoi_dec)
  have h: "snprintf HOST_SIZE (host ctx) = host ctx" using ok by (simp add: config_ok_def snprintf_fits)
  let ?c = "c0\<lparr>port := port ctx, admin_port := admin_port ctx, cfg_workers := cfg_workers ctx, cfg_max_tasks := cfg_max_tasks ctx,
    mode := mode ctx, host := host ctx\<rparr>"
  have "parse_loop (config_args ctx) c0 = Some (Inr (if cfg_monitor ctx then ?c else ?c\<lparr>cfg_monitor := False\<rparr>))"
    by (cases "mode ctx"; cases "cfg_monitor ctx") (simp_all add: config_args_def parse_option_def n h strtoull_dec)
  also have "(if cfg_monitor ctx then ?c else ?c\<lparr>cfg_monitor := False\<rparr>) = ctx" using assms(2) by (cases ctx; cases c0) simp
  finally have "parse_loop (config_args ctx) c0 = Some (Inr ctx)" .
  then show ?thesis using ok by (auto simp: parse_args_def config_ok_def)
qed

text \<open>
  C35: the command line: whatever the arguments are, a run of \<^verbatim>\<open>parse_args\<close> on the defaults that succeeds leaves a
  well-formed configuration (both ports in range and different, at least one worker, a host that fits its buffer), and one that
  fails returns the exit status 2 of \<^verbatim>\<open>usage\<close>; and every well-formed configuration is obtained by some arguments.
\<close>

theorem parse_args_wellformed:
  assumes "cores < 2 ^ 31"
  shows "(\<forall>args r. parse_args args (server_defaults cores) = Some r \<longrightarrow> (case r of Inl e \<Rightarrow> e = 2 | Inr ctx \<Rightarrow> config_ok ctx)) \<and>
    (\<forall>ctx. config_ok ctx \<longrightarrow> parse_args (config_args ctx) (server_defaults cores) = Some (Inr ctx))"
proof (intro conjI allI impI)
  fix args r assume "parse_args args (server_defaults cores) = Some r"
  then obtain q where q: "parse_loop args (server_defaults cores) = Some q"
      "(case q of Inl e \<Rightarrow> Some (Inl e) | Inr ctx \<Rightarrow> Some (if port ctx \<le> 0 \<or> port ctx > 65535 \<or> admin_port ctx \<le> 0 \<or> admin_port ctx > 65535 \<or>
          cfg_workers ctx \<le> 0 \<or> port ctx = admin_port ctx then usage else Inr ctx)) = Some r"
    unfolding parse_args_def by (cases "parse_loop args (server_defaults cores)") simp_all
  have d: "length (host (server_defaults cores)) < HOST_SIZE" "cfg_workers (server_defaults cores) < 2 ^ 31"
    using assms by (simp_all add: server_defaults_def HOST_SIZE_def snprintf_def)
  show "case r of Inl e \<Rightarrow> e = 2 | Inr ctx \<Rightarrow> config_ok ctx"
  proof (cases q)
    case (Inl e)
    then show ?thesis using q parse_loop_usage by (auto simp: sum.case)
  next
    case (Inr ctx)
    then show ?thesis using q(2) parse_loop_inv [OF _ d, of args ctx] q(1) by (auto simp: usage_def config_ok_def)
  qed
next
  fix ctx assume "config_ok ctx"
  then show "parse_args (config_args ctx) (server_defaults cores) = Some (Inr ctx)"
    by (rule parse_args_config) (simp add: server_defaults_def)
qed

theorem parse_args_wellformed_witness:
  "parse_args [''--port'', ''80'', ''--admin-port'', ''81'', ''--no-monitor'', ''--mode'', ''naive''] (server_defaults 8) =
     Some (Inr ((server_defaults 8)\<lparr>port := 80, admin_port := 81, cfg_monitor := False, mode := MODE_NAIVE\<rparr>)) \<and>
   config_ok ((server_defaults 8)\<lparr>port := 80, admin_port := 81, cfg_monitor := False, mode := MODE_NAIVE\<rparr>) \<and>
   parse_args [''--port'', ''80'', ''--admin-port'', ''80''] (server_defaults 8) = Some (Inl 2)"
proof -
  have n: "atoi ''80'' = Some 80" "atoi ''81'' = Some 81" by code_simp+
  have r: "parse_args [''--port'', ''80'', ''--admin-port'', ''81'', ''--no-monitor'', ''--mode'', ''naive''] (server_defaults 8) =
     Some (Inr ((server_defaults 8)\<lparr>port := 80, admin_port := 81, cfg_monitor := False, mode := MODE_NAIVE\<rparr>))"
    by (simp add: parse_args_def parse_option_def n server_defaults_def)
  have "(8 :: int) < 2 ^ 31" by simp
  from conjunct1 [OF parse_args_wellformed [OF this], rule_format, OF r]
  have "config_ok ((server_defaults 8)\<lparr>port := 80, admin_port := 81, cfg_monitor := False, mode := MODE_NAIVE\<rparr>)" by simp
  then show ?thesis using r by (simp add: parse_args_def parse_option_def n server_defaults_def usage_def)
qed

end
