(* ===== verification/Mandelbrot.thy ===== *)
theory Mandelbrot
  imports Pool_Prelude "HOL-Library.Monad_Syntax"
begin

text \<open>
  The renderer of the HTTP demo (\<^verbatim>\<open>demo/mandelbrot.c\<close>): the bytes of the BMP file, with \<^verbatim>\<open>size_t\<close> as 64-bit
  words, checked \<^verbatim>\<open>int\<close> arithmetic and every store into the buffer checked against its length. The arithmetic
  of \<^verbatim>\<open>double\<close> is a parameter: nothing below depends on it.
\<close>

unbundle bit_operations_syntax

section \<open>The program\<close>

definition BMP_HEADER_SIZE :: nat where "BMP_HEADER_SIZE = 54"

text \<open>Stores at an offset; outside the buffer they fault.\<close>

fun put_bytes :: "u8 list \<Rightarrow> nat \<Rightarrow> u8 list \<Rightarrow> u8 list option" where
  "put_bytes [] at buf = Some buf"
| "put_bytes (b # bs) at buf = do { buf \<leftarrow> array_set buf (int at) b; put_bytes bs (Suc at) buf }"

definition put_u16 :: "nat \<Rightarrow> u16 \<Rightarrow> u8 list \<Rightarrow> u8 list option" where
  "put_u16 p v buf = put_bytes [ucast (v AND 0xff), ucast (drop_bit 8 v AND 0xff)] p buf"

definition put_u32 :: "nat \<Rightarrow> u32 \<Rightarrow> u8 list \<Rightarrow> u8 list option" where
  "put_u32 p v buf =
     put_bytes [ucast (v AND 0xff), ucast (drop_bit 8 v AND 0xff), ucast (drop_bit 16 v AND 0xff), ucast (drop_bit 24 v AND 0xff)] p buf"

definition color_pixel :: "int \<Rightarrow> int \<Rightarrow> u8 list option" where
  "color_pixel iter max_iter =
     (if max_iter \<le> iter then Some [8, 8, 12]
      else do {
        n \<leftarrow> int_mul iter 255;
        let t = c_div n max_iter;
        a \<leftarrow> int_mul t 120;
        b \<leftarrow> int_mul t t;
        Some [word_of_int (80 + c_div a 255), word_of_int (c_div b 255), word_of_int (255 - c_div t 3)]
      })"

text \<open>The operations on \<^verbatim>\<open>double\<close>; \<open>f_tenths n\<close> is the literal \<open>n\<close>/10 and \<open>f_int\<close> the conversion from \<^verbatim>\<open>int\<close>.\<close>

record 'd fp =
  f_add :: "'d \<Rightarrow> 'd \<Rightarrow> 'd"
  f_sub :: "'d \<Rightarrow> 'd \<Rightarrow> 'd"
  f_mul :: "'d \<Rightarrow> 'd \<Rightarrow> 'd"
  f_div :: "'d \<Rightarrow> 'd \<Rightarrow> 'd"
  f_le :: "'d \<Rightarrow> 'd \<Rightarrow> bool"
  f_int :: "int \<Rightarrow> 'd"
  f_tenths :: "int \<Rightarrow> 'd"

function escape :: "'d fp \<Rightarrow> int \<Rightarrow> 'd \<Rightarrow> 'd \<Rightarrow> 'd \<Rightarrow> 'd \<Rightarrow> int \<Rightarrow> int" where
  "escape fp max_iter cx cy zx zy iter =
     (if f_le fp (f_add fp (f_mul fp zx zx) (f_mul fp zy zy)) (f_tenths fp 40) \<and> iter < max_iter
      then escape fp max_iter cx cy
        (f_add fp (f_sub fp (f_mul fp zx zx) (f_mul fp zy zy)) cx)
        (f_add fp (f_mul fp (f_mul fp (f_tenths fp 20) zx) zy) cy) (iter + 1)
      else iter)"
  by auto
termination by (relation "measure (\<lambda>(fp, max_iter, cx, cy, zx, zy, iter). nat (max_iter - iter))") auto

declare escape.simps [simp del]

definition pixel_y :: "'d fp \<Rightarrow> int \<Rightarrow> int \<Rightarrow> 'd" where
  "pixel_y fp height y = f_sub fp (f_mul fp (f_div fp (f_int fp y) (f_int fp (height - 1))) (f_tenths fp 24)) (f_tenths fp 12)"

definition pixel_x :: "'d fp \<Rightarrow> int \<Rightarrow> int \<Rightarrow> 'd" where
  "pixel_x fp width x = f_sub fp (f_mul fp (f_div fp (f_int fp x) (f_int fp (width - 1))) (f_tenths fp 35)) (f_tenths fp 25)"

definition pixel_iter :: "'d fp \<Rightarrow> int \<Rightarrow> int \<Rightarrow> int \<Rightarrow> int \<Rightarrow> int \<Rightarrow> int" where
  "pixel_iter fp width height max_iter y x =
     escape fp max_iter (pixel_x fp width x) (pixel_y fp height y) (f_tenths fp 0) (f_tenths fp 0) 0"

text \<open>A \<^verbatim>\<open>for\<close> loop over a range.\<close>

fun for_each :: "('a \<Rightarrow> 's \<Rightarrow> 's option) \<Rightarrow> 'a list \<Rightarrow> 's \<Rightarrow> 's option" where
  "for_each f [] s = Some s"
| "for_each f (x # xs) s = do { s \<leftarrow> f x s; for_each f xs s }"

text \<open>\<^verbatim>\<open>~3u\<close> is an \<^verbatim>\<open>unsigned int\<close>, zero-extended to the width of \<^verbatim>\<open>size_t\<close>.\<close>

definition bmp_row :: "int \<Rightarrow> u64" where
  "bmp_row width = (word_of_int width * 3 + 3) AND ucast (NOT 3 :: u32)"

definition pixel_at :: "int \<Rightarrow> int \<Rightarrow> int \<Rightarrow> int \<Rightarrow> nat" where
  "pixel_at width height y x =
     unat (of_nat BMP_HEADER_SIZE + word_of_int (height - 1 - y) * bmp_row width + word_of_int x * 3 :: u64)"

definition draw_pixel :: "'d fp \<Rightarrow> int \<Rightarrow> int \<Rightarrow> int \<Rightarrow> int \<Rightarrow> int \<Rightarrow> u8 list \<Rightarrow> u8 list option" where
  "draw_pixel fp width height max_iter y x bmp = do {
     bgr \<leftarrow> color_pixel (pixel_iter fp width height max_iter y x) max_iter;
     put_bytes bgr (pixel_at width height y x) bmp
   }"

definition bmp_header :: "int \<Rightarrow> int \<Rightarrow> u64 \<Rightarrow> u64 \<Rightarrow> u8 list \<Rightarrow> u8 list option" where
  "bmp_header width height pixels tot bmp = do {
     bmp \<leftarrow> put_bytes [0x42, 0x4d] 0 bmp;
     bmp \<leftarrow> put_u32 2 (ucast tot) bmp;
     bmp \<leftarrow> put_u32 10 (of_nat BMP_HEADER_SIZE) bmp;
     bmp \<leftarrow> put_u32 14 40 bmp;
     bmp \<leftarrow> put_u32 18 (word_of_int width) bmp;
     bmp \<leftarrow> put_u32 22 (word_of_int height) bmp;
     bmp \<leftarrow> put_u16 26 1 bmp;
     bmp \<leftarrow> put_u16 28 24 bmp;
     put_u32 34 (ucast pixels) bmp
   }"

text \<open>
  \<open>None\<close> is a fault, \<open>Some None\<close> the return value -1 and \<open>Some (Some bmp)\<close> the buffer stored in \<^verbatim>\<open>*out\<close>; \<open>ptrs\<close> says
  that \<^verbatim>\<open>out\<close> and \<^verbatim>\<open>out_len\<close> are not null, \<open>mem\<close> that \<^verbatim>\<open>calloc\<close> succeeds.
\<close>

definition mandelbrot_bmp :: "'d fp \<Rightarrow> bool \<Rightarrow> int \<Rightarrow> int \<Rightarrow> int \<Rightarrow> bool \<Rightarrow> u8 list option option" where
  "mandelbrot_bmp fp mem width height max_iter ptrs =
     (if \<not> ptrs \<or> width \<le> 0 \<or> height \<le> 0 \<or> max_iter \<le> 0 then Some None
      else
        let pixels = bmp_row width * word_of_int height;
            tot = of_nat BMP_HEADER_SIZE + pixels
        in if tot < pixels then Some None
           else if \<not> mem then Some None
           else do {
             bmp \<leftarrow> bmp_header width height pixels tot (replicate (unat tot) 0);
             bmp \<leftarrow> for_each (\<lambda>y. for_each (\<lambda>x. draw_pixel fp width height max_iter y x) [0..width - 1]) [0..height - 1] bmp;
             Some (Some bmp)
           })"

section \<open>Stores\<close>

lemma put_bytes_ok:
  assumes "at + length bs \<le> length buf"
  shows "put_bytes bs at buf = Some (take at buf @ bs @ drop (at + length bs) buf)"
  using assms
proof (induction bs arbitrary: at buf)
  case (Cons b bs)
  then have "put_bytes bs (Suc at) (buf[at := b]) = Some (take (Suc at) (buf[at := b]) @ bs @ drop (Suc at + length bs) (buf[at := b]))"
    by simp
  also have "take (Suc at) (buf[at := b]) = take at buf @ [b]"
    using Cons.prems by (simp add: take_Suc_conv_app_nth)
  finally show ?case using Cons.prems by simp
qed simp

lemma put_bytes_facts:
  assumes "put_bytes bs at buf = Some buf'" and "at + length bs \<le> length buf"
  shows "length buf' = length buf" "take (length bs) (drop at buf') = bs" "\<And>i. i < at \<or> at + length bs \<le> i \<Longrightarrow> buf' ! i = buf ! i"
  using assms by (auto simp: put_bytes_ok nth_append)

lemma for_each_append: "for_each f (xs @ ys) s = do { s \<leftarrow> for_each f xs s; for_each f ys s }"
  by (induction xs arbitrary: s) (auto split: Option.bind_split)

lemma for_each_map: "for_each f (map g xs) s = for_each (\<lambda>x. f (g x)) xs s"
  by (induction xs arbitrary: s) (auto split: Option.bind_split)

text \<open>Nested loops are one loop over the pairs.\<close>

lemma for_each_nested:
  "for_each (\<lambda>y. for_each (f y) xs) ys s = for_each (\<lambda>(y, x). f y x) (List.product ys xs) s"
  by (induction ys arbitrary: s) (auto simp: for_each_append for_each_map split: Option.bind_split)

text \<open>Blocks written at disjoint places of the buffer.\<close>

lemma scatter:
  assumes "distinct ps"
    and "\<And>p. p \<in> set ps \<Longrightarrow> at p + length (val p) \<le> length buf"
    and "\<And>p q. p \<in> set ps \<Longrightarrow> q \<in> set ps \<Longrightarrow> p \<noteq> q \<Longrightarrow> at p + length (val p) \<le> at q \<or> at q + length (val q) \<le> at p"
  shows "\<exists>buf'. for_each (\<lambda>p. put_bytes (val p) (at p)) ps buf = Some buf' \<and> length buf' = length buf \<and>
    (\<forall>p \<in> set ps. take (length (val p)) (drop (at p) buf') = val p) \<and>
    (\<forall>i. (\<forall>p \<in> set ps. i < at p \<or> at p + length (val p) \<le> i) \<longrightarrow> buf' ! i = buf ! i)"
  using assms
proof (induction ps arbitrary: buf)
  case (Cons p ps)
  have room: "at p + length (val p) \<le> length buf" using Cons.prems(2) by simp
  obtain b where b: "put_bytes (val p) (at p) buf = Some b" using put_bytes_ok [OF room] by simp
  note bf = put_bytes_facts [OF b room]
  have "distinct ps" using Cons.prems(1) by simp
  moreover have "at q + length (val q) \<le> length b" if "q \<in> set ps" for q using Cons.prems(2) that bf(1) by simp
  moreover have "at q + length (val q) \<le> at r \<or> at r + length (val r) \<le> at q" if "q \<in> set ps" "r \<in> set ps" "q \<noteq> r" for q r
    using Cons.prems(3) that by simp
  ultimately obtain b' where b': "for_each (\<lambda>p. put_bytes (val p) (at p)) ps b = Some b'" "length b' = length b"
      "\<forall>q \<in> set ps. take (length (val q)) (drop (at q) b') = val q"
      "\<forall>i. (\<forall>q \<in> set ps. i < at q \<or> at q + length (val q) \<le> i) \<longrightarrow> b' ! i = b ! i"
    using Cons.IH [of b] by blast
  have "take (length (val p)) (drop (at p) b') = take (length (val p)) (drop (at p) b)"
  proof (rule nth_equalityI)
    fix k assume "k < length (take (length (val p)) (drop (at p) b'))"
    then have k: "k < length (val p)" by simp
    have "at p + k < at q \<or> at q + length (val q) \<le> at p + k" if "q \<in> set ps" for q
    proof -
      have "p \<noteq> q" using Cons.prems(1) that by auto
      then show ?thesis using Cons.prems(3) [of p q] that k by auto
    qed
    then show "take (length (val p)) (drop (at p) b') ! k = take (length (val p)) (drop (at p) b) ! k"
      using b'(2,4) room bf(1) k by simp
  qed (simp add: b'(2))
  then show ?case using b b' bf by auto
qed simp

section \<open>The layout\<close>

lemma unat_u64: "n < 2 ^ 33 \<Longrightarrow> unat (of_nat n :: u64) = n"
  by (simp add: unsigned_of_nat take_bit_nat_eq_self)

definition row_len :: "int \<Rightarrow> nat" where
  "row_len width = (nat width * 3 + 3) div 4 * 4"

lemma word_nonneg: "0 \<le> i \<Longrightarrow> (word_of_int i :: u64) = of_nat (nat i)"
  by simp

lemma mask_low2:
  assumes "unat (x :: u64) < 2 ^ 32"
  shows "x AND ucast (NOT 3 :: u32) = of_nat (unat x div 4 * 4)"
proof -
  have m: "(ucast (NOT 3 :: u32) :: u64) = push_bit 2 (mask 30)" by (simp add: mask_eq_exp_minus_1 push_bit_eq_mult)
  have hi: "n < 32" if "bit x n" for n
  proof (rule ccontr)
    assume "\<not> n < 32"
    then have "unat x < 2 ^ n" using assms power_increasing [of 32 n "2 :: nat"] by linarith
    moreover have "bit (unat x) n" using that bit_imp_le_length by (auto simp: bit_unsigned_iff)
    ultimately show False by (simp add: bit_iff_odd)
  qed
  have "x AND ucast (NOT 3 :: u32) = push_bit 2 (drop_bit 2 x)"
    unfolding m
  proof (rule bit_eqI)
    fix n assume "possible_bit TYPE(u64) n"
    then show "bit (x AND push_bit 2 (mask 30)) n = bit (push_bit 2 (drop_bit 2 x)) n"
      using hi [of n] by (cases "2 \<le> n") (auto simp: bit_simps dest!: le_Suc_ex)
  qed
  also have "drop_bit 2 x = of_nat (unat (drop_bit 2 x))" by simp
  also have "unat (drop_bit 2 x) = unat x div 4" unfolding unat_drop_bit_eq by (simp add: drop_bit_eq_div)
  also have "push_bit 2 (of_nat (unat x div 4) :: u64) = of_nat (unat x div 4 * 4)" by (simp add: push_bit_eq_mult)
  finally show ?thesis .
qed

text \<open>Sizes for which the file size fits the 32-bit field of the header.\<close>

definition bmp_fits :: "int \<Rightarrow> int \<Rightarrow> bool" where
  "bmp_fits width height \<longleftrightarrow> 0 < width \<and> 0 < height \<and> BMP_HEADER_SIZE + row_len width * nat height < 2 ^ 32"

lemma row_len_bounds: "nat width * 3 \<le> row_len width" "row_len width \<le> nat width * 3 + 3"
  using div_mult_mod_eq [of "nat width * 3 + 3" 4] mod_less_divisor [of 4 "nat width * 3 + 3"] by (simp_all add: row_len_def)

lemma bmp_row_len:
  assumes "bmp_fits width height"
  shows "bmp_row width = of_nat (row_len width)" and "row_len width < 2 ^ 32" and "nat width < 2 ^ 32" and "nat height < 2 ^ 32"
proof -
  have w: "0 < width" "1 \<le> nat height" using assms by (auto simp: bmp_fits_def)
  have prod: "row_len width * nat height < 4294967242" using assms by (simp add: bmp_fits_def BMP_HEADER_SIZE_def)
  then have r: "row_len width < 4294967242" using mult_le_mono2 [OF w(2), of "row_len width"] by linarith
  then show "row_len width < 2 ^ 32" by simp
  have w3: "nat width * 3 \<le> row_len width" by (rule row_len_bounds(1))
  then show "nat width < 2 ^ 32" using r by simp
  have "1 \<le> row_len width" using w3 w(1) by linarith
  then have "1 * nat height \<le> row_len width * nat height" by (rule mult_le_mono1)
  then have "nat height < 4294967242" using prod by linarith
  then show "nat height < 2 ^ 32" by simp
  have "(word_of_int width * 3 + 3 :: u64) = of_nat (nat width * 3 + 3)" using w(1)
    by (simp only: word_nonneg of_nat_add of_nat_mult of_nat_numeral less_imp_le)
  moreover have "nat width * 3 + 3 < 2 ^ 33" using w3 r by simp
  ultimately have u: "unat (word_of_int width * 3 + 3 :: u64) = nat width * 3 + 3" by (simp only: unat_u64)
  have "nat width * 3 + 3 < 2 ^ 32" using w3 r by simp
  then show "bmp_row width = of_nat (row_len width)"
    using mask_low2 [of "word_of_int width * 3 + 3"] by (simp only: bmp_row_def row_len_def u)
qed

lemma pixel_at_eq:
  assumes "bmp_fits width height" and "0 \<le> y" "y < height" "0 \<le> x" "x < width"
  shows "pixel_at width height y x = BMP_HEADER_SIZE + nat (height - 1 - y) * row_len width + 3 * nat x"
    and "pixel_at width height y x + 3 \<le> BMP_HEADER_SIZE + Suc (nat (height - 1 - y)) * row_len width"
proof -
  let ?r = "nat (height - 1 - y)" and ?n = "BMP_HEADER_SIZE + nat (height - 1 - y) * row_len width + 3 * nat x"
  have r: "0 \<le> height - 1 - y" using assms by simp
  have x: "3 * nat x + 3 \<le> row_len width" using assms row_len_bounds(1) [of width] by linarith
  have "Suc ?r * row_len width \<le> nat height * row_len width" using assms by (intro mult_le_mono1) linarith
  then have "?n < 2 ^ 32" using assms(1) x by (simp add: bmp_fits_def mult.commute)
  then have "unat (of_nat ?n :: u64) = ?n" by (simp add: unat_u64 del: of_nat_add of_nat_mult)
  moreover have "of_nat BMP_HEADER_SIZE + word_of_int (height - 1 - y) * bmp_row width + word_of_int x * 3 = (of_nat ?n :: u64)"
    unfolding bmp_row_len(1) [OF assms(1)] word_nonneg [OF assms(4)] word_nonneg [OF r] by (simp add: mult.commute)
  ultimately show "pixel_at width height y x = ?n" by (simp only: pixel_at_def)
  then show "pixel_at width height y x + 3 \<le> BMP_HEADER_SIZE + Suc ?r * row_len width" using x by simp
qed

lemma pixels_apart:
  assumes fits: "bmp_fits width height" and p: "0 \<le> y" "y < height" "0 \<le> x" "x < width" "0 \<le> y'" "y' < height" "0 \<le> x'" "x' < width"
    and ne: "(y, x) \<noteq> (y', x')"
  shows "pixel_at width height y x + 3 \<le> pixel_at width height y' x' \<or> pixel_at width height y' x' + 3 \<le> pixel_at width height y x"
proof -
  note at = pixel_at_eq(1) [OF fits p(1-4)] pixel_at_eq(1) [OF fits p(5-8)]
  note top = pixel_at_eq(2) [OF fits p(1-4)] pixel_at_eq(2) [OF fits p(5-8)]
  consider "y = y'" "nat x \<noteq> nat x'" | "Suc (nat (height - 1 - y)) \<le> nat (height - 1 - y')" | "Suc (nat (height - 1 - y')) \<le> nat (height - 1 - y)"
    using ne p by (cases "y = y'") (auto, linarith)
  then show ?thesis
  proof cases
    case 1
    then show ?thesis unfolding at by auto
  next
    case 2
    from mult_le_mono1 [OF this, of "row_len width"] show ?thesis using top(1) at(2) by linarith
  next
    case 3
    from mult_le_mono1 [OF this, of "row_len width"] show ?thesis using top(2) at(1) by linarith
  qed
qed

section \<open>Colours\<close>

lemma escape_range: "iter \<le> max_iter \<Longrightarrow> iter \<le> escape fp max_iter cx cy zx zy iter \<and> escape fp max_iter cx cy zx zy iter \<le> max_iter"
proof (induction fp max_iter cx cy zx zy iter rule: escape.induct)
  case (1 fp max_iter cx cy zx zy iter)
  show ?case
  proof (cases "f_le fp (f_add fp (f_mul fp zx zx) (f_mul fp zy zy)) (f_tenths fp 40) \<and> iter < max_iter")
    case True
    then have "iter + 1 \<le> max_iter" by simp
    from "1.IH" [OF True this] show ?thesis unfolding escape.simps [of fp max_iter cx cy zx zy iter] using True by simp
  next
    case False
    then show ?thesis unfolding escape.simps [of fp max_iter cx cy zx zy iter] using "1.prems" by auto
  qed
qed

text \<open>\<^verbatim>\<open>iter * 255\<close> must fit an \<^verbatim>\<open>int\<close>.\<close>

definition MAX_ITER_OK :: int where "MAX_ITER_OK = 8421504"

lemma color_pixel_ok:
  assumes "0 \<le> iter" and "0 < max_iter" and "max_iter \<le> MAX_ITER_OK"
  shows "\<exists>bgr. color_pixel iter max_iter = Some bgr \<and> length bgr = 3"
proof (cases "max_iter \<le> iter")
  case False
  have "iter * 255 div max_iter \<le> 255"
  proof -
    have "iter * 255 \<le> 255 * max_iter" using False by simp
    then have "iter * 255 div max_iter \<le> 255 * max_iter div max_iter" using assms(2) by (rule zdiv_mono1)
    then show ?thesis using assms(2) by simp
  qed
  then have t: "0 \<le> iter * 255 div max_iter" "iter * 255 div max_iter \<le> 255" using assms by (simp_all add: pos_imp_zdiv_nonneg_iff)
  define t where "t = iter * 255 div max_iter"
  have t': "0 \<le> t" "t \<le> 255" using t by (simp_all add: t_def)
  then have "t * t \<le> 255 * 255" by (intro mult_mono) auto
  moreover have "0 \<le> t * t" by simp
  ultimately have "- 2147483648 \<le> t * t \<and> t * t < 2147483648" by linarith
  then have "int_ok (t * t)" by (simp add: int_ok_def)
  moreover have "int_ok (iter * 255)" "int_ok (t * 120)" using t' assms False by (simp_all add: int_ok_def MAX_ITER_OK_def)
  ultimately show ?thesis using assms False by (simp add: color_pixel_def int_mul_def int_of_ok t_def Let_def)
qed (simp add: color_pixel_def)

section \<open>The file\<close>

text \<open>What a reader of the file sees: little-endian fields.\<close>

definition le16 :: "u16 \<Rightarrow> u8 list" where
  "le16 v = [ucast (v AND 0xff), ucast (drop_bit 8 v AND 0xff)]"

definition le32 :: "u32 \<Rightarrow> u8 list" where
  "le32 v = [ucast (v AND 0xff), ucast (drop_bit 8 v AND 0xff), ucast (drop_bit 16 v AND 0xff), ucast (drop_bit 24 v AND 0xff)]"

fun get_le :: "u8 list \<Rightarrow> nat" where
  "get_le [] = 0"
| "get_le (b # bs) = unat b + 256 * get_le bs"

definition field :: "nat \<Rightarrow> nat \<Rightarrow> u8 list \<Rightarrow> u8 list" where
  "field at n bmp = take n (drop at bmp)"

lemma low_byte:
  "unat (ucast (v AND 0xff) :: u8) = unat v mod 256" for v :: u32
proof -
  have "(0xff :: u32) = mask 8" by (simp add: mask_eq_exp_minus_1)
  then have "v AND 0xff = take_bit 8 v" by (simp only: take_bit_eq_mask)
  moreover have "unat (ucast (take_bit 8 v) :: u8) = take_bit 8 (unat v)"
    by (simp only: unsigned_ucast_eq unsigned_take_bit_eq) simp
  ultimately show ?thesis by (simp only: take_bit_eq_mod) simp
qed

lemma get_le32: "get_le (le32 v) = unat v"
proof -
  have "unat v < 2 ^ LENGTH(32)" by (rule unsigned_less)
  then have b: "unat v < 2 ^ 32" by simp
  have d: "unat (drop_bit n v) = unat v div 2 ^ n" for n unfolding unat_drop_bit_eq by (rule drop_bit_eq_div)
  define n where "n = unat v"
  have n: "n < 2 ^ 32" using b by (simp add: n_def)
  have "n div 2 ^ 8 div 256 = n div 2 ^ 16" "n div 2 ^ 16 div 256 = n div 2 ^ 24" "n div 2 ^ 24 div 256 = 0"
    using n by (simp_all flip: div_mult2_eq)
  then have "n mod 256 + 256 * (n div 2 ^ 8 mod 256 + 256 * (n div 2 ^ 16 mod 256 + 256 * (n div 2 ^ 24 mod 256))) = n"
    using div_mult_mod_eq [of n 256] div_mult_mod_eq [of "n div 2 ^ 8" 256] div_mult_mod_eq [of "n div 2 ^ 16" 256]
      div_mult_mod_eq [of "n div 2 ^ 24" 256] by (simp add: algebra_simps)
  then show ?thesis by (simp only: le32_def get_le.simps low_byte d n_def mult_0_right add_0_right)
qed

lemma put_bytes_append:
  "at + length bs \<le> length xs \<Longrightarrow> put_bytes bs at (xs @ ys) = map_option (\<lambda>zs. zs @ ys) (put_bytes bs at xs)"
  by (simp add: put_bytes_ok)

definition bmp_head :: "u32 \<Rightarrow> u32 \<Rightarrow> u32 \<Rightarrow> u32 \<Rightarrow> u8 list" where
  "bmp_head tot w h pix = [0x42, 0x4d] @ le32 tot @ [0, 0, 0, 0] @ le32 54 @ le32 40 @ le32 w @ le32 h @ le16 1 @ le16 24 @
     [0, 0, 0, 0] @ le32 pix @ replicate 16 0"

lemma length_bmp_head: "length (bmp_head tot w h pix) = 54"
  by (simp add: bmp_head_def le32_def le16_def)

lemma bmp_header_ok:
  assumes "54 \<le> n"
  shows "bmp_header width height pixels tot (replicate n 0) =
    Some (bmp_head (ucast tot) (word_of_int width) (word_of_int height) (ucast pixels) @ replicate (n - 54) 0)"
proof -
  have r: "replicate n 0 = replicate 54 0 @ replicate (n - 54) (0 :: u8)" using assms by (simp flip: replicate_add)
  show ?thesis
    unfolding r bmp_header_def put_u32_def put_u16_def
    by (simp add: array_set_def bmp_head_def le32_def le16_def BMP_HEADER_SIZE_def replicate_numeral)
qed

lemma field_append: "at + n \<le> length xs \<Longrightarrow> field at n (xs @ ys) = field at n xs"
  by (simp add: field_def)

lemma bmp_head_fields:
  "field 0 2 (bmp_head tot w h pix) = [0x42, 0x4d]" "field 2 4 (bmp_head tot w h pix) = le32 tot"
  "field 10 4 (bmp_head tot w h pix) = le32 54" "field 14 4 (bmp_head tot w h pix) = le32 40"
  "field 18 4 (bmp_head tot w h pix) = le32 w" "field 22 4 (bmp_head tot w h pix) = le32 h"
  "field 26 2 (bmp_head tot w h pix) = le16 1" "field 28 2 (bmp_head tot w h pix) = le16 24"
  "field 34 4 (bmp_head tot w h pix) = le32 pix"
  by (simp_all add: bmp_head_def le32_def le16_def field_def)

lemma for_each_cong:
  assumes "\<And>x s. x \<in> set xs \<Longrightarrow> f x s = g x s"
  shows "for_each f xs s = for_each g xs s"
  using assms by (induction xs arbitrary: s) (auto split: Option.bind_split)

text \<open>The pixel loop as a scatter of the colours, in the order of the loops.\<close>

definition color_at :: "'d fp \<Rightarrow> int \<Rightarrow> int \<Rightarrow> int \<Rightarrow> int \<times> int \<Rightarrow> u8 list" where
  "color_at fp width height max_iter p =
     the (color_pixel (pixel_iter fp width height max_iter (fst p) (snd p)) max_iter)"

lemma color_at_ok:
  assumes "0 < max_iter" and "max_iter \<le> MAX_ITER_OK"
  shows "color_pixel (pixel_iter fp width height max_iter y x) max_iter = Some (color_at fp width height max_iter (y, x))"
    and "length (color_at fp width height max_iter p) = 3"
proof -
  have "\<exists>bgr. color_pixel (pixel_iter fp width height max_iter y x) max_iter = Some bgr \<and> length bgr = 3" for y x
    unfolding pixel_iter_def by (rule color_pixel_ok [OF conjunct1 [OF escape_range] assms]) (use assms(1) in simp)
  from this [of y x] this [of "fst p" "snd p"]
  show "color_pixel (pixel_iter fp width height max_iter y x) max_iter = Some (color_at fp width height max_iter (y, x))"
    and "length (color_at fp width height max_iter p) = 3" by (auto simp: color_at_def)
qed

lemma draw_pixels:
  assumes fits: "bmp_fits width height" and it: "0 < max_iter" "max_iter \<le> MAX_ITER_OK"
    and buf: "length buf = BMP_HEADER_SIZE + row_len width * nat height"
  shows "\<exists>bmp. for_each (\<lambda>y. for_each (\<lambda>x. draw_pixel fp width height max_iter y x) [0..width - 1]) [0..height - 1] buf = Some bmp \<and>
    length bmp = length buf \<and> take BMP_HEADER_SIZE bmp = take BMP_HEADER_SIZE buf \<and>
    (\<forall>y x. 0 \<le> y \<and> y < height \<and> 0 \<le> x \<and> x < width \<longrightarrow>
       field (pixel_at width height y x) 3 bmp = color_at fp width height max_iter (y, x))"
proof -
  let ?ps = "List.product [0..height - 1] [0..width - 1]"
  let ?val = "color_at fp width height max_iter" and ?at = "\<lambda>p. pixel_at width height (fst p) (snd p)"
  have ps: "p \<in> set ?ps \<longleftrightarrow> 0 \<le> fst p \<and> fst p < height \<and> 0 \<le> snd p \<and> snd p < width" for p by (cases p) auto
  have len: "length (?val p) = 3" for p by (rule color_at_ok(2) [OF it])
  have eq: "for_each (\<lambda>y. for_each (\<lambda>x. draw_pixel fp width height max_iter y x) [0..width - 1]) [0..height - 1] buf =
      for_each (\<lambda>p. put_bytes (?val p) (?at p)) ?ps buf"
    unfolding for_each_nested
    by (rule for_each_cong) (simp add: draw_pixel_def color_at_ok(1) [OF it] case_prod_beta)
  have top: "?at p + 3 \<le> length buf" if p: "p \<in> set ?ps" for p
  proof -
    have "Suc (nat (height - 1 - fst p)) * row_len width \<le> nat height * row_len width" using p [unfolded ps] by (intro mult_le_mono1) linarith
    then show ?thesis using pixel_at_eq(2) [OF fits, of "fst p" "snd p"] p [unfolded ps] buf by (simp add: mult.commute)
  qed
  have d: "distinct ?ps" by (intro distinct_product) auto
  have apart: "?at p + 3 \<le> ?at q \<or> ?at q + 3 \<le> ?at p" if "p \<in> set ?ps" "q \<in> set ?ps" "p \<noteq> q" for p q
    using pixels_apart [OF fits, of "fst p" "snd p" "fst q" "snd q"] that unfolding ps by (simp add: prod_eq_iff)
  obtain bmp where bmp: "for_each (\<lambda>p. put_bytes (?val p) (?at p)) ?ps buf = Some bmp" "length bmp = length buf"
      "\<forall>p \<in> set ?ps. take 3 (drop (?at p) bmp) = ?val p"
      "\<forall>i. (\<forall>p \<in> set ?ps. i < ?at p \<or> ?at p + 3 \<le> i) \<longrightarrow> bmp ! i = buf ! i"
    using scatter [OF d, of ?at ?val buf] top apart unfolding len by blast
  have "take BMP_HEADER_SIZE bmp = take BMP_HEADER_SIZE buf"
  proof (rule nth_equalityI)
    fix i assume "i < length (take BMP_HEADER_SIZE bmp)"
    then have i: "i < BMP_HEADER_SIZE" by simp
    have "i < ?at p" if "p \<in> set ?ps" for p using that i pixel_at_eq(1) [OF fits, of "fst p" "snd p"] unfolding ps by simp
    then show "take BMP_HEADER_SIZE bmp ! i = take BMP_HEADER_SIZE buf ! i"
      using bmp(4) [rule_format, of i] i by (simp only: nth_take) blast
  qed (simp add: bmp(2))
  moreover have "field (pixel_at width height y x) 3 bmp = ?val (y, x)" if yx: "0 \<le> y \<and> y < height \<and> 0 \<le> x \<and> x < width" for y x
    using bspec [OF bmp(3), of "(y, x)"] yx by (simp add: field_def)
  ultimately show ?thesis using bmp(1,2) eq by auto
qed

lemma bmp_sizes:
  assumes "bmp_fits width height"
  defines "pixels \<equiv> bmp_row width * word_of_int height"
  shows "unat pixels = row_len width * nat height" and "unat (of_nat BMP_HEADER_SIZE + pixels) = BMP_HEADER_SIZE + row_len width * nat height"
    and "\<not> of_nat BMP_HEADER_SIZE + pixels < pixels"
    and "unat (ucast pixels :: u32) = row_len width * nat height"
    and "unat (ucast (of_nat BMP_HEADER_SIZE + pixels) :: u32) = BMP_HEADER_SIZE + row_len width * nat height"
proof -
  let ?n = "row_len width * nat height"
  have n: "BMP_HEADER_SIZE + ?n < 2 ^ 32" and h: "0 \<le> height" using assms(1) by (simp_all add: bmp_fits_def)
  have p: "pixels = of_nat ?n" unfolding pixels_def bmp_row_len(1) [OF assms(1)] word_nonneg [OF h] by (simp only: of_nat_mult)
  have t: "of_nat BMP_HEADER_SIZE + pixels = of_nat (BMP_HEADER_SIZE + ?n)" unfolding p by (simp only: of_nat_add)
  have small: "unat (of_nat k :: u64) = k" "unat (ucast (of_nat k :: u64) :: u32) = k" if "k < 2 ^ 32" for k
  proof -
    show u: "unat (of_nat k :: u64) = k" using that by (intro unat_u64) simp
    have "unat (ucast (of_nat k :: u64) :: u32) = take_bit 32 (unat (of_nat k :: u64))"
      by (simp only: unsigned_ucast_eq unsigned_take_bit_eq) simp
    then show "unat (ucast (of_nat k :: u64) :: u32) = k" unfolding u using that by (simp add: take_bit_nat_eq_self)
  qed
  show "unat pixels = ?n" "unat (ucast pixels :: u32) = ?n" unfolding p using n by (simp_all only: small add_lessD1 add.commute [of BMP_HEADER_SIZE])
  then show "\<not> of_nat BMP_HEADER_SIZE + pixels < pixels"
    unfolding word_less_nat_alt t using n small(1) [of "BMP_HEADER_SIZE + ?n"] by simp
  show "unat (of_nat BMP_HEADER_SIZE + pixels) = BMP_HEADER_SIZE + ?n"
    "unat (ucast (of_nat BMP_HEADER_SIZE + pixels) :: u32) = BMP_HEADER_SIZE + ?n" unfolding t by (rule small [OF n])+
qed

lemma mandelbrot_bmp_file:
  assumes "bmp_fits width height" and "0 < max_iter" "max_iter \<le> MAX_ITER_OK"
  shows "\<exists>bmp. mandelbrot_bmp fp True width height max_iter True = Some (Some bmp) \<and>
    length bmp = BMP_HEADER_SIZE + row_len width * nat height \<and>
    field 0 2 bmp = [0x42, 0x4d] \<and> get_le (field 2 4 bmp) = length bmp \<and> get_le (field 10 4 bmp) = 54 \<and>
    get_le (field 18 4 bmp) = nat width \<and> get_le (field 22 4 bmp) = nat height \<and> get_le (field 28 2 bmp) = 24 \<and>
    get_le (field 34 4 bmp) = row_len width * nat height \<and>
    (\<forall>y x. 0 \<le> y \<and> y < height \<and> 0 \<le> x \<and> x < width \<longrightarrow>
       color_pixel (pixel_iter fp width height max_iter y x) max_iter =
         Some (field (BMP_HEADER_SIZE + nat (height - 1 - y) * row_len width + 3 * nat x) 3 bmp))"
proof -
  let ?pix = "bmp_row width * word_of_int height :: u64" and ?n = "BMP_HEADER_SIZE + row_len width * nat height"
  let ?hd = "bmp_head (ucast (of_nat BMP_HEADER_SIZE + ?pix)) (word_of_int width) (word_of_int height) (ucast ?pix)"
  let ?buf = "?hd @ replicate (?n - 54) 0"
  note sz = bmp_sizes [OF assms(1)]
  have wh: "0 < width" "0 < height" using assms(1) by (simp_all add: bmp_fits_def)
  have u32: "unat (word_of_int i :: u32) = nat i" if "0 \<le> i" "nat i < 2 ^ 32" for i
    using that by (simp add: unsigned_of_int take_bit_int_eq_self)
  have w32: "unat (word_of_int width :: u32) = nat width" "unat (word_of_int height :: u32) = nat height"
    using wh bmp_row_len(3,4) [OF assms(1)] by (auto intro!: u32)
  have hdr: "bmp_header width height ?pix (of_nat BMP_HEADER_SIZE + ?pix) (replicate ?n 0) = Some ?buf"
    by (rule bmp_header_ok) (simp add: BMP_HEADER_SIZE_def)
  obtain bmp where bmp: "for_each (\<lambda>y. for_each (\<lambda>x. draw_pixel fp width height max_iter y x) [0..width - 1]) [0..height - 1] ?buf = Some bmp"
      "length bmp = length ?buf" "take BMP_HEADER_SIZE bmp = take BMP_HEADER_SIZE ?buf"
      "\<forall>y x. 0 \<le> y \<and> y < height \<and> 0 \<le> x \<and> x < width \<longrightarrow> field (pixel_at width height y x) 3 bmp = color_at fp width height max_iter (y, x)"
    using draw_pixels [OF assms, of ?buf fp] by (auto simp: length_bmp_head BMP_HEADER_SIZE_def)
  have run: "mandelbrot_bmp fp True width height max_iter True = Some (Some bmp)"
    using wh assms(2) sz(3) bmp(1) hdr by (simp add: mandelbrot_bmp_def Let_def sz(2))
  have "take 54 bmp = ?hd" using bmp(3) by (simp add: BMP_HEADER_SIZE_def length_bmp_head)
  then have split: "bmp = ?hd @ drop 54 bmp" by (metis append_take_drop_id)
  have f: "field at k bmp = field at k ?hd" if "at + k \<le> 54" for at k
    by (subst split) (rule field_append, simp add: length_bmp_head that)
  have "get_le (le16 24) = 24" by (simp add: le16_def)
  moreover have "color_pixel (pixel_iter fp width height max_iter y x) max_iter =
      Some (field (BMP_HEADER_SIZE + nat (height - 1 - y) * row_len width + 3 * nat x) 3 bmp)"
    if "0 \<le> y \<and> y < height \<and> 0 \<le> x \<and> x < width" for y x
  proof -
    have "pixel_at width height y x = BMP_HEADER_SIZE + nat (height - 1 - y) * row_len width + 3 * nat x"
      using pixel_at_eq(1) [OF assms(1), of y x] that by blast
    then show ?thesis using bmp(4) that color_at_ok(1) [OF assms(2,3)] by metis
  qed
  ultimately show ?thesis
    using run bmp(2) by (simp add: f bmp_head_fields get_le32 sz sz(5) [unfolded BMP_HEADER_SIZE_def, simplified] w32 length_bmp_head BMP_HEADER_SIZE_def)
qed

lemma bmp_written:
  assumes "bmp_fits width height" and "0 < max_iter" "max_iter \<le> MAX_ITER_OK"
  shows "\<exists>bmp. mandelbrot_bmp fp True width height max_iter True = Some (Some bmp) \<and> length bmp = BMP_HEADER_SIZE + row_len width * nat height"
  using mandelbrot_bmp_file [OF assms, of fp] by blast




text \<open>
  The mask \<^verbatim>\<open>~3u\<close> has 32 bits: for a width of \<^verbatim>\<open>1431655765\<close> the row length is truncated to 0, and the first pixel is
  stored behind the buffer.
\<close>

lemma mandelbrot_wide_faults:
  assumes "0 < max_iter" and "max_iter \<le> MAX_ITER_OK"
  shows "mandelbrot_bmp fp True 1431655765 1 max_iter True = None"
proof -
  have row: "bmp_row 1431655765 = 0" by (simp add: bmp_row_def)
  have up: "[0..1431655764] = 0 # [1..1431655764 :: int]" by (subst upto_rec1) simp_all
  obtain bgr where c: "color_pixel (pixel_iter fp 1431655765 1 max_iter 0 0) max_iter = Some bgr" "length bgr = 3"
    using color_at_ok [OF assms, of fp 1431655765 1] by blast
  then obtain b bs where "bgr = b # bs" by (cases bgr) auto
  moreover have "bmp_header 1431655765 1 0 54 (replicate 54 0) = Some (bmp_head 54 1431655765 1 0)"
    using bmp_header_ok [of 54 1431655765 1 0 54] by simp
  ultimately show ?thesis
    using assms(1) c(1) by (simp add: mandelbrot_bmp_def Let_def row up draw_pixel_def pixel_at_def BMP_HEADER_SIZE_def
      length_bmp_head array_set_def)
qed

end
