(* ===== verification/Http_Server.thy ===== *)
theory Http_Server
  imports Http_Log Http_Parse Mandelbrot Thread_Pool
begin

text \<open>
  The requests of the HTTP demonstration (\<^verbatim>\<open>demo/http_server.c\<close>): writing to sockets, the responses, the handlers of the
  two ports, the table of event subscribers and the accept loop. The state is one record, with the open descriptors and what was
  sent on them. Closing a descriptor that is not open is a fault.
\<close>

section \<open>Sockets\<close>

text \<open>
  An answer of \<^verbatim>\<open>send\<close>: it took the given number of bytes, at most all of them, it was interrupted, or it failed. When the
  list of answers ends, \<^verbatim>\<open>send\<close> fails.
\<close>

datatype send_answer = Sent nat | Interrupted | Failed

text \<open>Success, the bytes sent, and the answers left.\<close>

fun write_all :: "send_answer list \<Rightarrow> string \<Rightarrow> bool \<times> string \<times> send_answer list" where
  "write_all net [] = (True, [], net)"
| "write_all [] (c # cs) = (False, [], [])"
| "write_all (Interrupted # net) (c # cs) = write_all net (c # cs)"
| "write_all (Failed # net) (c # cs) = (False, [], net)"
| "write_all (Sent n # net) (c # cs) =
     (if n = 0 then (False, [], net)
      else case write_all net (drop n (c # cs)) of (ok, outp, net) \<Rightarrow> (ok, take n (c # cs) @ outp, net))"

lemma write_all_result:
  assumes "write_all net buf = (ok, outp, net')"
  shows "\<exists>rest. buf = outp @ rest \<and> (ok \<longleftrightarrow> rest = [])"
  using assms
proof (induction net buf arbitrary: ok outp net' rule: write_all.induct)
  case (5 n net c cs)
  show ?case
  proof (cases "n = 0")
    case False
    obtain k s r where w: "write_all net (drop n (c # cs)) = (k, s, r)" by (metis prod_cases3)
    from "5.IH" [OF False w] obtain rest where "drop n (c # cs) = s @ rest" "k \<longleftrightarrow> rest = []" by blast
    moreover have "ok = k" "outp = take n (c # cs) @ s" using "5.prems" False w by auto
    ultimately show ?thesis using append_take_drop_id [of n "c # cs"] by (intro exI [of _ rest]) auto
  qed (use "5.prems" in auto)
qed auto

section \<open>State\<close>

definition MAX_SSE_CLIENTS :: nat where "MAX_SSE_CLIENTS = 64"

definition STATS_JSON_MAX :: nat where "STATS_JSON_MAX = 256"

text \<open>
  \<open>conns\<close> counts the \<^verbatim>\<open>conn_arg_t\<close> blocks that are allocated; \<open>net\<close> holds the coming answers of \<^verbatim>\<open>send\<close>, \<open>wire\<close> what was sent on
  which descriptor, \<open>console\<close> what was printed.
\<close>

record server =
  open_fds :: "int list"
  net :: "send_answer list"
  wire :: "(int \<times> string) list"
  conns :: nat
  active_connections :: u32
  total_served :: u64
  request_log :: log_ring_t
  console :: "string list"
  bcast_gen :: u64
  sse_fds :: "int list"
  sse_count :: nat

definition close_fd :: "int \<Rightarrow> server \<Rightarrow> server option" where
  "close_fd fd s = (if fd \<in> set (open_fds s) then Some (s\<lparr>open_fds := remove1 fd (open_fds s)\<rparr>) else None)"

definition send_all :: "int \<Rightarrow> string \<Rightarrow> server \<Rightarrow> bool \<times> server" where
  "send_all fd buf s =
     (case write_all (net s) buf of (ok, outp, rest) \<Rightarrow> (ok, s\<lparr>net := rest, wire := wire s @ [(fd, outp)]\<rparr>))"

definition notify_event :: "server \<Rightarrow> server" where
  "notify_event s = s\<lparr>bcast_gen := bcast_gen s + 1\<rparr>"

section \<open>Responses\<close>

definition crlf :: string where "crlf = [char_of (13 :: nat), char_of (10 :: nat)]"

definition header_text :: "int \<Rightarrow> string \<Rightarrow> string \<Rightarrow> nat \<Rightarrow> string" where
  "header_text code reason type body_len =
     ''HTTP/1.0 '' @ show_int code @ '' '' @ reason @ crlf @ ''Content-Type: '' @ type @ crlf @
     ''Content-Length: '' @ dec body_len @ crlf @ ''Connection: close'' @ crlf @ crlf"

text \<open>
  The \<open>n\<close> bytes of a buffer of \<open>len\<close> bytes that \<^verbatim>\<open>snprintf\<close> filled and whose length \<open>n\<close> it returned: behind its end
  they are not there.
\<close>

definition formatted :: "nat \<Rightarrow> string \<Rightarrow> string option" where
  "formatted len t =
     (if length t < len then Some t
      else if length t = len then Some (snprintf len t @ [char_of (0 :: nat)])
      else None)"

definition send_typed :: "int \<Rightarrow> int \<Rightarrow> string \<Rightarrow> string \<Rightarrow> string \<Rightarrow> server \<Rightarrow> (nat \<times> server) option" where
  "send_typed fd code reason type body s = do {
     header \<leftarrow> formatted 512 (header_text code reason type (length body));
     let (_, s) = send_all fd header s;
     let (_, s) = send_all fd body s;
     Some (length body, s)
   }"

definition send_status :: "int \<Rightarrow> int \<Rightarrow> string \<Rightarrow> string \<Rightarrow> server \<Rightarrow> (nat \<times> server) option" where
  "send_status fd code reason body s = do {
     header \<leftarrow> formatted 512 (header_text code reason ''text/plain'' (length body));
     let (_, s) = send_all fd header s;
     let (_, s) = send_all fd body s;
     Some (length body, s)
   }"

record resp_t =
  status :: int
  resp_bytes :: int

definition newline :: string where "newline = [char_of (10 :: nat)]"

definition byte_char :: "u8 \<Rightarrow> char" where "byte_char b = char_of (unat b)"

definition serve_render :: "'d fp \<Rightarrow> bool \<Rightarrow> int \<Rightarrow> string \<Rightarrow> server \<Rightarrow> (resp_t \<times> server) option" where
  "serve_render fp mem fd query s = do {
     let w = query_int query ''w'' 640 16 2048;
     let h = query_int query ''h'' 420 16 2048;
     let iter = query_int query ''iter'' 800 1 5000;
     r \<leftarrow> mandelbrot_bmp fp mem w h iter True;
     case r of
       None \<Rightarrow> do {
         (n, s) \<leftarrow> send_status fd 500 ''Internal Server Error'' (''render failed'' @ newline) s;
         Some (\<lparr>status = 500, resp_bytes = int n\<rparr>, s)
       }
     | Some bmp \<Rightarrow> do {
         header \<leftarrow> formatted 256 (header_text 200 ''OK'' ''image/bmp'' (length bmp));
         let (_, s) = send_all fd header s;
         let (_, s) = send_all fd (map byte_char bmp) s;
         Some (\<lparr>status = 200, resp_bytes = int (length bmp)\<rparr>, s)
       }
   }"

section \<open>The log\<close>

text \<open>The texts of the time and of the two \<^verbatim>\<open>double\<close> values of a log line, and whether the monitor is attached.\<close>

record log_env =
  time_text :: string
  mb_text :: "int \<Rightarrow> string"
  ms_text :: string
  attached :: bool

definition log_line :: "log_env \<Rightarrow> string \<Rightarrow> string \<Rightarrow> string \<Rightarrow> string \<Rightarrow> resp_t \<Rightarrow> string" where
  "log_line e peer meth path query r =
     snprintf LOG_LINE_MAX
       (''['' @ time_text e @ ''] '' @ pad_right 21 peer @ '' '' @ meth @ '' '' @ path @
        (if query \<noteq> [] then ''?'' @ query else []) @ '' -> '' @ show_int (status r) @ '' '' @ mb_text e (resp_bytes r) @ ''MB '' @
        ms_text e @ ''ms'' @ newline)"

definition log_request :: "log_env \<Rightarrow> string \<Rightarrow> string \<Rightarrow> string \<Rightarrow> string \<Rightarrow> resp_t \<Rightarrow> server \<Rightarrow> server option" where
  "log_request e peer meth path query r s = do {
     let line = log_line e peer meth path query r;
     ring \<leftarrow> log_ring_append (request_log s) line;
     let s = s\<lparr>request_log := ring\<rparr>;
     Some (if \<not> attached e then s\<lparr>console := console s @ [line]\<rparr> else s)
   }"

section \<open>A connection of the render port\<close>

text \<open>\<^verbatim>\<open>free (conn)\<close>.\<close>

definition free_conn :: "server \<Rightarrow> server option" where
  "free_conn s = (if conns s = 0 then None else Some (s\<lparr>conns := conns s - 1\<rparr>))"

text \<open>The response to a request: what it is, the path and query for the log, and whether it was rendered.\<close>

definition respond :: "'d fp \<Rightarrow> bool \<Rightarrow> int \<Rightarrow> string \<Rightarrow> server \<Rightarrow> (resp_t \<times> string \<times> string \<times> string \<times> bool \<times> server) option" where
  "respond fp mem fd req s =
     (case request_line req of
        (m, None) \<Rightarrow> do {
          (n, s) \<leftarrow> send_status fd 400 ''Bad Request'' (''bad request'' @ newline) s;
          Some (\<lparr>status = 400, resp_bytes = int n\<rparr>, (case m of None \<Rightarrow> ''?'' | Some m \<Rightarrow> m), ''-'', [], False, s)
        }
      | (None, Some _) \<Rightarrow> None
      | (Some meth, Some target) \<Rightarrow>
          if meth \<noteq> ''GET'' then do {
            (n, s) \<leftarrow> send_status fd 405 ''Method Not Allowed'' (''method not allowed'' @ newline) s;
            Some (\<lparr>status = 405, resp_bytes = int n\<rparr>, meth, snprintf 4096 target, [], False, s)
          }
          else
            let (target, q) = split_at CHR ''?'' target; query = (case q of None \<Rightarrow> [] | Some q \<Rightarrow> q); path = snprintf 4096 target
            in if target = ''/render'' then do {
                 (r, s) \<leftarrow> serve_render fp mem fd query s;
                 Some (r, meth, path, query, True, s)
               }
               else do {
                 (n, s) \<leftarrow> send_status fd 404 ''Not Found'' (''not found'' @ newline) s;
                 Some (\<lparr>status = 404, resp_bytes = int n\<rparr>, meth, path, query, False, s)
               })"

text \<open>\<open>input\<close> is what \<^verbatim>\<open>recv\<close> stored, \<open>None\<close> when it returned nothing.\<close>

definition handle_connection :: "'d fp \<Rightarrow> bool \<Rightarrow> log_env \<Rightarrow> int \<Rightarrow> string \<Rightarrow> string option \<Rightarrow> server \<Rightarrow> server option" where
  "handle_connection fp mem e fd conn_peer input s = do {
     let peer = snprintf 48 conn_peer;
     s \<leftarrow> free_conn s;
     let s = notify_event s;
     case input of
       None \<Rightarrow> do {
         s \<leftarrow> close_fd fd s;
         let s = s\<lparr>active_connections := active_connections s - 1\<rparr>;
         Some (notify_event s)
       }
     | Some buf \<Rightarrow> do {
         (r, meth, path, query, rendered, s) \<leftarrow> respond fp mem fd (c_string buf) s;
         s \<leftarrow> close_fd fd s;
         let s = s\<lparr>active_connections := active_connections s - 1\<rparr>;
         let s = (if rendered then s\<lparr>total_served := total_served s + 1\<rparr> else s);
         let s = notify_event s;
         log_request e peer meth path query r s
       }
   }"

section \<open>The admin port\<close>

definition json_field :: "string \<Rightarrow> string \<Rightarrow> string" where
  "json_field name value = [CHR 0x22] @ name @ [CHR 0x22, CHR '':''] @ value"

definition stats_text :: "int \<Rightarrow> nat \<Rightarrow> nat \<Rightarrow> nat \<Rightarrow> nat \<Rightarrow> string" where
  "stats_text nw nb nd na nt =
     ''{'' @ json_field ''workers'' (show_int nw) @ '','' @ json_field ''busy'' (dec nb) @ '','' @
     json_field ''queue_depth'' (dec nd) @ '','' @ json_field ''active_connections'' (dec na) @ '','' @
     json_field ''total_served'' (dec nt) @ ''}''"

definition format_stats_json :: "int \<Rightarrow> thread_pool option \<Rightarrow> nat \<Rightarrow> server \<Rightarrow> string option" where
  "format_stats_json workers_opt p len s = do {
     nb \<leftarrow> thread_pool_num_working p;
     nd \<leftarrow> thread_pool_queue_depth p;
     Some (snprintf len (stats_text (case p of None \<Rightarrow> 0 | Some _ \<Rightarrow> workers_opt) (unat nb) (unat nd)
       (unat (active_connections s)) (unat (total_served s))))
   }"

text \<open>The table of subscribers; the return values 0 and -1 are \<open>True\<close> and \<open>False\<close>.\<close>

definition sse_register :: "int \<Rightarrow> server \<Rightarrow> (bool \<times> server) option" where
  "sse_register fd s =
     (if sse_count s < MAX_SSE_CLIENTS then do {
        fds \<leftarrow> array_set (sse_fds s) (int (sse_count s)) fd;
        Some (True, s\<lparr>sse_fds := fds, sse_count := sse_count s + 1\<rparr>)
      }
      else Some (False, s))"

text \<open>The loop from index \<open>i\<close> with \<open>k\<close> rounds left and \<open>n\<close> subscribers kept.\<close>

fun sse_loop :: "string \<Rightarrow> nat \<Rightarrow> nat \<Rightarrow> nat \<Rightarrow> server \<Rightarrow> server option" where
  "sse_loop frame 0 i n s = Some (s\<lparr>sse_count := n\<rparr>)"
| "sse_loop frame (Suc k) i n s = do {
     cfd \<leftarrow> array_get (sse_fds s) (int i);
     let (ok, s) = send_all cfd frame s;
     if ok then do {
       fds \<leftarrow> array_set (sse_fds s) (int n) cfd;
       sse_loop frame k (Suc i) (Suc n) (s\<lparr>sse_fds := fds\<rparr>)
     }
     else do {
       s \<leftarrow> close_fd cfd s;
       sse_loop frame k (Suc i) n s
     }
   }"

definition sse_send_all :: "string \<Rightarrow> server \<Rightarrow> server option" where
  "sse_send_all frame s = sse_loop frame (sse_count s) 0 0 s"

fun close_clients :: "nat \<Rightarrow> nat \<Rightarrow> server \<Rightarrow> server option" where
  "close_clients 0 i s = Some s"
| "close_clients (Suc k) i s = do {
     cfd \<leftarrow> array_get (sse_fds s) (int i);
     s \<leftarrow> close_fd cfd s;
     close_clients k (Suc i) s
   }"

definition sse_close_all :: "server \<Rightarrow> server option" where
  "sse_close_all s = do {
     s \<leftarrow> close_clients (sse_count s) 0 s;
     Some (s\<lparr>sse_count := 0\<rparr>)
   }"

definition data_frame :: "string \<Rightarrow> string" where
  "data_frame body = ''data: '' @ body @ newline @ newline"

definition event_header :: string where
  "event_header =
     ''HTTP/1.1 200 OK'' @ crlf @ ''Content-Type: text/event-stream'' @ crlf @ ''Cache-Control: no-cache'' @ crlf @
     ''Connection: keep-alive'' @ crlf @ ''X-Accel-Buffering: no'' @ crlf @ crlf"

text \<open>
  One round of the loop of \<^verbatim>\<open>sse_broadcaster\<close> behind its wait, with \<open>seen\<close> the generation and \<open>last_sent\<close> the text of the round before.
\<close>

definition broadcast_round :: "int \<Rightarrow> thread_pool option \<Rightarrow> u64 \<Rightarrow> string \<Rightarrow> server \<Rightarrow> (u64 \<times> string \<times> server) option" where
  "broadcast_round workers_opt p seen last_sent s = do {
     let timed_out = (bcast_gen s = seen);
     let seen = bcast_gen s;
     body \<leftarrow> format_stats_json workers_opt p STATS_JSON_MAX s;
     if body \<noteq> last_sent then do {
       frame \<leftarrow> formatted (STATS_JSON_MAX + 16) (data_frame body);
       s \<leftarrow> sse_send_all frame s;
       Some (seen, body, s)
     }
     else if timed_out then do {
       s \<leftarrow> sse_send_all ('': ping'' @ newline @ newline) s;
       Some (seen, last_sent, s)
     }
     else Some (seen, last_sent, s)
   }"

definition handle_admin_connection :: "int \<Rightarrow> thread_pool option \<Rightarrow> int \<Rightarrow> string option \<Rightarrow> server \<Rightarrow> server option" where
  "handle_admin_connection workers_opt p fd input s =
     (case input of
        None \<Rightarrow> close_fd fd s
      | Some buf \<Rightarrow>
          (case request_line (c_string buf) of
             (Some meth, Some target) \<Rightarrow>
               let path = snprintf 4096 (fst (split_at CHR ''?'' target))
               in if meth \<noteq> ''GET'' then do {
                    (_, s) \<leftarrow> send_status fd 405 ''Method Not Allowed'' (''method not allowed'' @ newline) s;
                    close_fd fd s
                  }
                  else if path = ''/admin/stats'' then do {
                    body \<leftarrow> format_stats_json workers_opt p STATS_JSON_MAX s;
                    (_, s) \<leftarrow> send_typed fd 200 ''OK'' ''application/json'' body s;
                    close_fd fd s
                  }
                  else if path = ''/admin/events'' then do {
                    body \<leftarrow> format_stats_json workers_opt p STATS_JSON_MAX s;
                    frame \<leftarrow> formatted (STATS_JSON_MAX + 16) (data_frame body);
                    let (ok, s) = send_all fd event_header s;
                    if \<not> ok then close_fd fd s
                    else do {
                      let (ok, s) = send_all fd frame s;
                      if \<not> ok then close_fd fd s
                      else do {
                        (ok, s) \<leftarrow> sse_register fd s;
                        if \<not> ok then close_fd fd s else Some s
                      }
                    }
                  }
                  else if path = ''/admin/logs'' then do {
                    (body, _) \<leftarrow> log_ring_copy (request_log s) (LOG_RING_SIZE * LOG_LINE_MAX + 1);
                    (_, s) \<leftarrow> send_typed fd 200 ''OK'' ''text/plain'' body s;
                    close_fd fd s
                  }
                  else do {
                    (_, s) \<leftarrow> send_status fd 404 ''Not Found'' (''not found'' @ newline) s;
                    close_fd fd s
                  }
           | _ \<Rightarrow> do {
               (_, s) \<leftarrow> send_status fd 400 ''Bad Request'' (''bad request'' @ newline) s;
               close_fd fd s
             }))"

section \<open>The accept loop\<close>

text \<open>
  A round of the loop of \<^verbatim>\<open>main\<close> for an accepted client: \<open>alloc\<close> says whether \<^verbatim>\<open>malloc\<close> succeeds and \<open>started\<close> whether
  \<^verbatim>\<open>thread_pool_submit\<close>, in the naive mode \<^verbatim>\<open>pthread_create\<close>, does. The result tells whether the connection was handed on.
\<close>

definition accept_round :: "bool \<Rightarrow> bool \<Rightarrow> int \<Rightarrow> server \<Rightarrow> (bool \<times> server) option" where
  "accept_round alloc started client s =
     (if \<not> alloc then do {
        s \<leftarrow> close_fd client s;
        Some (False, s)
      }
      else do {
        let s = s\<lparr>conns := conns s + 1\<rparr>;
        let s = s\<lparr>active_connections := active_connections s + 1\<rparr>;
        if started then Some (True, notify_event s)
        else do {
          s \<leftarrow> close_fd client s;
          s \<leftarrow> free_conn s;
          let s = s\<lparr>active_connections := active_connections s - 1\<rparr>;
          Some (False, notify_event s)
        }
      })"

text \<open>The text of the peer's address.\<close>

definition peer_text :: "string option \<Rightarrow> nat \<Rightarrow> string" where
  "peer_text ip client_port =
     (case ip of Some a \<Rightarrow> snprintf 48 (a @ '':'' @ dec client_port) | None \<Rightarrow> snprintf 48 ''?'')"

end
