(* ===== verification/Http_Handlers.thy ===== *)
theory Http_Handlers
  imports Http_Safety
begin

text \<open>
  What the handlers do to the state of the server: descriptors, counters, the log and the table of subscribers.
\<close>

section \<open>A connection of the render port\<close>

lemma request_line_method: "request_line req \<noteq> (None, Some t)"
  by (auto simp: request_line_def split: prod.splits if_splits)

text \<open>The status a request is answered with.\<close>

definition request_status :: "bool \<Rightarrow> string \<Rightarrow> int" where
  "request_status mem req =
     (case request_line req of
        (Some meth, Some target) \<Rightarrow>
          if meth \<noteq> ''GET'' then 405
          else if fst (split_at CHR ''?'' target) \<noteq> ''/render'' then 404
          else if mem then 200 else 500
      | _ \<Rightarrow> 400)"

lemma respond_ok:
  "\<exists>r meth path query s'. respond fp mem fd req s = Some (r, meth, path, query, request_status mem req \<in> {200, 500}, s') \<and>
    only_wire fd s s' \<and> status r = request_status mem req"
proof -
  obtain m t where mt: "request_line req = (m, t)" by (cases "request_line req")
  have "t = None" if "m = None" using mt that request_line_method [of req] by (cases t) auto
  then consider "t = None" | meth target where "m = Some meth" "t = Some target" "meth \<noteq> ''GET''"
    | target where "m = Some ''GET''" "t = Some target" by (cases m; cases t) auto
  then show ?thesis
  proof cases
    case 1
    then show ?thesis using mt send_status_ok [of 400 "''Bad Request''" "''bad request'' @ newline" fd s]
      by (auto simp: respond_def request_status_def newline_def split: option.split)
  next
    case 2
    then show ?thesis using mt send_status_ok [of 405 "''Method Not Allowed''" "''method not allowed'' @ newline" fd s]
      by (auto simp: respond_def request_status_def newline_def)
  next
    case 3
    obtain a q where aq: "split_at CHR ''?'' target = (a, q)" by (cases "split_at CHR ''?'' target")
    show ?thesis
    proof (cases "a = ''/render''")
      case True
      then show ?thesis using 3 mt aq serve_render_ok [of fp mem fd "case q of None \<Rightarrow> [] | Some q \<Rightarrow> q" s]
        by (auto simp: respond_def request_status_def Let_def)
    next
      case False
      then show ?thesis using 3 mt aq send_status_ok [of 404 "''Not Found''" "''not found'' @ newline" fd s]
        by (auto simp: respond_def request_status_def newline_def Let_def)
    qed
  qed
qed

text \<open>What a handler leaves when it is done with a connection.\<close>

definition settled :: "int \<Rightarrow> bool \<Rightarrow> server \<Rightarrow> server \<Rightarrow> bool" where
  "settled fd rendered s s' \<longleftrightarrow>
     open_fds s' = remove1 fd (open_fds s) \<and> conns s' = conns s - 1 \<and> active_connections s' = active_connections s - 1 \<and>
     total_served s' = total_served s + of_bool rendered \<and> bcast_gen s' = bcast_gen s + 2 \<and> ring_ok (request_log s') \<and>
     sse_fds s' = sse_fds s \<and> sse_count s' = sse_count s \<and>
     (\<exists>ws. wire s' = wire s @ ws \<and> list_all (\<lambda>w. fst w = fd) ws)"

definition request_rendered :: "bool \<Rightarrow> string option \<Rightarrow> bool" where
  "request_rendered mem input = (case input of None \<Rightarrow> False | Some buf \<Rightarrow> request_status mem (c_string buf) \<in> {200, 500})"

lemma log_request_ok:
  assumes "ring_ok (request_log s)"
  shows "\<exists>ring c. log_request e peer meth path query r s = Some (s\<lparr>request_log := ring, console := c\<rparr>) \<and> ring_ok ring \<and>
    ring_abs ring = log_push (ring_abs (request_log s)) (log_line e peer meth path query r)"
proof -
  let ?l = "log_line e peer meth path query r"
  have "snprintf LOG_LINE_MAX ?l = ?l" by (simp add: log_line_def snprintf_def)
  then obtain ring where r: "log_ring_append (request_log s) ?l = Some ring" "ring_ok ring"
      "ring_abs ring = log_push (ring_abs (request_log s)) ?l"
    using log_ring_append_ok [OF assms, of ?l] by auto
  have "log_request e peer meth path query r s =
      Some (s\<lparr>request_log := ring, console := if attached e then console s else console s @ [?l]\<rparr>)"
    using r(1) by (simp add: log_request_def Let_def)
  then show ?thesis using r(2,3) by blast
qed

text \<open>The lines a handler adds to the log: none when the client hung up, one with the status otherwise.\<close>

definition logged :: "bool \<Rightarrow> log_env \<Rightarrow> string \<Rightarrow> string option \<Rightarrow> server \<Rightarrow> server \<Rightarrow> bool" where
  "logged mem e peer input s s' =
     (case input of
        None \<Rightarrow> request_log s' = request_log s
      | Some buf \<Rightarrow> \<exists>meth path query r. status r = request_status mem (c_string buf) \<and>
          ring_abs (request_log s') = log_push (ring_abs (request_log s)) (log_line e (snprintf 48 peer) meth path query r))"

lemma handle_connection_ok:
  assumes "fd \<in> set (open_fds s)" and "0 < conns s" and "ring_ok (request_log s)"
  shows "\<exists>s'. handle_connection fp mem e fd peer input s = Some s' \<and> settled fd (request_rendered mem input) s s' \<and>
    logged mem e peer input s s'"
proof (cases input)
  case None
  then show ?thesis using assms
    by (simp add: handle_connection_def free_conn_def notify_event_def close_fd_def settled_def request_rendered_def logged_def)
next
  case (Some buf)
  let ?t = "notify_event (s\<lparr>conns := conns s - 1\<rparr>)"
  obtain r meth path query u where u: "respond fp mem fd (c_string buf) ?t =
      Some (r, meth, path, query, request_status mem (c_string buf) \<in> {200, 500}, u)" "only_wire fd ?t u" "status r = request_status mem (c_string buf)"
    using respond_ok by blast
  note f = only_wire_fields [OF u(2)]
  from u(2) obtain n ws where ws: "u = ?t\<lparr>net := n, wire := wire s @ ws\<rparr>" "list_all (\<lambda>w. fst w = fd) ws"
    by (auto simp: only_wire_def notify_event_def)
  define v where "v = notify_event (let x = u\<lparr>open_fds := remove1 fd (open_fds s), active_connections := active_connections s - 1\<rparr>
    in if request_rendered mem input then x\<lparr>total_served := total_served s + 1\<rparr> else x)"
  have "ring_ok (request_log v)" using assms(3) f by (simp add: v_def notify_event_def Let_def)
  then obtain ring c where l: "log_request e (snprintf 48 peer) meth path query r v = Some (v\<lparr>request_log := ring, console := c\<rparr>)" "ring_ok ring"
      "ring_abs ring = log_push (ring_abs (request_log v)) (log_line e (snprintf 48 peer) meth path query r)"
    using log_request_ok by blast
  have "handle_connection fp mem e fd peer input s = log_request e (snprintf 48 peer) meth path query r v"
    using assms u(1) f Some
    by (auto simp: handle_connection_def free_conn_def close_fd_def v_def notify_event_def request_rendered_def Let_def)
  moreover have "settled fd (request_rendered mem input) s (v\<lparr>request_log := ring, console := c\<rparr>)"
    using l(2) ws by (simp add: settled_def v_def notify_event_def Let_def)
  moreover have "request_log v = request_log s" using f by (simp add: v_def notify_event_def Let_def)
  then have "logged mem e peer input s (v\<lparr>request_log := ring, console := c\<rparr>)"
    using l(3) u(3) Some by (auto simp: logged_def)
  ultimately show ?thesis using l(1) by auto
qed

section \<open>Statistics\<close>

text \<open>A pool whose array of workers has the length it records, as \<^verbatim>\<open>thread_pool_init\<close> leaves it, or none in the naive mode.\<close>

definition pool_shape :: "thread_pool option \<Rightarrow> bool" where
  "pool_shape p = (case p of None \<Rightarrow> True | Some q \<Rightarrow> (case workers q of None \<Rightarrow> False | Some ws \<Rightarrow> length ws = unat (num_workers q)))"

lemma pool_shape_reads:
  assumes "pool_shape p"
  shows "\<exists>nb. thread_pool_num_working p = Some nb" and "\<exists>nd. thread_pool_queue_depth p = Some nd"
proof -
  have "\<exists>nb. worker_capacity_busy (workers q) (ucast (num_workers q)) = Some nb" if "p = Some q" for q
  proof -
    from assms that obtain ws where ws: "workers q = Some ws" "length ws = unat (num_workers q)"
      by (auto simp: pool_shape_def split: option.splits)
    have "unat (ucast (num_workers q) :: u16) \<le> unat (num_workers q)" by (simp add: unsigned_ucast_eq take_bit_nat_less_eq_self)
    then show ?thesis using ws worker_capacity_busy_count [of "ucast (num_workers q)" ws] by auto
  qed
  then show "\<exists>nb. thread_pool_num_working p = Some nb" "\<exists>nd. thread_pool_queue_depth p = Some nd"
    by (cases p; auto simp: thread_pool_num_working_def thread_pool_queue_depth_def Let_def)+
qed

text \<open>The statistics are never cut: their longest text has fewer than 256 characters.\<close>

lemma length_dec_word64: "length (dec (unat (w :: u64))) \<le> 20"
proof -
  have "unat w < 2 ^ 64" using unsigned_less [of w, where 'a = nat] by simp
  then show ?thesis by (intro length_dec) simp_all
qed

lemma stats_text_length:
  assumes "int_ok nw"
  shows "length (stats_text nw (unat (nb :: u16)) (unat (nd :: u64)) (unat (na :: u32)) (unat (nt :: u64))) < STATS_JSON_MAX"
proof -
  have "unat nb < 2 ^ 16" "unat na < 2 ^ 32" using unsigned_less [of nb, where 'a = nat] unsigned_less [of na, where 'a = nat] by simp_all
  then have "length (dec (unat nb)) \<le> 5" "length (dec (unat na)) \<le> 10" by (intro length_dec; simp)+
  moreover have "nat nw < 10 ^ 10" "nat (- nw) < 10 ^ 10" using assms by (auto simp: int_ok_def)
  then have "length (show_int nw) \<le> 11" using length_dec [of "nat nw" 10] length_dec [of "nat (- nw)" 10]
    by (auto simp: show_int_def)
  ultimately show ?thesis using length_dec_word64 [of nd] length_dec_word64 [of nt]
    by (simp add: stats_text_def json_field_def STATS_JSON_MAX_def)
qed

lemma format_stats_ok:
  assumes "pool_shape p" and "int_ok nw"
  shows "\<exists>nb nd. thread_pool_num_working p = Some nb \<and> thread_pool_queue_depth p = Some nd \<and>
    format_stats_json nw p STATS_JSON_MAX s =
      Some (stats_text (case p of None \<Rightarrow> 0 | Some _ \<Rightarrow> nw) (unat nb) (unat nd) (unat (active_connections s)) (unat (total_served s)))"
proof -
  obtain nb nd where n: "thread_pool_num_working p = Some nb" "thread_pool_queue_depth p = Some nd"
    using pool_shape_reads [OF assms(1)] by blast
  let ?t = "stats_text (case p of None \<Rightarrow> 0 | Some _ \<Rightarrow> nw) (unat nb) (unat nd) (unat (active_connections s)) (unat (total_served s))"
  have "length ?t < STATS_JSON_MAX" using assms(2) by (intro stats_text_length) (simp add: int_ok_def split: option.split)
  then have "snprintf STATS_JSON_MAX ?t = ?t" by (simp add: snprintf_def)
  then show ?thesis using n by (simp add: format_stats_json_def)
qed

lemma format_stats_some: "pool_shape p \<Longrightarrow> \<exists>body. format_stats_json nw p len s = Some body"
  using pool_shape_reads [of p] by (auto simp: format_stats_json_def)

lemma format_stats_short:
  assumes "format_stats_json nw p STATS_JSON_MAX s = Some body"
  shows "length body < STATS_JSON_MAX" and "formatted (STATS_JSON_MAX + 16) (data_frame body) = Some (data_frame body)"
proof -
  show "length body < STATS_JSON_MAX" using assms by (auto simp: format_stats_json_def snprintf_def STATS_JSON_MAX_def bind_Some_iff)
  then show "formatted (STATS_JSON_MAX + 16) (data_frame body) = Some (data_frame body)"
    by (simp add: formatted_def data_frame_def newline_def)
qed

section \<open>The table of subscribers\<close>

definition subscribers :: "server \<Rightarrow> int list" where
  "subscribers s = take (sse_count s) (sse_fds s)"

definition table_ok :: "server \<Rightarrow> bool" where
  "table_ok s \<longleftrightarrow> length (sse_fds s) = MAX_SSE_CLIENTS \<and> sse_count s \<le> MAX_SSE_CLIENTS"

text \<open>Writing a frame to a list of subscribers: the ones the whole frame was sent to, what was sent to each, and the answers left.\<close>

fun deliver :: "string \<Rightarrow> send_answer list \<Rightarrow> int list \<Rightarrow> int list \<times> (int \<times> string) list \<times> send_answer list" where
  "deliver frame answers [] = ([], [], answers)"
| "deliver frame answers (c # cs) =
     (case write_all answers frame of (ok, outp, answers) \<Rightarrow>
        case deliver frame answers cs of (kept, ws, answers) \<Rightarrow> (if ok then c # kept else kept, (c, outp) # ws, answers))"

lemma deliver_Cons:
  "\<exists>rest. fst (deliver frame answers (c # cs)) =
    (if fst (write_all answers frame) then c # fst (deliver frame rest cs) else fst (deliver frame rest cs))"
  by (intro exI [of _ "snd (snd (write_all answers frame))"]) (simp add: case_prod_beta)

lemma deliver_subset: "set (fst (deliver frame answers cs)) \<subseteq> set cs"
proof (induction cs arbitrary: answers)
  case (Cons c cs)
  obtain rest where "set (fst (deliver frame answers (c # cs))) \<subseteq> insert c (set (fst (deliver frame rest cs)))"
    using deliver_Cons [of frame answers c cs] by (metis insert_subset list.simps(15) order_refl subset_insertI)
  then show ?case using Cons [of rest] by auto
qed simp

lemma deliver_length: "length (fst (deliver frame answers cs)) \<le> length cs"
proof (induction cs arbitrary: answers)
  case (Cons c cs)
  obtain rest where "length (fst (deliver frame answers (c # cs))) \<le> Suc (length (fst (deliver frame rest cs)))"
    using deliver_Cons [of frame answers c cs] by (metis le_SucI length_Cons order_refl)
  then show ?case using Cons [of rest] by simp
qed simp

lemma deliver_distinct: "distinct cs \<Longrightarrow> distinct (fst (deliver frame answers cs))"
proof (induction cs arbitrary: answers)
  case (Cons c cs)
  obtain rest where "fst (deliver frame answers (c # cs)) =
      (if fst (write_all answers frame) then c # fst (deliver frame rest cs) else fst (deliver frame rest cs))"
    using deliver_Cons by blast
  then show ?case using Cons.IH [of rest] Cons.prems deliver_subset [of frame rest cs] by auto
qed simp

lemma deliver_writes:
  assumes "deliver frame answers cs = (kept, ws, rest)"
  shows "map fst ws = cs \<and> kept = map fst (filter (\<lambda>w. snd w = frame) ws) \<and> list_all (\<lambda>w. take (length (snd w)) frame = snd w) ws"
  using assms
proof (induction cs arbitrary: answers kept ws rest)
  case (Cons c cs)
  obtain ok outp n1 where w: "write_all answers frame = (ok, outp, n1)" by (metis prod_cases3)
  obtain kept' ws' rest' where d: "deliver frame n1 cs = (kept', ws', rest')" by (metis prod_cases3)
  obtain more where "frame = outp @ more" "ok \<longleftrightarrow> more = []" using write_all_result [OF w] by blast
  then have "ok \<longleftrightarrow> outp = frame" "take (length outp) frame = outp" by auto
  then show ?case using Cons.IH [OF d] Cons.prems w d by auto
qed simp

lemma sse_loop_ok:
  assumes "i + k \<le> length (sse_fds s)" "n \<le> i" "distinct (open_fds s)" "distinct (take k (drop i (sse_fds s)))"
    "set (take k (drop i (sse_fds s))) \<subseteq> set (open_fds s)" "deliver frame (net s) (take k (drop i (sse_fds s))) = (kept, ws, rest)"
  shows "\<exists>fds. sse_loop frame k i n s = Some (s\<lparr>net := rest, wire := wire s @ ws, sse_fds := fds, sse_count := n + length kept,
      open_fds := filter (\<lambda>f. f \<in> set (take k (drop i (sse_fds s))) \<longrightarrow> f \<in> set kept) (open_fds s)\<rparr>) \<and>
    length fds = length (sse_fds s) \<and> take (n + length kept) fds = take n (sse_fds s) @ kept"
  using assms
proof (induction k arbitrary: i n s kept ws rest)
  case 0
  then show ?case by (intro exI [of _ "sse_fds s"]) simp
next
  case (Suc k)
  let ?c = "sse_fds s ! i" and ?cs = "take k (drop (Suc i) (sse_fds s))"
  have i: "i < length (sse_fds s)" using Suc.prems(1) by simp
  then have seg: "take (Suc k) (drop i (sse_fds s)) = ?c # ?cs" by (simp add: Cons_nth_drop_Suc [symmetric])
  obtain ok outp n1 where w: "write_all (net s) frame = (ok, outp, n1)" by (metis prod_cases3)
  obtain kept' ws' rest' where d: "deliver frame n1 ?cs = (kept', ws', rest')" by (metis prod_cases3)
  have out: "kept = (if ok then ?c # kept' else kept')" "ws = (?c, outp) # ws'" "rest = rest'"
    using Suc.prems(6) seg w d by auto
  have notin: "?c \<notin> set ?cs" "distinct ?cs" using Suc.prems(4) seg by auto
  have sub: "set kept' \<subseteq> set ?cs" using deliver_subset [of frame n1 ?cs] d by simp
  have get: "array_get (sse_fds s) (int i) = Some ?c" using i by (simp add: array_get_def)
  let ?s1 = "s\<lparr>net := n1, wire := wire s @ [(?c, outp)]\<rparr>"
  have snd: "send_all ?c frame s = (ok, ?s1)" using w by (simp add: send_all_def)
  show ?case
  proof (cases ok)
    case True
    let ?s2 = "?s1\<lparr>sse_fds := (sse_fds s)[n := ?c]\<rparr>"
    have same: "take k (drop (Suc i) (sse_fds ?s2)) = ?cs" using Suc.prems(2) by simp
    have set: "array_set (sse_fds s) (int n) ?c = Some ((sse_fds s)[n := ?c])" using i Suc.prems(2) by (simp add: array_set_def)
    have "n < length (sse_fds s)" using i Suc.prems(2) by simp
    then have eq: "sse_loop frame (Suc k) i n s = sse_loop frame k (Suc i) (Suc n) ?s2" using True get snd set by simp
    have p: "Suc i + k \<le> length (sse_fds ?s2)" "Suc n \<le> Suc i" "distinct (open_fds ?s2)" "deliver frame (net ?s2) ?cs = (kept', ws', rest')"
      using Suc.prems d by simp_all
    have sub2: "set ?cs \<subseteq> set (open_fds ?s2)" using Suc.prems(5) seg by simp
    obtain fds where fds: "sse_loop frame k (Suc i) (Suc n) ?s2 = Some (?s2\<lparr>net := rest', wire := wire ?s2 @ ws', sse_fds := fds,
        sse_count := Suc n + length kept', open_fds := filter (\<lambda>f. f \<in> set ?cs \<longrightarrow> f \<in> set kept') (open_fds ?s2)\<rparr>)"
        "length fds = length (sse_fds ?s2)" "take (Suc n + length kept') fds = take (Suc n) (sse_fds ?s2) @ kept'"
      using Suc.IH [of "Suc i" ?s2 "Suc n" kept' ws' rest', unfolded same, OF p(1-3) notin(2) sub2 p(4)] by blast
    have "filter (\<lambda>f. f \<in> set ?cs \<longrightarrow> f \<in> set kept') (open_fds s) = filter (\<lambda>f. f \<in> set (?c # ?cs) \<longrightarrow> f \<in> set kept) (open_fds s)"
      using True out(1) notin(1) by (intro filter_cong) auto
    moreover have "take (Suc n) ((sse_fds s)[n := ?c]) = take n (sse_fds s) @ [?c]" using i Suc.prems(2)
      by (simp add: take_Suc_conv_app_nth)
    ultimately show ?thesis using fds True out unfolding eq seg by (intro exI [of _ fds]) auto
  next
    case False
    let ?s2 = "?s1\<lparr>open_fds := remove1 ?c (open_fds s)\<rparr>"
    have cl: "close_fd ?c ?s1 = Some ?s2" using Suc.prems(5) seg by (simp add: close_fd_def)
    have eq: "sse_loop frame (Suc k) i n s = sse_loop frame k (Suc i) n ?s2" using False get snd cl by simp
    have same: "take k (drop (Suc i) (sse_fds ?s2)) = ?cs" by simp
    have rm: "remove1 ?c (open_fds s) = filter (\<lambda>f. f \<noteq> ?c) (open_fds s)" using Suc.prems(3) by (simp add: distinct_remove1_removeAll removeAll_filter_not_eq neq_commute)
    have p: "Suc i + k \<le> length (sse_fds ?s2)" "n \<le> Suc i" "distinct (open_fds ?s2)" "deliver frame (net ?s2) ?cs = (kept', ws', rest')"
      using Suc.prems d by simp_all
    have sub2: "set ?cs \<subseteq> set (open_fds ?s2)" using Suc.prems(5) seg notin(1) rm by auto
    obtain fds where fds: "sse_loop frame k (Suc i) n ?s2 = Some (?s2\<lparr>net := rest', wire := wire ?s2 @ ws', sse_fds := fds,
        sse_count := n + length kept', open_fds := filter (\<lambda>f. f \<in> set ?cs \<longrightarrow> f \<in> set kept') (open_fds ?s2)\<rparr>)"
        "length fds = length (sse_fds ?s2)" "take (n + length kept') fds = take n (sse_fds ?s2) @ kept'"
      using Suc.IH [of "Suc i" ?s2 n kept' ws' rest', unfolded same, OF p(1-3) notin(2) sub2 p(4)] by blast
    have "filter (\<lambda>f. f \<in> set ?cs \<longrightarrow> f \<in> set kept') (remove1 ?c (open_fds s)) = filter (\<lambda>f. f \<in> set (?c # ?cs) \<longrightarrow> f \<in> set kept) (open_fds s)"
      unfolding rm filter_filter using False out(1) notin(1) sub by (intro filter_cong) auto
    then show ?thesis using fds False out unfolding eq seg by (intro exI [of _ fds]) auto
  qed
qed

text \<open>What the admin port and the broadcaster leave alone.\<close>

definition same_core :: "server \<Rightarrow> server \<Rightarrow> bool" where
  "same_core s s' \<longleftrightarrow> conns s' = conns s \<and> active_connections s' = active_connections s \<and> total_served s' = total_served s \<and>
     request_log s' = request_log s \<and> bcast_gen s' = bcast_gen s"

lemma sse_send_all_ok:
  assumes "table_ok s" "distinct (open_fds s)" "distinct (subscribers s)" "set (subscribers s) \<subseteq> set (open_fds s)"
    "deliver frame (net s) (subscribers s) = (kept, ws, rest)"
  shows "\<exists>s'. sse_send_all frame s = Some s' \<and> subscribers s' = kept \<and> table_ok s' \<and> same_core s s' \<and> wire s' = wire s @ ws \<and>
    open_fds s' = filter (\<lambda>f. f \<in> set (subscribers s) \<longrightarrow> f \<in> set kept) (open_fds s)"
proof -
  have l: "length kept \<le> sse_count s" using deliver_length [of frame "net s" "subscribers s"] assms(1,5)
    by (simp add: subscribers_def table_ok_def)
  obtain fds where fds: "sse_loop frame (sse_count s) 0 0 s = Some (s\<lparr>net := rest, wire := wire s @ ws, sse_fds := fds, sse_count := length kept,
      open_fds := filter (\<lambda>f. f \<in> set (subscribers s) \<longrightarrow> f \<in> set kept) (open_fds s)\<rparr>)"
      "length fds = length (sse_fds s)" "take (length kept) fds = kept"
    using sse_loop_ok [of 0 "sse_count s" s 0 frame kept ws rest] assms by (auto simp: subscribers_def table_ok_def)
  then show ?thesis using l assms(1)
    by (simp add: sse_send_all_def same_core_def table_ok_def subscribers_def)
qed

lemma sse_register_ok:
  assumes "table_ok s"
  shows "if sse_count s < MAX_SSE_CLIENTS
    then \<exists>s'. sse_register fd s = Some (True, s') \<and> subscribers s' = subscribers s @ [fd] \<and> table_ok s' \<and> same_core s s' \<and>
      open_fds s' = open_fds s \<and> wire s' = wire s
    else sse_register fd s = Some (False, s)"
proof (cases "sse_count s < MAX_SSE_CLIENTS")
  case True
  then have "sse_count s < length (sse_fds s)" using assms by (simp add: table_ok_def)
  then show ?thesis using True assms
    by (simp add: sse_register_def array_set_def subscribers_def table_ok_def same_core_def take_Suc_conv_app_nth)
qed (simp add: sse_register_def)

lemma close_clients_ok:
  assumes "i + k \<le> length (sse_fds s)" "distinct (take k (drop i (sse_fds s)))" "distinct (open_fds s)"
    "set (take k (drop i (sse_fds s))) \<subseteq> set (open_fds s)"
  shows "close_clients k i s = Some (s\<lparr>open_fds := filter (\<lambda>f. f \<notin> set (take k (drop i (sse_fds s)))) (open_fds s)\<rparr>)"
  using assms
proof (induction k arbitrary: i s)
  case (Suc k)
  let ?c = "sse_fds s ! i" and ?cs = "take k (drop (Suc i) (sse_fds s))"
  let ?s1 = "s\<lparr>open_fds := remove1 ?c (open_fds s)\<rparr>"
  have i: "i < length (sse_fds s)" using Suc.prems(1) by simp
  then have seg: "take (Suc k) (drop i (sse_fds s)) = ?c # ?cs" by (simp add: Cons_nth_drop_Suc [symmetric])
  have get: "array_get (sse_fds s) (int i) = Some ?c" using i by (simp add: array_get_def)
  have cl: "close_fd ?c s = Some ?s1" using Suc.prems(4) seg by (simp add: close_fd_def)
  have rm: "remove1 ?c (open_fds s) = filter (\<lambda>f. f \<noteq> ?c) (open_fds s)"
    using Suc.prems(3) by (simp add: distinct_remove1_removeAll removeAll_filter_not_eq neq_commute)
  have p: "Suc i + k \<le> length (sse_fds ?s1)" "distinct ?cs" "distinct (open_fds ?s1)" "set ?cs \<subseteq> set (open_fds ?s1)"
    using Suc.prems seg rm by auto
  have same: "sse_fds ?s1 = sse_fds s" by simp
  have "close_clients (Suc k) i s = close_clients k (Suc i) ?s1" using get cl by simp
  also have "\<dots> = Some (?s1\<lparr>open_fds := filter (\<lambda>f. f \<notin> set ?cs) (open_fds ?s1)\<rparr>)"
    using Suc.IH [of "Suc i" ?s1, unfolded same, OF p(1) [unfolded same] p(2-4)] .
  finally show ?case unfolding seg by (simp add: rm conj_commute)
qed simp

lemma sse_close_all_ok:
  assumes "table_ok s" "distinct (open_fds s)" "distinct (subscribers s)" "set (subscribers s) \<subseteq> set (open_fds s)"
  shows "sse_close_all s = Some (s\<lparr>open_fds := filter (\<lambda>f. f \<notin> set (subscribers s)) (open_fds s), sse_count := 0\<rparr>)"
  using close_clients_ok [of 0 "sse_count s" s] assms by (simp add: sse_close_all_def subscribers_def table_ok_def)

section \<open>The admin port\<close>

text \<open>The two ends of a connection of the admin port: it is closed, or it is the last of the subscribers.\<close>

definition answered :: "int \<Rightarrow> server \<Rightarrow> server \<Rightarrow> bool" where
  "answered fd s s' \<longleftrightarrow> same_core s s' \<and> table_ok s' \<and> (\<exists>ws. wire s' = wire s @ ws \<and> list_all (\<lambda>w. fst w = fd) ws) \<and>
     (open_fds s' = remove1 fd (open_fds s) \<and> subscribers s' = subscribers s \<or>
      open_fds s' = open_fds s \<and> subscribers s' = subscribers s @ [fd])"

lemma closed_answered:
  assumes "only_wire fd s s1" "fd \<in> set (open_fds s)" "table_ok s"
  shows "\<exists>s'. close_fd fd s1 = Some s' \<and> answered fd s s'"
  using assms by (auto simp: only_wire_def close_fd_def answered_def same_core_def table_ok_def subscribers_def)

lemma events_answered:
  assumes "fd \<in> set (open_fds s)" "table_ok s"
  shows "\<exists>s'. (let (ok, s) = send_all fd h s in if \<not> ok then close_fd fd s
      else let (ok, s) = send_all fd frame s in if \<not> ok then close_fd fd s
        else do { (ok, s) \<leftarrow> sse_register fd s; if \<not> ok then close_fd fd s else Some s }) = Some s' \<and> answered fd s s'"
proof -
  obtain ok1 s1 where 1: "send_all fd h s = (ok1, s1)" by (cases "send_all fd h s")
  obtain ok2 s2 where 2: "send_all fd frame s1 = (ok2, s2)" by (cases "send_all fd frame s1")
  have w1: "only_wire fd s s1" using only_wire_send [of fd s h] 1 by simp
  have w2: "only_wire fd s s2" using only_wire_trans [OF w1] only_wire_send [of fd s1 frame] 2 by simp
  have t2: "table_ok s2" "sse_count s2 = sse_count s" using assms(2) only_wire_fields [OF w2] by (simp_all add: table_ok_def)
  show ?thesis
  proof (cases "ok1 \<and> ok2 \<and> sse_count s < MAX_SSE_CLIENTS")
    case True
    then obtain s' where s': "sse_register fd s2 = Some (True, s')" "subscribers s' = subscribers s2 @ [fd]" "table_ok s'"
        "same_core s2 s'" "open_fds s' = open_fds s2" "wire s' = wire s2"
      using sse_register_ok [OF t2(1), of fd] t2(2) by auto
    then have "answered fd s s'" using w2 by (auto simp: answered_def only_wire_def same_core_def subscribers_def)
    then show ?thesis using 1 2 True s'(1) by simp
  next
    case False
    then show ?thesis using 1 2 closed_answered [OF w1 assms] closed_answered [OF w2 assms] sse_register_ok [OF t2(1), of fd] t2(2)
      by (cases ok1; cases ok2; simp)
  qed
qed

lemma handle_admin_ok:
  assumes "fd \<in> set (open_fds s)" "table_ok s" "ring_ok (request_log s)" "pool_shape p"
  shows "\<exists>s'. handle_admin_connection nw p fd input s = Some s' \<and> answered fd s s'"
proof (cases "\<exists>buf meth target. input = Some buf \<and> request_line (c_string buf) = (Some meth, Some target)")
  case False
  show ?thesis
  proof (cases input)
    case None
    have "only_wire fd s s" unfolding only_wire_def by (rule exI [of _ "net s"], rule exI [of _ "[]"]) simp
    from closed_answered [OF this assms(1,2)] None show ?thesis by (simp add: handle_admin_connection_def)
  next
    case (Some buf)
    obtain s1 where s1: "send_status fd 400 ''Bad Request'' (''bad request'' @ newline) s = Some (length (''bad request'' @ newline), s1)"
        "only_wire fd s s1"
      using send_status_ok [of 400 "''Bad Request''" "''bad request'' @ newline" fd s] by (auto simp: newline_def)
    have "handle_admin_connection nw p fd input s = close_fd fd s1"
      using False Some s1(1) by (auto simp: handle_admin_connection_def split: prod.splits option.splits)
    then show ?thesis using closed_answered [OF s1(2) assms(1,2)] by simp
  qed
next
  case True
  then obtain buf meth target where b: "input = Some buf" "request_line (c_string buf) = (Some meth, Some target)" by blast
  let ?path = "snprintf 4096 (fst (split_at CHR ''?'' target))"
  obtain body where body: "format_stats_json nw p STATS_JSON_MAX s = Some body" using format_stats_some [OF assms(4)] by blast
  note short = format_stats_short [OF body]
  have sent: "\<exists>s'. (do { (_, s) \<leftarrow> r; close_fd fd s }) = Some s' \<and> answered fd s s'"
    if "\<exists>s1. r = Some (n, s1) \<and> only_wire fd s s1" for r and n :: nat
    using that closed_answered [OF _ assms(1,2)] by auto
  consider "meth \<noteq> ''GET''" | "meth = ''GET''" "?path = ''/admin/stats''" | "meth = ''GET''" "?path = ''/admin/events''"
    | "meth = ''GET''" "?path = ''/admin/logs''"
    | "meth = ''GET''" "?path \<noteq> ''/admin/stats''" "?path \<noteq> ''/admin/events''" "?path \<noteq> ''/admin/logs''" by blast
  then show ?thesis
  proof cases
    case 1
    then show ?thesis using b sent [OF send_status_ok [of 405 "''Method Not Allowed''" "''method not allowed'' @ newline"]]
      by (simp add: handle_admin_connection_def newline_def)
  next
    case 2
    have "length body < 10 ^ 20" using short(1) by (simp add: STATS_JSON_MAX_def)
    then show ?thesis using 2 b body sent [OF send_typed_ok [of 200 "''OK''" "''application/json''" body]]
      by (simp add: handle_admin_connection_def)
  next
    case 3
    then show ?thesis using b body short(2) events_answered [OF assms(1,2), of event_header "data_frame body"]
      by (simp add: handle_admin_connection_def Let_def)
  next
    case 4
    obtain shown n where t: "log_ring_copy (request_log s) (LOG_RING_SIZE * LOG_LINE_MAX + 1) = Some (shown, n)"
        "length shown \<le> LOG_RING_SIZE * LOG_LINE_MAX"
      using log_ring_copy_ok [OF assms(3), of "LOG_RING_SIZE * LOG_LINE_MAX + 1"] by auto
    then have "length shown < 10 ^ 20" by (simp add: LOG_RING_SIZE_def LOG_LINE_MAX_def)
    then show ?thesis using 4 b t(1) sent [OF send_typed_ok [of 200 "''OK''" "''text/plain''" shown]]
      by (simp add: handle_admin_connection_def)
  next
    case 5
    then show ?thesis using b sent [OF send_status_ok [of 404 "''Not Found''" "''not found'' @ newline"]]
      by (simp add: handle_admin_connection_def newline_def)
  qed
qed

section \<open>The broadcaster and the accept loop\<close>

lemma broadcast_round_ok:
  assumes "table_ok s" "distinct (open_fds s)" "distinct (subscribers s)" "set (subscribers s) \<subseteq> set (open_fds s)"
    "pool_shape p"
  shows "\<exists>seen' lst' s' kept. broadcast_round nw p seen lst s = Some (seen', lst', s') \<and> table_ok s' \<and> same_core s s' \<and>
    subscribers s' = kept \<and> distinct kept \<and> set kept \<subseteq> set (subscribers s) \<and>
    open_fds s' = filter (\<lambda>f. f \<in> set (subscribers s) \<longrightarrow> f \<in> set kept) (open_fds s)"
proof -
  obtain body where body: "format_stats_json nw p STATS_JSON_MAX s = Some body" using format_stats_some [OF assms(5)] by blast
  have frame: "\<exists>s' kept. sse_send_all fr s = Some s' \<and> table_ok s' \<and> same_core s s' \<and>
      subscribers s' = kept \<and> distinct kept \<and> set kept \<subseteq> set (subscribers s) \<and>
      open_fds s' = filter (\<lambda>f. f \<in> set (subscribers s) \<longrightarrow> f \<in> set kept) (open_fds s)" for fr
  proof -
    obtain kept ws rest where d: "deliver fr (net s) (subscribers s) = (kept, ws, rest)" by (metis prod_cases3)
    then have "distinct kept" "set kept \<subseteq> set (subscribers s)"
      using deliver_distinct [OF assms(3), of fr "net s"] deliver_subset [of fr "net s" "subscribers s"] by simp_all
    then show ?thesis using sse_send_all_ok [OF assms(1-4) d] by auto
  qed
  have idle: "same_core s s" "filter (\<lambda>f. f \<in> set (subscribers s) \<longrightarrow> f \<in> set (subscribers s)) (open_fds s) = open_fds s"
    by (simp_all add: same_core_def)
  show ?thesis
  proof (cases "body = lst")
    case False
    then show ?thesis using body format_stats_short(2) [OF body] frame [of "data_frame body"]
      by (auto simp: broadcast_round_def)
  next
    case True
    then show ?thesis using body frame [of "'': ping'' @ newline @ newline"] idle assms(1,3)
      by (cases "bcast_gen s = seen") (auto simp: broadcast_round_def)
  qed
qed

lemma accept_round_ok:
  assumes "client \<in> set (open_fds s)"
  shows "\<exists>s'. accept_round alloc started client s = Some (alloc \<and> started, s') \<and> request_log s' = request_log s \<and>
    sse_fds s' = sse_fds s \<and> sse_count s' = sse_count s \<and> wire s' = wire s \<and> total_served s' = total_served s \<and>
    (if alloc \<and> started
     then open_fds s' = open_fds s \<and> conns s' = conns s + 1 \<and> active_connections s' = active_connections s + 1
     else open_fds s' = remove1 client (open_fds s) \<and> conns s' = conns s \<and> active_connections s' = active_connections s)"
  using assms by (cases alloc; cases started) (auto simp: accept_round_def close_fd_def free_conn_def notify_event_def)

end
