(* ===== verification/Http_Main.thy ===== *)
theory Http_Main
  imports Http_Handlers
begin

text \<open>
  The program of the HTTP demonstration around its handlers (\<^verbatim>\<open>demo/http_server.c\<close>, \<^verbatim>\<open>main\<close> and its threads): start with every
  failure, the loops of the threads, the signal handler and the end.
\<close>

section \<open>State\<close>

datatype main_pc = M_Test | M_Accept | M_Left

datatype admin_pc = A_Test | A_Poll | A_Accept | A_Left

text \<open>
  \<open>pending\<close> holds the connections that were handed to the pool, or to a thread of their own, and that are not handled yet;
  \<open>mpc\<close> and \<open>apc\<close> are the places of the main and of the admin thread, \<open>seen_gen\<close> and \<open>last_body\<close> the local variables of the
  broadcaster. The array of a table entry that was never set is 0.
\<close>

record process =
  srv :: server
  cfg :: server_config
  pending :: "(int \<times> string) list"
  listen_fd :: int
  admin_fd :: int
  running :: bool
  log_mutex :: bool
  has_pool :: bool
  admin_valid :: bool
  key_valid :: bool
  bcast_valid :: bool
  mpc :: main_pc
  apc :: admin_pc
  seen_gen :: u64
  last_body :: string
  was_attached :: bool

definition server_init :: server where
  "server_init = \<lparr>open_fds = [], net = [], wire = [], conns = 0, active_connections = 0, total_served = 0, request_log = log_ring_init,
     console = [], bcast_gen = 0, sse_fds = replicate MAX_SSE_CLIENTS 0, sse_count = 0\<rparr>"

definition print_line :: "string \<Rightarrow> server \<Rightarrow> server" where
  "print_line l s = s\<lparr>console := console s @ [l @ newline]\<rparr>"

section \<open>Start\<close>

text \<open>The descriptor \<^verbatim>\<open>socket\<close> returns, whether \<^verbatim>\<open>inet_pton\<close> reads the host, and whether \<^verbatim>\<open>bind\<close> and \<^verbatim>\<open>listen\<close> succeed.\<close>

definition create_listener :: "int option \<Rightarrow> bool \<Rightarrow> bool \<Rightarrow> bool \<Rightarrow> server \<Rightarrow> (int \<times> server) option" where
  "create_listener sock addr_ok bound listening s =
     (case sock of
        None \<Rightarrow> Some (-1, s)
      | Some fd \<Rightarrow>
          let s = s\<lparr>open_fds := fd # open_fds s\<rparr>
          in if \<not> addr_ok then do { s \<leftarrow> close_fd fd s; Some (-1, s) }
             else if \<not> bound \<or> \<not> listening then do { s \<leftarrow> close_fd fd s; Some (-1, s) }
             else Some (fd, s))"

text \<open>The answers of the library during the start; \<open>pool_made\<close> is the result of \<^verbatim>\<open>thread_pool_init\<close>.\<close>

record start_env =
  mutex_ok :: bool
  pton :: "string \<Rightarrow> bool"
  sock :: "int option"
  bound :: bool
  listening :: bool
  asock :: "int option"
  abound :: bool
  alistening :: bool
  pool_made :: bool
  is_tty :: bool
  key_made :: bool
  admin_made :: bool
  bcast_made :: bool

definition process_init :: "server_config \<Rightarrow> process" where
  "process_init c = \<lparr>srv = server_init, cfg = c, pending = [], listen_fd = -1, admin_fd = -1, running = True, log_mutex = False,
     has_pool = False, admin_valid = False, key_valid = False, bcast_valid = False, mpc = M_Test, apc = A_Test, seen_gen = 0,
     last_body = [], was_attached = True\<rparr>"

text \<open>\<^verbatim>\<open>main\<close> returns: the mutex of the log is destroyed.\<close>

definition main_returns :: "int \<Rightarrow> process \<Rightarrow> (int option \<times> process) option" where
  "main_returns code p = Some (Some code, p\<lparr>log_mutex := False\<rparr>)"

definition banner :: "server_config \<Rightarrow> server \<Rightarrow> server" where
  "banner c s =
     print_line (''admin data:     http://'' @ host c @ '':'' @ show_int (admin_port c) @ ''/admin/stats'')
       (print_line (''render backend: http://'' @ host c @ '':'' @ show_int (port c) @ ''/render'') s)"

text \<open>The threads that are started last.\<close>

definition start_threads :: "start_env \<Rightarrow> process \<Rightarrow> (int option \<times> process) option" where
  "start_threads e p = do {
     p \<leftarrow> (if admin_made e then Some (p\<lparr>admin_valid := True\<rparr>)
       else do {
         let p = p\<lparr>running := False\<rparr>;
         s \<leftarrow> close_fd (listen_fd p) (srv p);
         s \<leftarrow> close_fd (admin_fd p) s;
         Some (p\<lparr>srv := s\<rparr>)
       });
     Some (None, if bcast_made e then p\<lparr>bcast_valid := True\<rparr> else p)
   }"

definition start_pool :: "start_env \<Rightarrow> process \<Rightarrow> (int option \<times> process) option" where
  "start_pool e p =
     (if mode (cfg p) = MODE_POOL then do {
        let s = print_line (''[INFO] thread pool initialized with '' @ show_int (cfg_workers (cfg p)) @ '' workers'') (srv p);
        if \<not> pool_made e then do {
          s \<leftarrow> close_fd (listen_fd p) s;
          s \<leftarrow> close_fd (admin_fd p) s;
          main_returns 1 (p\<lparr>srv := s, listen_fd := -1, admin_fd := -1\<rparr>)
        }
        else do {
          let s = (if cfg_max_tasks (cfg p) > 0
            then print_line (''[INFO] queue capped at '' @ dec (unat (cfg_max_tasks (cfg p))) @ '' pending tasks'') s else s);
          start_threads e (p\<lparr>srv := s, has_pool := True, key_valid := cfg_monitor (cfg p) \<and> is_tty e \<and> key_made e\<rparr>)
        }
      }
      else start_threads e p)"

text \<open>\<^verbatim>\<open>main\<close> up to its accept loop; the first component is the exit code when it returned before.\<close>

definition main_start :: "start_env \<Rightarrow> int \<Rightarrow> string list \<Rightarrow> (int option \<times> process) option" where
  "main_start e cores args = do {
     let p = process_init (server_defaults cores);
     if \<not> mutex_ok e then Some (Some 1, p)
     else do {
       let p = p\<lparr>log_mutex := True\<rparr>;
       r \<leftarrow> parse_args args (cfg p);
       case r of
         Inl code \<Rightarrow> main_returns code p
       | Inr c \<Rightarrow> do {
           (fd, s) \<leftarrow> create_listener (sock e) (pton e (host c)) (bound e) (listening e) (banner c (srv p));
           let p = p\<lparr>srv := s, cfg := c\<rparr>;
           if fd < 0 then main_returns 1 p
           else do {
             let p = p\<lparr>listen_fd := fd\<rparr>;
             (afd, s) \<leftarrow> create_listener (asock e) (pton e (host c)) (abound e) (alistening e) (srv p);
             if afd < 0 then do {
               s \<leftarrow> close_fd fd s;
               main_returns 1 (p\<lparr>srv := s, listen_fd := -1\<rparr>)
             }
             else start_pool e (p\<lparr>srv := s, admin_fd := afd\<rparr>)
           }
         }
     }
   }"

section \<open>The loops\<close>

datatype accept_answer = Accepted int | Accept_EINTR | Accept_EBADF | Accept_error

text \<open>A step of the main thread in its accept loop; a new descriptor is added to the open ones.\<close>

definition main_step :: "accept_answer \<Rightarrow> bool \<Rightarrow> bool \<Rightarrow> string option \<Rightarrow> nat \<Rightarrow> process \<Rightarrow> process option" where
  "main_step answer alloc started ip client_port p =
     (case mpc p of
        M_Test \<Rightarrow> Some (p\<lparr>mpc := if running p then M_Accept else M_Left\<rparr>)
      | M_Accept \<Rightarrow>
          (case answer of
             Accept_EINTR \<Rightarrow> Some (p\<lparr>mpc := M_Test\<rparr>)
           | Accept_EBADF \<Rightarrow> Some (p\<lparr>mpc := M_Left\<rparr>)
           | Accept_error \<Rightarrow> Some (p\<lparr>mpc := if \<not> running p then M_Left else M_Test\<rparr>)
           | Accepted client \<Rightarrow> do {
               (handed, s) \<leftarrow> accept_round alloc started client ((srv p)\<lparr>open_fds := client # open_fds (srv p)\<rparr>);
               Some (p\<lparr>srv := s, pending := (if handed then pending p @ [(client, peer_text ip client_port)] else pending p), mpc := M_Test\<rparr>)
             })
      | M_Left \<Rightarrow> Some p)"

text \<open>A step of \<^verbatim>\<open>admin_listener\<close>: \<open>readable\<close> is whether \<^verbatim>\<open>poll\<close> reports input.\<close>

definition admin_listener_step ::
  "bool \<Rightarrow> accept_answer \<Rightarrow> thread_pool option \<Rightarrow> string option \<Rightarrow> process \<Rightarrow> process option" where
  "admin_listener_step readable answer tp input p =
     (case apc p of
        A_Test \<Rightarrow> Some (p\<lparr>apc := if running p then A_Poll else A_Left\<rparr>)
      | A_Poll \<Rightarrow> Some (p\<lparr>apc := if readable then A_Accept else A_Test\<rparr>)
      | A_Accept \<Rightarrow>
          (case answer of
             Accept_EINTR \<Rightarrow> Some (p\<lparr>apc := A_Test\<rparr>)
           | Accept_EBADF \<Rightarrow> Some (p\<lparr>apc := A_Left\<rparr>)
           | Accept_error \<Rightarrow> Some (p\<lparr>apc := if \<not> running p then A_Left else A_Test\<rparr>)
           | Accepted client \<Rightarrow> do {
               s \<leftarrow> handle_admin_connection (cfg_workers (cfg p)) tp client input ((srv p)\<lparr>open_fds := client # open_fds (srv p)\<rparr>);
               Some (p\<lparr>srv := s, apc := A_Test\<rparr>)
             })
      | A_Left \<Rightarrow> Some p)"

text \<open>A round of \<^verbatim>\<open>sse_broadcaster\<close> from the end of its wait on.\<close>

definition sse_broadcaster_step :: "thread_pool option \<Rightarrow> process \<Rightarrow> process option" where
  "sse_broadcaster_step tp p =
     (if \<not> running p then Some p
      else do {
        (seen, lst, s) \<leftarrow> broadcast_round (cfg_workers (cfg p)) tp (seen_gen p) (last_body p) (srv p);
        Some (p\<lparr>srv := s, seen_gen := seen, last_body := lst\<rparr>)
      })"

text \<open>The task of connection \<open>i\<close> on a worker, or \<^verbatim>\<open>naive_thread\<close>.\<close>

definition connection_step :: "'d fp \<Rightarrow> bool \<Rightarrow> log_env \<Rightarrow> nat \<Rightarrow> string option \<Rightarrow> process \<Rightarrow> process option" where
  "connection_step fp mem e i input p = do {
     s \<leftarrow> handle_connection fp mem e (fst (pending p ! i)) (snd (pending p ! i)) input (srv p);
     Some (p\<lparr>srv := s, pending := take i (pending p) @ drop (Suc i) (pending p)\<rparr>)
   }"

definition em_dash :: string where "em_dash = [CHR 0xE2, CHR 0x80, CHR 0x94]"

definition ellipsis :: string where "ellipsis = [CHR 0xE2, CHR 0x80, CHR 0xA6]"

definition detach_hint :: string where
  "detach_hint = newline @ ''[monitor] detached '' @ em_dash @ '' streaming request log (press 'm' to reattach, 'q' to quit)'' @ newline"

text \<open>
  A round of \<^verbatim>\<open>key_listener\<close> with the key that was read, if any; the result tells whether the monitor is reattached. The quit key
  also raises \<^verbatim>\<open>SIGINT\<close> in the main thread.
\<close>

definition key_listener_step :: "bool \<Rightarrow> char option \<Rightarrow> bool \<Rightarrow> process \<Rightarrow> bool \<times> process" where
  "key_listener_step is_attached key still_attached p =
     (if \<not> running p then (False, p)
      else if is_attached then (False, p\<lparr>was_attached := True\<rparr>)
      else
        let p = (if was_attached p
              then p\<lparr>srv := (srv p)\<lparr>console := console (srv p) @ [detach_hint]\<rparr>, was_attached := False\<rparr>
              else p)
        in (case key of
              None \<Rightarrow> (False, p)
            | Some c \<Rightarrow>
                if c = CHR ''m'' \<or> c = CHR ''M'' then
                  if \<not> still_attached then (True, p\<lparr>srv := print_line (''[monitor] reattaching'' @ ellipsis) (srv p)\<rparr>) else (False, p)
                else if c = CHR ''q'' \<or> c = CHR ''Q'' then (False, p\<lparr>running := False\<rparr>)
                else (False, p)))"

section \<open>The end\<close>

definition close_if :: "int \<Rightarrow> server \<Rightarrow> server option" where
  "close_if fd s = (if fd \<ge> 0 then close_fd fd s else Some s)"

definition on_sigint :: "process \<Rightarrow> process option" where
  "on_sigint p = do {
     let p = p\<lparr>running := False\<rparr>;
     s \<leftarrow> close_if (listen_fd p) (srv p);
     s \<leftarrow> close_if (admin_fd p) s;
     Some (p\<lparr>srv := s\<rparr>)
   }"

text \<open>\<^verbatim>\<open>main\<close> behind its accept loop, with the other threads joined.\<close>

definition main_end :: "process \<Rightarrow> process option" where
  "main_end p = do {
     s \<leftarrow> close_if (listen_fd p) (srv p);
     s \<leftarrow> close_if (admin_fd p) s;
     let s = (if bcast_valid p then notify_event s else s);
     s \<leftarrow> sse_close_all s;
     Some (p\<lparr>srv := s, listen_fd := -1, admin_fd := -1, has_pool := False, log_mutex := False\<rparr>)
   }"

end
