(* ===== verification/Http_Properties.thy ===== *)
theory Http_Properties
  imports Http_Main
begin

text \<open>
  The HTTP demonstration as a whole: its threads interleave in every order, and every open descriptor has exactly one owner.
\<close>

section \<open>Owners of descriptors\<close>







section \<open>The machine\<close>

text \<open>The descriptors of the two listening sockets.\<close>

definition listeners :: "process \<Rightarrow> int list" where
  "listeners p = (if admin_valid p then [listen_fd p, admin_fd p] else [])"

lemma listeners_update [simp]:
  "listeners (p\<lparr>srv := s\<rparr>) = listeners p" "listeners (p\<lparr>pending := cs\<rparr>) = listeners p" "listeners (p\<lparr>mpc := m\<rparr>) = listeners p"
  "listeners (p\<lparr>apc := a\<rparr>) = listeners p" "listeners (p\<lparr>seen_gen := g\<rparr>) = listeners p" "listeners (p\<lparr>last_body := l\<rparr>) = listeners p"
  "listeners (p\<lparr>running := r\<rparr>) = listeners p" "listeners (p\<lparr>was_attached := w\<rparr>) = listeners p"
  by (simp_all add: listeners_def)





section \<open>Every step returns and keeps the invariant\<close>






section \<open>Start\<close>

text \<open>\<^verbatim>\<open>socket\<close> returns descriptors that are not open.\<close>

definition sockets_ok :: "start_env \<Rightarrow> bool" where
  "sockets_ok e \<longleftrightarrow> (case sock e of None \<Rightarrow> True | Some fd \<Rightarrow> 0 \<le> fd \<and> asock e \<noteq> Some fd) \<and>
     (case asock e of None \<Rightarrow> True | Some fd \<Rightarrow> 0 \<le> fd)"

lemma create_listener_result:
  "create_listener so a b l s =
     Some (case so of None \<Rightarrow> (-1, s) | Some fd \<Rightarrow> if a \<and> b \<and> l then (fd, s\<lparr>open_fds := fd # open_fds s\<rparr>) else (-1, s))"
  by (cases so) (simp_all add: create_listener_def close_fd_def Let_def)

text \<open>How the start ends: with an exit code and nothing left open, or in the accept loop.\<close>

definition start_result :: "start_env \<Rightarrow> int option \<Rightarrow> process \<Rightarrow> bool" where
  "start_result e code p =
     (case code of
        Some c \<Rightarrow> (c = 1 \<or> c = 2) \<and> open_fds (srv p) = [] \<and> \<not> log_mutex p
      | None \<Rightarrow> log_mutex p \<and> 0 \<le> listen_fd p \<and> 0 \<le> admin_fd p \<and> listen_fd p \<noteq> admin_fd p \<and>
          (has_pool p \<longleftrightarrow> mode (cfg p) = MODE_POOL) \<and> admin_valid p = admin_made e \<and> running p = admin_made e \<and>
          bcast_valid p = bcast_made e \<and> open_fds (srv p) = (if admin_made e then [admin_fd p, listen_fd p] else []) \<and>
          pending p = [] \<and> conns (srv p) = 0 \<and> active_connections (srv p) = 0 \<and> request_log (srv p) = log_ring_init \<and>
          sse_fds (srv p) = replicate MAX_SSE_CLIENTS 0 \<and> sse_count (srv p) = 0)"

text \<open>The state before the pool and the threads are started.\<close>

definition bare :: "process \<Rightarrow> bool" where
  "bare p \<longleftrightarrow> log_mutex p \<and> 0 \<le> listen_fd p \<and> 0 \<le> admin_fd p \<and> listen_fd p \<noteq> admin_fd p \<and> running p \<and> \<not> admin_valid p \<and> \<not> bcast_valid p \<and>
     \<not> has_pool p \<and> open_fds (srv p) = [admin_fd p, listen_fd p] \<and> pending p = [] \<and> conns (srv p) = 0 \<and> active_connections (srv p) = 0 \<and>
     request_log (srv p) = log_ring_init \<and> sse_fds (srv p) = replicate MAX_SSE_CLIENTS 0 \<and> sse_count (srv p) = 0"

lemma start_threads_ok:
  assumes "bare (p\<lparr>has_pool := False\<rparr>)" "has_pool p \<longleftrightarrow> mode (cfg p) = MODE_POOL"
  shows "\<exists>p'. start_threads e p = Some (None, p') \<and> start_result e None p'"
  using assms by (cases "admin_made e"; cases "bcast_made e")
    (simp_all add: start_threads_def bare_def start_result_def close_fd_def)

lemma start_pool_ok:
  assumes "bare p"
  shows "\<exists>code p'. start_pool e p = Some (code, p') \<and> start_result e code p'"
proof (cases "mode (cfg p) = MODE_POOL \<and> \<not> pool_made e")
  case True
  then show ?thesis using assms by (simp add: start_pool_def bare_def close_fd_def print_line_def main_returns_def start_result_def)
next
  case False
  define s where "s = print_line (''[INFO] thread pool initialized with '' @ show_int (cfg_workers (cfg p)) @ '' workers'') (srv p)"
  define t where "t = (if cfg_max_tasks (cfg p) > 0
    then print_line (''[INFO] queue capped at '' @ dec (unat (cfg_max_tasks (cfg p))) @ '' pending tasks'') s else s)"
  define q where "q = (if mode (cfg p) = MODE_POOL
    then p\<lparr>srv := t, has_pool := True, key_valid := cfg_monitor (cfg p) \<and> is_tty e \<and> key_made e\<rparr> else p)"
  have "start_pool e p = start_threads e q" using False by (simp add: start_pool_def q_def t_def s_def Let_def)
  moreover have "bare (q\<lparr>has_pool := False\<rparr>)" "has_pool q \<longleftrightarrow> mode (cfg q) = MODE_POOL"
    using assms by (simp_all add: bare_def q_def t_def s_def print_line_def)
  ultimately show ?thesis using start_threads_ok [of q e] by auto
qed

lemma main_start_ok:
  assumes "sockets_ok e" "parse_args args (server_defaults cores) = Some r"
  shows "\<exists>code p. main_start e cores args = Some (code, p) \<and> start_result e code p"
proof -
  let ?i = "process_init (server_defaults cores)"
  have i: "cfg ?i = server_defaults cores" "srv ?i = server_init" "open_fds server_init = []" by (simp_all add: process_init_def server_init_def)
  consider "\<not> mutex_ok e" | code where "mutex_ok e" "r = Inl code" | c where "mutex_ok e" "r = Inr c" by (cases r) auto
  then show ?thesis
  proof cases
    case 1
    then show ?thesis by (simp add: main_start_def start_result_def process_init_def server_init_def)
  next
    case 2
    then show ?thesis using assms(2) parse_args_usage [of args "server_defaults cores" code] i
      by (simp add: main_start_def start_result_def main_returns_def)
  next
    case 3
    have ban: "open_fds (banner c server_init) = []" by (simp add: banner_def print_line_def server_init_def)
    show ?thesis
    proof (cases "\<exists>fd afd. sock e = Some fd \<and> asock e = Some afd \<and> pton e (host c) \<and> bound e \<and> listening e \<and> abound e \<and> alistening e")
      case True
      then obtain fd afd where fd: "sock e = Some fd" "asock e = Some afd" "0 \<le> fd" "0 \<le> afd" "fd \<noteq> afd"
        using assms(1) by (auto simp: sockets_ok_def)
      define q where "q = ?i\<lparr>log_mutex := True, cfg := c, listen_fd := fd, srv := (banner c server_init)\<lparr>open_fds := [afd, fd]\<rparr>, admin_fd := afd\<rparr>"
      have "main_start e cores args = start_pool e q"
        using True fd 3 assms(2) i ban by (simp add: main_start_def create_listener_result q_def Let_def)
      moreover have "bare q" using fd by (simp add: bare_def q_def process_init_def server_init_def banner_def print_line_def)
      ultimately show ?thesis using start_pool_ok by simp
    next
      case False
      then show ?thesis using assms 3 i ban
        by (auto simp: main_start_def create_listener_result Let_def main_returns_def start_result_def close_fd_def sockets_ok_def split: option.splits)
    qed
  qed
qed




section \<open>Properties\<close>



definition sample_env :: start_env where
  "sample_env = \<lparr>mutex_ok = True, pton = (\<lambda>_. True), sock = Some 3, bound = True, listening = True, asock = Some 4, abound = True,
     alistening = True, pool_made = True, is_tty = True, key_made = True, admin_made = True, bcast_made = True\<rparr>"

lemma sample_parse: "parse_args [] (server_defaults 4) = Some (Inr (server_defaults 4))"
  by (simp add: parse_args_def server_defaults_def)



text \<open>
  C39: the start of \<^verbatim>\<open>main\<close>, for every answer of the library: it returns 1 or 2 with no descriptor open and the mutex of the log
  destroyed, or it reaches the accept loop with both listeners open, no connection and no subscriber. When the admin thread cannot be
  started it closes both listeners and clears \<^verbatim>\<open>running\<close>.
\<close>

theorem main_start_all_or_nothing:
  assumes "sockets_ok e" and "parse_args args (server_defaults cores) = Some r"
  shows "\<exists>code p. main_start e cores args = Some (code, p) \<and>
    (case code of
       Some c \<Rightarrow> (c = 1 \<or> c = 2) \<and> open_fds (srv p) = [] \<and> \<not> log_mutex p
     | None \<Rightarrow> log_mutex p \<and> 0 \<le> listen_fd p \<and> 0 \<le> admin_fd p \<and> listen_fd p \<noteq> admin_fd p \<and> (has_pool p \<longleftrightarrow> mode (cfg p) = MODE_POOL) \<and>
         admin_valid p = admin_made e \<and> running p = admin_made e \<and> bcast_valid p = bcast_made e \<and>
         open_fds (srv p) = (if admin_made e then [admin_fd p, listen_fd p] else []) \<and> pending p = [] \<and> active_connections (srv p) = 0 \<and>
         sse_count (srv p) = 0)"
proof -
  obtain code p where "main_start e cores args = Some (code, p)" "start_result e code p" using main_start_ok [OF assms] by blast
  then show ?thesis by (intro exI [of _ code] exI [of _ p]) (auto simp: start_result_def split: option.splits)
qed

theorem main_start_all_or_nothing_witness:
  "\<exists>p. main_start (sample_env\<lparr>abound := False\<rparr>) 4 [] = Some (Some 1, p) \<and> open_fds (srv p) = [] \<and> \<not> log_mutex p"
proof -
  have "sockets_ok (sample_env\<lparr>abound := False\<rparr>)" by (simp add: sockets_ok_def sample_env_def)
  from main_start_all_or_nothing [OF this sample_parse] obtain code p where
    p: "main_start (sample_env\<lparr>abound := False\<rparr>) 4 [] = Some (code, p)" "case code of Some c \<Rightarrow> open_fds (srv p) = [] \<and> \<not> log_mutex p | None \<Rightarrow> True"
    by (auto split: option.splits)
  moreover have "\<exists>q. main_start (sample_env\<lparr>abound := False\<rparr>) 4 [] = Some (Some 1, q)"
    by (simp add: main_start_def sample_env_def sample_parse process_init_def create_listener_def banner_def main_returns_def close_fd_def
      print_line_def server_init_def Let_def)
  ultimately show ?thesis by auto
qed




definition sample_server :: server where
  "sample_server = server_init\<lparr>open_fds := [5, 3], conns := 1, active_connections := 1\<rparr>"



text \<open>
  C38: a frame for the subscribers: \<^verbatim>\<open>sse_send_all\<close> writes to each of them once, in order, a prefix of the frame. It keeps
  exactly those that got all of it, in the same order, and closes the others, and only them.
\<close>

theorem sse_send_all_keeps_live:
  assumes "table_ok s" and "distinct (open_fds s)" and "distinct (subscribers s)" and "set (subscribers s) \<subseteq> set (open_fds s)"
  shows "\<exists>s' ws. sse_send_all frame s = Some s' \<and> table_ok s' \<and> wire s' = wire s @ ws \<and> map fst ws = subscribers s \<and>
    list_all (\<lambda>w. take (length (snd w)) frame = snd w) ws \<and> subscribers s' = map fst (filter (\<lambda>w. snd w = frame) ws) \<and>
    open_fds s' = filter (\<lambda>f. f \<in> set (subscribers s) \<longrightarrow> f \<in> set (subscribers s')) (open_fds s)"
proof -
  obtain kept ws rest where d: "deliver frame (net s) (subscribers s) = (kept, ws, rest)" by (metis prod_cases3)
  from sse_send_all_ok [OF assms d] deliver_writes [OF d] show ?thesis by auto
qed

theorem sse_send_all_keeps_live_witness:
  "\<exists>s'. sse_send_all ''ab'' (sample_server\<lparr>open_fds := [8, 7, 6, 3], sse_fds := [6, 7, 8] @ replicate 61 0, sse_count := 3,
       net := [Sent 2, Sent 1, Failed, Interrupted, Sent 1, Sent 1]\<rparr>) = Some s' \<and>
     wire s' = [(6, ''ab''), (7, ''a''), (8, ''ab'')] \<and> subscribers s' = [6, 8] \<and> open_fds s' = [8, 6, 3]"
proof -
  define s where "s = sample_server\<lparr>open_fds := [8, 7, 6, 3], sse_fds := [6, 7, 8] @ replicate 61 0, sse_count := 3,
    net := [Sent 2, Sent 1, Failed, Interrupted, Sent 1, Sent 1]\<rparr>"
  have f: "subscribers s = [6, 7, 8]" "open_fds s = [8, 7, 6, 3]" "wire s = []" "net s = [Sent 2, Sent 1, Failed, Interrupted, Sent 1, Sent 1]"
    by (simp_all add: s_def subscribers_def sample_server_def server_init_def)
  have t: "table_ok s" "distinct (open_fds s)" "distinct (subscribers s)" "set (subscribers s) \<subseteq> set (open_fds s)"
    by (simp_all add: f) (simp add: s_def table_ok_def MAX_SSE_CLIENTS_def)
  have d: "deliver ''ab'' (net s) (subscribers s) = ([6, 8], [(6, ''ab''), (7, ''a''), (8, ''ab'')], [])" by (simp add: f)
  from sse_send_all_ok [OF t d] obtain s' where s': "sse_send_all ''ab'' s = Some s'" "wire s' = [(6, ''ab''), (7, ''a''), (8, ''ab'')]"
    by (auto simp: f)
  from sse_send_all_keeps_live [OF t, of "''ab''"] s' have
    "subscribers s' = map fst (filter (\<lambda>w. snd w = ''ab'') (wire s'))"
    "open_fds s' = filter (\<lambda>f. f \<in> set (subscribers s) \<longrightarrow> f \<in> set (subscribers s')) (open_fds s)"
    by (auto simp: f(3))
  then show ?thesis using s' unfolding s_def [symmetric] f by simp
qed

end
