(* ===== verification/Spec2Isabelle.thy ===== *)
theory Spec2Isabelle
  imports Pool_Properties Baseline_Properties Monitor_Layout Monitor_Properties Lock_Properties Http_Properties
begin

text \<open>
  A verification development of the C thread pool library (\<^verbatim>\<open>src/src\<close>, \<^verbatim>\<open>src/include\<close>), of the baseline pool it is
  measured against (\<^verbatim>\<open>src/src/baseline\<close>), of the two lock programs under \<^verbatim>\<open>src/proof\<close> and of the HTTP
  demonstration under \<^verbatim>\<open>src/demo\<close>.

  \<^bold>\<open>The program and its parts.\<close> A pool owns a priority queue of tasks (three FIFO lanes and a bit mask), an array of
  workers, three pairs of mutex and condition variable (drain, pause, aging), an optional aging thread that promotes tasks
  that wait too long, and an optional monitor thread that draws the state with ncurses. Clients submit tasks, pause, resume
  and wait; the owner enables and disables aging and destroys the pool. The HTTP demonstration submits one task
  per connection, each of which renders a bitmap.

  \<^bold>\<open>How it is modelled.\<close> A fault of C (a null or dangling pointer, an index out of bounds, a signed overflow, a pthread
  call on an object that is not initialised) is \<open>None\<close> in the option monad; addresses are natural numbers and a heap is
  a map from addresses to records, so that a freed node is not in the map; unsigned types are words of
  their width, \<^verbatim>\<open>atomic_int\<close> is a word read with \<open>sint\<close>, \<^verbatim>\<open>int\<close> and \<^verbatim>\<open>long\<close> are integers whose operations are checked
  against the range. Concurrent code is a machine: one step function per kind of thread, cut at the accesses to shared
  variables and at the critical sections; an \<open>inductive\<close> step relation interleaves the threads; results of library calls, the
  choice of the thread a signal wakes and spurious wake-ups are arbitrary. Memory is sequentially consistent.

  \<^bold>\<open>Theories.\<close>
  \<^item> \<open>Pool_Prelude\<close>: types, checked arithmetic, arrays, sums over threads, reachability and the locale
    \<open>inductive_invariant\<close>. \<open>Linked_Lists\<close>: list segments in a heap. \<open>Pthread\<close>: mutexes and condition variables.
  \<^item> \<open>Task\<close> (\<^verbatim>\<open>task.c\<close>), \<open>Priority_Queue\<close> and \<open>Aging\<close> (\<^verbatim>\<open>priority_queue.c\<close>), \<open>Worker\<close> (\<^verbatim>\<open>worker.c\<close>). \<open>Lanes_Spec\<close> is the abstract
    queue, a list of lanes, and the locale \<open>priority_lanes\<close> of what an implementation promises; it is interpreted on the pointer
    implementation of the priority queue and on the baseline's queue.
  \<^item> \<open>Thread_Pool\<close> (\<^verbatim>\<open>thread_pool.c\<close>, \<^verbatim>\<open>internal/struct.h\<close>): construction with every failure, release, statistics.
    \<open>Pool_Machine\<close>: the concurrent operations of \<^verbatim>\<open>thread_pool.c\<close>. \<open>Pool_Invariant\<close> and \<open>Pool_Safety\<close>: the
    invariant and its preservation by every step. \<open>Pool_Runs\<close>: schedules that are evaluated. \<open>Pool_Properties\<close>: safety, graceful
    shutdown, accounting, and the runs in which the code blocks.
  \<^item> \<open>Baseline_Queue\<close>, \<open>Baseline_Pool\<close>, \<open>Baseline_Safety\<close>, \<open>Baseline_Properties\<close> (\<^verbatim>\<open>baseline/baseline.c\<close>): the same for the baseline
    pool, and the equivalence of its queue with the priority queue on one priority.
  \<^item> \<open>Decimal\<close>: formatted output. \<open>Monitor_View\<close> and \<open>Monitor_Layout\<close> (\<^verbatim>\<open>monitor.c\<close>, drawing): the calls of
    \<^verbatim>\<open>draw_ui\<close> and the cells they paint. \<open>Monitor\<close> and \<open>Monitor_Properties\<close> (\<^verbatim>\<open>monitor.c\<close>, from \<^verbatim>\<open>monitor_thread\<close> on): the life
    of the monitor thread.
  \<^item> \<open>Lock_Client\<close>, \<open>Filter_Lock\<close>, \<open>Bakery_Lock\<close>, \<open>Lock_Properties\<close> (\<^verbatim>\<open>proof/filter-lock\<close>, \<^verbatim>\<open>proof/bakery-lock\<close>): the locks, with the
    locales \<open>counted_section\<close> and \<open>bounded_section\<close> of what the critical section relies on, interpreted on both.
  \<^item> \<open>Mandelbrot\<close> (\<^verbatim>\<open>demo/mandelbrot.c\<close>): the bitmap writer.
  \<^item> \<open>Http_Log\<close>, \<open>Http_Parse\<close>, \<open>Http_Server\<close> (\<^verbatim>\<open>demo/http_server.c\<close>): the request log and the list of lines it stands for; query strings and
    the command line; the handlers of the render and the admin port, the broadcaster and the accept loop on one record of the
    server's state, in which closing a descriptor that is not open is a fault. \<open>Http_Safety\<close> and \<open>Http_Handlers\<close>: every handler
    returns, and what it leaves. \<open>Http_Main\<close>: \<^verbatim>\<open>main\<close>, its threads and its signal handler. \<open>Http_Properties\<close>: the machine of all
    threads, whose invariant gives every open descriptor one owner, the start with every failure, and the listeners that
    are closed twice. A handler is one step of the machine: handlers share only counters, the log and the table of
    subscribers, each atomic or under its own lock.
  \<^bold>\<open>Bounds.\<close> The loops of the queue are structural or \<open>partial_function (option)\<close> with proofs that they return. Times are below nine
  billion seconds and promotion times below nine billion milliseconds times one thousand, far from the overflow of
  \<^verbatim>\<open>long\<close>. The number of tasks and of concurrent submits is below \<open>2 ^ 31\<close>, the range of \<^verbatim>\<open>atomic_int\<close>; the machine stops submits
  that would go beyond (\<open>env_ok\<close>). The layout of the monitor is proved for at most 100 workers, whose numbers have two
  digits. The join of the monitor needs at most six steps of its thread and a wait of the filter lock at most ten; these
  numbers are part of the statements.

  \<^bold>\<open>Not modelled.\<close> Weak memory orders: the accesses with \<^verbatim>\<open>memory_order_relaxed\<close> are only to statistics and counters.
  The destruction of the pool while the monitor thread draws is covered by the machine of \<open>Monitor\<close>, in which the pool
  is one bit, not by that of \<open>Pool_Machine\<close>. \<^verbatim>\<open>include/cpu_core.h\<close> asks the operating system for the number of processors.
  Of \<^verbatim>\<open>demo/http_server.c\<close>, the terminal mode (\<^verbatim>\<open>enable_cbreak\<close>, \<^verbatim>\<open>restore_termios\<close>) is not modelled, the messages on standard error
  are left out, and the pool is a snapshot of the right shape, not the machine of \<open>Pool_Machine\<close>.
  The programs under \<^verbatim>\<open>benchmark\<close> and \<^verbatim>\<open>test\<close> only call the library, and the scripts, the dashboards and the report are not C.
\<close>

end
